(* ===== verification/Rtp_Prelude.thy ===== *)
theory Rtp_Prelude
  imports Main "HOL-Library.Word" "HOL-Library.Monad_Syntax"
begin

text \<open>
  Shared vocabulary of the development.

  Machine integers of the Rust sources are words (\<open>u8\<close>, \<open>u16\<close>, \<open>u32\<close>, \<open>u64\<close>), \<open>usize\<close>
  lengths and positions are \<open>nat\<close>, byte strings and \<open>[u8; N]\<close> arrays are byte lists (the
  fixed length is part of each type's well-formedness predicate). A Rust \<open>Result\<close> is a
  sum with the error on the left; the \<open>?\<close> operator, with the \<open>From\<close> conversion it applies
  to the error, is \<open>qm\<close>. A panic (an \<open>assert!\<close> or \<open>expect\<close> that fires) is \<open>None\<close>.

  The theory also holds the big-endian integer codecs (\<open>to_be_bytes\<close> and
  \<open>from_be_bytes\<close> of the Rust standard library), and the generic facts on sums, lists and
  words the components share. The collection \<open>res_iff\<close> gathers the inversion rules for
  successful results.
\<close>

unbundle bit_operations_syntax

type_synonym u8 = "8 word"
type_synonym u16 = "16 word"
type_synonym u32 = "32 word"
type_synonym u64 = "64 word"
type_synonym byte = "8 word"
type_synonym bytes = "byte list"

named_theorems res_iff "when a result-valued expression is Inr"

section \<open>Results\<close>

text \<open>\<open>qm conv x f\<close> is \<open>let v = x?; f(v)\<close>, where \<open>conv\<close> is the error conversion.\<close>

definition qm :: "('e \<Rightarrow> 'f) \<Rightarrow> 'e + 'a \<Rightarrow> ('a \<Rightarrow> 'f + 'b) \<Rightarrow> 'f + 'b" where
  "qm conv x f = (case x of Inl e \<Rightarrow> Inl (conv e) | Inr v \<Rightarrow> f v)"

definition is_ok :: "'e + 'a \<Rightarrow> bool" where
  "is_ok x = (case x of Inl _ \<Rightarrow> False | Inr _ \<Rightarrow> True)"

text \<open>\<open>ok_or\<close> of the Rust \<open>Option\<close>.\<close>

definition ok_or :: "'e \<Rightarrow> 'a option \<Rightarrow> 'e + 'a" where
  "ok_or e x = (case x of None \<Rightarrow> Inl e | Some v \<Rightarrow> Inr v)"

lemma qm_Inl [simp]: "qm conv (Inl e) f = Inl (conv e)"
  by (simp add: qm_def)

lemma qm_Inr [simp]: "qm conv (Inr v) f = f v"
  by (simp add: qm_def)

lemma qm_cong [fundef_cong]:
  "x = x' \<Longrightarrow> (\<And>v. x' = Inr v \<Longrightarrow> f v = f' v) \<Longrightarrow> qm conv x f = qm conv x' f'"
  by (cases x') simp_all

lemma qm_eq_Inr [res_iff]: "qm conv x f = Inr y \<longleftrightarrow> (\<exists>v. x = Inr v \<and> f v = Inr y)"
  by (cases x) auto

lemma qm_eq_Inl: "qm conv x f = Inl e \<longleftrightarrow>
    (\<exists>e'. x = Inl e' \<and> e = conv e') \<or> (\<exists>v. x = Inr v \<and> f v = Inl e)"
  by (cases x) auto

lemma if_Inl_eq_Inr [res_iff]: "(if c then Inl e else x) = Inr y \<longleftrightarrow> \<not> c \<and> x = Inr y"
  by auto

lemma if_Inl_eq_Inr' [res_iff]: "(if c then x else Inl e) = Inr y \<longleftrightarrow> c \<and> x = Inr y"
  by auto

lemma is_ok_simps [simp]: "is_ok (Inr v)" "\<not> is_ok (Inl e)"
  by (simp_all add: is_ok_def)

lemma is_ok_iff: "is_ok x \<longleftrightarrow> (\<exists>v. x = Inr v)"
  by (cases x) auto

lemma ok_or_simps [simp]: "ok_or e (Some v) = Inr v" "ok_or e None = Inl e"
  by (simp_all add: ok_or_def)

lemma ok_or_eq_Inr [res_iff]: "ok_or e x = Inr v \<longleftrightarrow> x = Some v"
  by (cases x) auto

section \<open>Big-endian integers\<close>

primrec be_bytes :: "nat \<Rightarrow> nat \<Rightarrow> bytes" where
  "be_bytes 0 x = []"
| "be_bytes (Suc n) x = be_bytes n (x div 256) @ [word_of_nat x]"

definition be_val :: "bytes \<Rightarrow> nat" where
  "be_val bs = foldl (\<lambda>a b. a * 256 + unat b) 0 bs"

definition to_be :: "'a::len word \<Rightarrow> bytes" where
  "to_be w = be_bytes (LENGTH('a) div 8) (unat w)"

definition from_be :: "bytes \<Rightarrow> 'a::len word" where
  "from_be bs = word_of_nat (be_val bs)"

lemma length_be_bytes [simp]: "length (be_bytes n x) = n"
  by (induction n arbitrary: x) auto

lemma be_val_Nil [simp]: "be_val [] = 0"
  by (simp add: be_val_def)

lemma be_val_snoc [simp]: "be_val (bs @ [b]) = be_val bs * 256 + unat b"
  by (simp add: be_val_def)

lemma unat_byte_less: "unat (b :: byte) < 256"
  using unsigned_less [of b] by simp

lemma be_val_bound: "be_val bs < 256 ^ length bs"
proof (induction bs rule: rev_induct)
  case Nil
  then show ?case by simp
next
  case (snoc b bs)
  have "unat b < 256" by (rule unat_byte_less)
  with snoc show ?case by (simp add: power_add)
qed

lemma be_val_be_bytes: "be_val (be_bytes n x) = x mod 256 ^ n"
proof (induction n arbitrary: x)
  case 0
  then show ?case by simp
next
  case (Suc n)
  have "x div 256 mod 256 ^ n * 256 + x mod 256 = x mod (256 * 256 ^ n)"
    by (simp add: mod_mult2_eq mult.commute add.commute)
  with Suc show ?case by (simp add: unat_of_nat)
qed

lemma be_bytes_be_val: "be_bytes (length bs) (be_val bs) = bs"
proof (induction bs rule: rev_induct)
  case Nil
  then show ?case by simp
next
  case (snoc b bs)
  have b: "unat b < 256" by (rule unat_byte_less)
  have "(word_of_nat (be_val bs * 256 + unat b) :: byte) = b"
    using b by (simp add: word_unat_eq_iff unat_of_nat mod_mult_self3 del: of_nat_add of_nat_mult)
  with snoc b show ?case by simp
qed

lemma length_to_be: "length (to_be (w :: 'a::len word)) = LENGTH('a) div 8"
  by (simp add: to_be_def)

lemma length_to_be_simps [simp]:
  "length (to_be (a :: u16)) = 2" "length (to_be (b :: u32)) = 4" "length (to_be (c :: u64)) = 8"
  by (simp_all add: length_to_be)

lemma power_256_div_8: "8 dvd n \<Longrightarrow> (256::nat) ^ (n div 8) = 2 ^ n"
  using power_mult [of "2::nat" 8 "n div 8"] by simp

lemma from_to_be: "8 dvd LENGTH('a) \<Longrightarrow> (from_be (to_be w) :: 'a::len word) = w"
  by (simp add: from_be_def to_be_def be_val_be_bytes power_256_div_8)

lemma to_from_be:
  assumes "8 dvd LENGTH('a::len)" and "length bs = LENGTH('a) div 8"
  shows "to_be (from_be bs :: 'a word) = bs"
proof -
  have "be_val bs < 2 ^ LENGTH('a)"
    using be_val_bound [of bs] assms by (simp add: power_256_div_8)
  then have "unat (word_of_nat (be_val bs) :: 'a word) = be_val bs"
    by (simp add: unat_of_nat)
  with assms show ?thesis
    by (simp add: to_be_def from_be_def) (metis be_bytes_be_val)
qed

lemma from_to_be_simps [simp]:
  "from_be (to_be (a :: u16)) = a" "from_be (to_be (b :: u32)) = b" "from_be (to_be (c :: u64)) = c"
  by (simp_all add: from_to_be)

lemma to_from_be_simps:
  "length bs = 2 \<Longrightarrow> to_be (from_be bs :: u16) = bs"
  "length bs = 4 \<Longrightarrow> to_be (from_be bs :: u32) = bs"
  "length bs = 8 \<Longrightarrow> to_be (from_be bs :: u64) = bs"
  by (simp_all add: to_from_be)

lemma to_be_inj [simp]:
  "to_be (a :: u16) = to_be a' \<longleftrightarrow> a = a'" "to_be (b :: u32) = to_be b' \<longleftrightarrow> b = b'"
  "to_be (c :: u64) = to_be c' \<longleftrightarrow> c = c'"
  by (metis from_to_be_simps)+

section \<open>UTF-8\<close>

text \<open>
  A Rust \<open>str\<close> is a byte list accepted by \<open>utf8_valid\<close>, the check \<open>std::str::from_utf8\<close>
  performs: no overlong form, no surrogate, nothing above U+10FFFF.
\<close>

definition utf8_cont :: "byte \<Rightarrow> bool" where
  "utf8_cont b \<longleftrightarrow> 0x80 \<le> b \<and> b \<le> 0xBF"

fun utf8_valid :: "bytes \<Rightarrow> bool" where
  "utf8_valid [] = True"
| "utf8_valid (b # bs) =
    (if b < 0x80 then utf8_valid bs
     else if 0xC2 \<le> b \<and> b \<le> 0xDF then
       (case bs of c # r \<Rightarrow> utf8_cont c \<and> utf8_valid r | _ \<Rightarrow> False)
     else if 0xE0 \<le> b \<and> b \<le> 0xEF then
       (case bs of
          c # d # r \<Rightarrow>
            (if b = 0xE0 then 0xA0 \<le> c \<and> c \<le> 0xBF
             else if b = 0xED then 0x80 \<le> c \<and> c \<le> 0x9F else utf8_cont c) \<and>
            utf8_cont d \<and> utf8_valid r
        | _ \<Rightarrow> False)
     else if 0xF0 \<le> b \<and> b \<le> 0xF4 then
       (case bs of
          c # d # e # r \<Rightarrow>
            (if b = 0xF0 then 0x90 \<le> c \<and> c \<le> 0xBF
             else if b = 0xF4 then 0x80 \<le> c \<and> c \<le> 0x8F else utf8_cont c) \<and>
            utf8_cont d \<and> utf8_cont e \<and> utf8_valid r
        | _ \<Rightarrow> False)
     else False)"

definition from_utf8 :: "bytes \<Rightarrow> bytes option" where
  "from_utf8 bs = (if utf8_valid bs then Some bs else None)"

text \<open>The bytes of an ASCII literal, as \<open>b"..."\<close> in the sources.\<close>

definition ascii :: "string \<Rightarrow> bytes" where
  "ascii s = map of_char s"

lemma length_ascii [simp]: "length (ascii s) = length s"
  by (simp add: ascii_def)

section \<open>Words and lists\<close>

lemma unat_less_pow: "unat (w :: 'a::len word) < 2 ^ LENGTH('a)"
  using unsigned_less [of w] by simp

lemma unat_u64_less: "unat (w :: u64) < 18446744073709551616"
  using unat_less_pow [of w] by simp

lemma unat_u32_less: "unat (w :: u32) < 4294967296"
  using unat_less_pow [of w] by simp

lemma unat_add:
  fixes a b :: "'a::len word"
  assumes "unat a + unat b < 2 ^ LENGTH('a)"
  shows "unat (a + b) = unat a + unat b"
  using assms by (simp add: unat_word_ariths)

lemma unat_mult:
  fixes a b :: "'a::len word"
  assumes "unat a * unat b < 2 ^ LENGTH('a)"
  shows "unat (a * b) = unat a * unat b"
  using assms by (simp add: unat_word_ariths)

lemma unat_succ:
  fixes i m :: "'a::len word"
  assumes "i < m"
  shows "unat (i + 1) = Suc (unat i)"
proof -
  have "unat i + 1 < 2 ^ LENGTH('a)"
    using assms unat_less_pow [of m] unfolding word_less_nat_alt by linarith
  then show ?thesis
    by (simp add: unat_word_ariths)
qed

lemma succ_le_iff:
  fixes i m :: "'a::len word"
  assumes "i < m"
  shows "i + 1 \<le> k \<longleftrightarrow> i < k"
  using assms by (simp add: word_le_nat_alt word_less_nat_alt unat_succ [OF assms] Suc_le_eq)

lemma less_succ_iff:
  fixes i m :: "'a::len word"
  assumes "i < m"
  shows "k < i + 1 \<longleftrightarrow> k \<le> i"
  using assms by (simp add: word_le_nat_alt word_less_nat_alt unat_succ [OF assms] less_Suc_eq_le)

lemma unat_of_nat_small [simp]:
  "n < 2 ^ LENGTH('a) \<Longrightarrow> unat (word_of_nat n :: 'a::len word) = n"
  by (simp add: unat_of_nat)

lemma of_nat_eq_iff_unat:
  assumes "n < 2 ^ LENGTH('a)"
  shows "word_of_nat n = (w :: 'a::len word) \<longleftrightarrow> n = unat w"
  using assms by (auto simp: unat_of_nat)

text \<open>Code equations that stay in word arithmetic.\<close>

lemma be_bytes_map: "be_bytes n x = map (\<lambda>i. word_of_nat (x div 256 ^ i)) (rev [0..<n])"
proof (induction n arbitrary: x)
  case (Suc n)
  have "rev [0..<Suc n] = map Suc (rev [0..<n]) @ [0]"
    by (simp add: rev_map [symmetric] map_Suc_upt upt_conv_Cons del: upt_Suc)
  with Suc show ?case
    by (simp add: div_mult2_eq comp_def del: upt_Suc)
qed simp

lemma word_of_nat_unat: "(word_of_nat (unat (x :: 'a::len word)) :: 'b::len word) = ucast x"
  by transfer simp

lemma to_be_code [code]:
  "to_be (w :: 'a::len word) = map (\<lambda>i. ucast (drop_bit (8 * i) w)) (rev [0..<LENGTH('a) div 8])"
proof -
  have "(256::nat) ^ i = 2 ^ (8 * i)" for i
    by (simp add: power_mult)
  then have "word_of_nat (unat w div 256 ^ i) = (ucast (drop_bit (8 * i) w) :: u8)" for i
    by (simp add: word_of_nat_unat flip: drop_bit_eq_div unat_drop_bit_eq)
  then show ?thesis
    by (simp add: to_be_def be_bytes_map)
qed

lemma from_be_code [code]: "from_be bs = foldl (\<lambda>a b. a * 256 + ucast b) 0 bs"
proof (induction bs rule: rev_induct)
  case (snoc b bs)
  then show ?case by (simp add: from_be_def)
qed (simp add: from_be_def)

section \<open>Saturating and checked arithmetic\<close>

definition sat_add :: "u64 \<Rightarrow> u64 \<Rightarrow> u64" where
  "sat_add a b = (if unat a + unat b < 2 ^ 64 then a + b else - 1)"

definition sat_mul :: "u64 \<Rightarrow> u64 \<Rightarrow> u64" where
  "sat_mul a b = (if unat a * unat b < 2 ^ 64 then a * b else - 1)"

definition sat_sub :: "u64 \<Rightarrow> u64 \<Rightarrow> u64" where
  "sat_sub a b = (if b \<le> a then a - b else 0)"

definition checked_add :: "u64 \<Rightarrow> u64 \<Rightarrow> u64 option" where
  "checked_add a b = (if unat a + unat b < 2 ^ 64 then Some (a + b) else None)"

definition checked_sub :: "u64 \<Rightarrow> u64 \<Rightarrow> u64 option" where
  "checked_sub a b = (if b \<le> a then Some (a - b) else None)"

definition div_ceil :: "u64 \<Rightarrow> u64 \<Rightarrow> u64" where
  "div_ceil a b = (let d = a div b; r = a mod b in if 0 < r then d + 1 else d)"

lemma unat_u64_max: "unat (- 1 :: u64) = 2 ^ 64 - 1"
  by (simp add: unsigned_minus_1_eq_mask mask_eq_exp_minus_1)

lemma unat_sat_add: "unat (sat_add a b) = min (unat a + unat b) (2 ^ 64 - 1)"
  by (simp add: sat_add_def unat_add unat_u64_max)

lemma unat_sat_mul: "unat (sat_mul a b) = min (unat a * unat b) (2 ^ 64 - 1)"
  by (simp add: sat_mul_def unat_mult unat_u64_max)

lemma unat_sat_sub: "unat (sat_sub a b) = unat a - unat b"
  by (simp add: sat_sub_def unat_sub word_le_nat_alt)

section \<open>A concrete digest for examples\<close>

text \<open>
  A 32-byte digest that instantiates the hash parameter where a statement is applied to concrete
  values. It is not a cryptographic hash.
\<close>

definition sample_hash :: "bytes \<Rightarrow> bytes" where
  "sample_hash x = replicate 24 0 @ to_be (fold (\<lambda>b acc. acc * 257 + ucast b + 1) x (7 :: u64))"

lemma length_sample_hash [simp]: "length (sample_hash x) = 32"
  by (simp add: sample_hash_def)

end
