(* ===== verification/Rtp_Cbor.thy ===== *)
theory Rtp_Cbor
  imports Rtp_Prelude
begin

text \<open>
  RTP-CBOR, the strict deterministic CBOR subset of \<open>rtp2-core/src/cbor.rs\<close>: the
  \<open>Writer\<close> and \<open>MapWriter\<close> encoders, the \<open>Reader\<close> and \<open>MapReader\<close> decoders.

  A writer is its output so far. The two assertions of \<open>MapWriter\<close> are panics, so its
  operations are option-valued. A reader is the record of its buffer, position and depth;
  every read returns the value and the advanced reader. \<open>rdr pre rest d\<close> is the reader that
  has consumed \<open>pre\<close> and has \<open>rest\<close> ahead; for each read operation a rule of the collection
  \<open>cbor_iff\<close> says exactly when it succeeds on such a reader: when the bytes ahead start with
  the writer's encoding of the value it returns. These rules give, for every message
  of the protocol, both that decoding inverts encoding and that nothing but the canonical
  encoding is accepted.

  The locale \<open>codec\<close> is the contract of an encoder and decoder pair used as the element of an array;
  its lemmas are the array loops.
\<close>

named_theorems cbor_iff "when a read of the decoder succeeds"

section \<open>Constants and errors\<close>

definition MAX_DEPTH :: nat where
  "MAX_DEPTH = 16"

definition MAX_CONTROL_SIZE :: nat where
  "MAX_CONTROL_SIZE = 1024 * 1024"

definition MAJOR_UINT :: u8 where "MAJOR_UINT = 0"
definition MAJOR_BYTES :: u8 where "MAJOR_BYTES = 2"
definition MAJOR_TEXT :: u8 where "MAJOR_TEXT = 3"
definition MAJOR_ARRAY :: u8 where "MAJOR_ARRAY = 4"
definition MAJOR_MAP :: u8 where "MAJOR_MAP = 5"
definition MAJOR_SIMPLE :: u8 where "MAJOR_SIMPLE = 7"
definition SIMPLE_FALSE :: u8 where "SIMPLE_FALSE = 20"
definition SIMPLE_TRUE :: u8 where "SIMPLE_TRUE = 21"

lemmas major_defs = MAJOR_UINT_def MAJOR_BYTES_def MAJOR_TEXT_def MAJOR_ARRAY_def MAJOR_MAP_def
  MAJOR_SIMPLE_def SIMPLE_FALSE_def SIMPLE_TRUE_def

datatype cbor_error = Truncated | NonCanonical | ForbiddenType | DepthExceeded | SizeExceeded
  | KeyOrder | UnexpectedType | TrailingBytes | MissingField u64 | InvalidUtf8 | InvalidValue

section \<open>Writer\<close>

type_synonym writer = bytes

definition w_header :: "writer \<Rightarrow> u8 \<Rightarrow> u64 \<Rightarrow> writer" where
  "w_header w major value =
    (let m = push_bit 5 major in
     if value < 24 then w @ [m OR ucast value]
     else if value \<le> 0xFF then w @ [m OR 24] @ [ucast value]
     else if value \<le> 0xFFFF then w @ [m OR 25] @ to_be (ucast value :: u16)
     else if value \<le> 0xFFFFFFFF then w @ [m OR 26] @ to_be (ucast value :: u32)
     else w @ [m OR 27] @ to_be value)"

definition w_uint :: "writer \<Rightarrow> u64 \<Rightarrow> writer" where
  "w_uint w value = w_header w MAJOR_UINT value"

definition w_bytes :: "writer \<Rightarrow> bytes \<Rightarrow> writer" where
  "w_bytes w value = w_header w MAJOR_BYTES (of_nat (length value)) @ value"

definition w_text :: "writer \<Rightarrow> bytes \<Rightarrow> writer" where
  "w_text w value = w_header w MAJOR_TEXT (of_nat (length value)) @ value"

definition w_boolean :: "writer \<Rightarrow> bool \<Rightarrow> writer" where
  "w_boolean w value = w @ [push_bit 5 MAJOR_SIMPLE OR (if value then SIMPLE_TRUE else SIMPLE_FALSE)]"

definition w_array :: "writer \<Rightarrow> u64 \<Rightarrow> writer" where
  "w_array w len = w_header w MAJOR_ARRAY len"

definition w_map :: "writer \<Rightarrow> u64 \<Rightarrow> writer" where
  "w_map w len = w_header w MAJOR_MAP len"

section \<open>MapWriter\<close>

record map_writer =
  mw_w :: writer
  mw_remaining :: u64
  mw_last_key :: "u64 option"

definition mw_begin :: "writer \<Rightarrow> u64 \<Rightarrow> map_writer" where
  "mw_begin w entries = \<lparr>mw_w = w_map w entries, mw_remaining = entries, mw_last_key = None\<rparr>"

definition mw_key :: "map_writer \<Rightarrow> u64 \<Rightarrow> map_writer option" where
  "mw_key m key =
    (if \<not> 0 < mw_remaining m then None
     else if (case mw_last_key m of Some lk \<Rightarrow> \<not> lk < key | None \<Rightarrow> False) then None
     else Some \<lparr>mw_w = w_uint (mw_w m) key, mw_remaining = mw_remaining m - 1, mw_last_key = Some key\<rparr>)"

definition mw_uint :: "map_writer \<Rightarrow> u64 \<Rightarrow> u64 \<Rightarrow> map_writer option" where
  "mw_uint m key value = do { m \<leftarrow> mw_key m key; Some (m\<lparr>mw_w := w_uint (mw_w m) value\<rparr>) }"

definition mw_bytes :: "map_writer \<Rightarrow> u64 \<Rightarrow> bytes \<Rightarrow> map_writer option" where
  "mw_bytes m key value = do { m \<leftarrow> mw_key m key; Some (m\<lparr>mw_w := w_bytes (mw_w m) value\<rparr>) }"

definition mw_boolean :: "map_writer \<Rightarrow> u64 \<Rightarrow> bool \<Rightarrow> map_writer option" where
  "mw_boolean m key value = do { m \<leftarrow> mw_key m key; Some (m\<lparr>mw_w := w_boolean (mw_w m) value\<rparr>) }"

definition mw_text :: "map_writer \<Rightarrow> u64 \<Rightarrow> bytes \<Rightarrow> map_writer option" where
  "mw_text m key value = do { m \<leftarrow> mw_key m key; Some (m\<lparr>mw_w := w_text (mw_w m) value\<rparr>) }"

text \<open>\<open>nested\<close> hands the raw writer to the caller, which continues writing with \<open>f\<close>.\<close>

definition mw_nested :: "map_writer \<Rightarrow> u64 \<Rightarrow> (writer \<Rightarrow> writer option) \<Rightarrow> map_writer option" where
  "mw_nested m key f = do { m \<leftarrow> mw_key m key; w \<leftarrow> f (mw_w m); Some (m\<lparr>mw_w := w\<rparr>) }"

definition mw_end :: "map_writer \<Rightarrow> writer option" where
  "mw_end m = (if mw_remaining m = 0 then Some (mw_w m) else None)"

section \<open>Reader\<close>

record reader =
  rd_buf :: bytes
  rd_pos :: nat
  rd_depth :: nat

definition r_new :: "bytes \<Rightarrow> cbor_error + reader" where
  "r_new buf = (if length buf > MAX_CONTROL_SIZE then Inl SizeExceeded
    else Inr \<lparr>rd_buf = buf, rd_pos = 0, rd_depth = 0\<rparr>)"

definition r_new_unbounded :: "bytes \<Rightarrow> reader" where
  "r_new_unbounded buf = \<lparr>rd_buf = buf, rd_pos = 0, rd_depth = 0\<rparr>"

definition r_finish :: "reader \<Rightarrow> cbor_error + unit" where
  "r_finish r = (if rd_pos r = length (rd_buf r) then Inr () else Inl TrailingBytes)"

definition r_take :: "nat \<Rightarrow> reader \<Rightarrow> cbor_error + bytes \<times> reader" where
  "r_take n r = (if length (rd_buf r) - rd_pos r < n then Inl Truncated
    else Inr (take n (drop (rd_pos r) (rd_buf r)), r\<lparr>rd_pos := rd_pos r + n\<rparr>))"

definition r_head :: "reader \<Rightarrow> cbor_error + (u8 \<times> u64) \<times> reader" where
  "r_head r =
    qm id (r_take 1 r) (\<lambda>(s, r).
     let first = hd s; major = drop_bit 5 first; ai = first AND 0x1f in
     qm id
      (if ai \<le> 23 then Inr (ucast ai :: u64, r)
       else if ai = 24 then
         qm id (r_take 1 r) (\<lambda>(s, r). let v = ucast (hd s) in
           if v < 24 then Inl NonCanonical else Inr (v, r))
       else if ai = 25 then
         qm id (r_take 2 r) (\<lambda>(s, r). let v = ucast (from_be s :: u16) in
           if v \<le> 0xFF then Inl NonCanonical else Inr (v, r))
       else if ai = 26 then
         qm id (r_take 4 r) (\<lambda>(s, r). let v = ucast (from_be s :: u32) in
           if v \<le> 0xFFFF then Inl NonCanonical else Inr (v, r))
       else if ai = 27 then
         qm id (r_take 8 r) (\<lambda>(s, r). let v = from_be s in
           if v \<le> 0xFFFFFFFF then Inl NonCanonical else Inr (v, r))
       else Inl ForbiddenType)
      (\<lambda>(value, r).
       if major = MAJOR_SIMPLE \<and> value \<noteq> ucast SIMPLE_FALSE \<and> value \<noteq> ucast SIMPLE_TRUE
       then Inl ForbiddenType
       else Inr ((major, value), r)))"

definition r_boolean :: "reader \<Rightarrow> cbor_error + bool \<times> reader" where
  "r_boolean r = qm id (r_head r) (\<lambda>((major, value), r).
     if major \<noteq> MAJOR_SIMPLE then Inl UnexpectedType
     else Inr (value = ucast SIMPLE_TRUE, r))"

definition r_peek_major :: "reader \<Rightarrow> cbor_error + u8" where
  "r_peek_major r = (if rd_pos r \<ge> length (rd_buf r) then Inl Truncated
    else Inr (drop_bit 5 (rd_buf r ! rd_pos r)))"

definition r_uint :: "reader \<Rightarrow> cbor_error + u64 \<times> reader" where
  "r_uint r = qm id (r_head r) (\<lambda>((major, value), r).
     if major \<noteq> MAJOR_UINT then Inl UnexpectedType else Inr (value, r))"

definition r_bytes :: "reader \<Rightarrow> cbor_error + bytes \<times> reader" where
  "r_bytes r = qm id (r_head r) (\<lambda>((major, len), r).
     if major \<noteq> MAJOR_BYTES then Inl UnexpectedType else r_take (unat len) r)"

definition r_bytes_exact :: "nat \<Rightarrow> reader \<Rightarrow> cbor_error + bytes \<times> reader" where
  "r_bytes_exact N r = qm id (r_bytes r) (\<lambda>(raw, r).
     if length raw \<noteq> N then Inl InvalidValue else Inr (raw, r))"

definition r_text :: "reader \<Rightarrow> cbor_error + bytes \<times> reader" where
  "r_text r = qm id (r_head r) (\<lambda>((major, len), r).
     if major \<noteq> MAJOR_TEXT then Inl UnexpectedType
     else qm id (r_take (unat len) r) (\<lambda>(raw, r).
       qm id (ok_or InvalidUtf8 (from_utf8 raw)) (\<lambda>s. Inr (s, r))))"

definition r_enter :: "reader \<Rightarrow> cbor_error + reader" where
  "r_enter r = (let r = r\<lparr>rd_depth := rd_depth r + 1\<rparr> in
    if rd_depth r > MAX_DEPTH then Inl DepthExceeded else Inr r)"

definition r_leave :: "reader \<Rightarrow> reader" where
  "r_leave r = r\<lparr>rd_depth := rd_depth r - 1\<rparr>"

definition r_array :: "reader \<Rightarrow> cbor_error + u64 \<times> reader" where
  "r_array r = qm id (r_head r) (\<lambda>((major, len), r).
     if major \<noteq> MAJOR_ARRAY then Inl UnexpectedType
     else qm id (r_enter r) (\<lambda>r. Inr (len, r)))"

section \<open>MapReader\<close>

record map_reader =
  mr_reader :: reader
  mr_remaining :: u64
  mr_last_key :: "u64 option"

definition r_map :: "reader \<Rightarrow> cbor_error + map_reader" where
  "r_map r = qm id (r_head r) (\<lambda>((major, len), r).
     if major \<noteq> MAJOR_MAP then Inl UnexpectedType
     else qm id (r_enter r) (\<lambda>r.
       Inr \<lparr>mr_reader = r, mr_remaining = len, mr_last_key = None\<rparr>))"

definition mr_next_key :: "map_reader \<Rightarrow> cbor_error + u64 option \<times> map_reader" where
  "mr_next_key m =
    (if mr_remaining m = 0 then Inr (None, m\<lparr>mr_reader := r_leave (mr_reader m)\<rparr>)
     else
       let m = m\<lparr>mr_remaining := mr_remaining m - 1\<rparr> in
       qm id (r_uint (mr_reader m)) (\<lambda>(key, r).
         if (case mr_last_key m of Some lk \<Rightarrow> key \<le> lk | None \<Rightarrow> False) then Inl KeyOrder
         else Inr (Some key, m\<lparr>mr_reader := r, mr_last_key := Some key\<rparr>)))"

definition mr_expect_key :: "u64 \<Rightarrow> map_reader \<Rightarrow> cbor_error + map_reader" where
  "mr_expect_key key m = qm id (mr_next_key m) (\<lambda>(k, m).
     if k = Some key then Inr m else Inl (MissingField key))"

text \<open>\<open>m.reader.read()\<close>: a read through the reader a map reader borrows.\<close>

definition mr_on :: "(reader \<Rightarrow> 'e + 'a \<times> reader) \<Rightarrow> map_reader \<Rightarrow> 'e + 'a \<times> map_reader" where
  "mr_on p m = qm id (p (mr_reader m)) (\<lambda>(v, r). Inr (v, m\<lparr>mr_reader := r\<rparr>))"

text \<open>\<open>for _ in 0..n { xs.push(read()?) }\<close>.\<close>

fun read_n :: "(reader \<Rightarrow> 'e + 'a \<times> reader) \<Rightarrow> nat \<Rightarrow> reader \<Rightarrow> 'e + 'a list \<times> reader" where
  "read_n p 0 r = Inr ([], r)"
| "read_n p (Suc n) r =
    qm id (p r) (\<lambda>(x, r). qm id (read_n p n r) (\<lambda>(xs, r). Inr (x # xs, r)))"

section \<open>Canonical readers\<close>

definition rdr :: "bytes \<Rightarrow> bytes \<Rightarrow> nat \<Rightarrow> reader" where
  "rdr pre rest d = \<lparr>rd_buf = pre @ rest, rd_pos = length pre, rd_depth = d\<rparr>"

definition mrdr :: "bytes \<Rightarrow> bytes \<Rightarrow> nat \<Rightarrow> u64 \<Rightarrow> u64 option \<Rightarrow> map_reader" where
  "mrdr pre rest d n lk = \<lparr>mr_reader = rdr pre rest d, mr_remaining = n, mr_last_key = lk\<rparr>"

text \<open>The bytes each writer operation appends.\<close>

definition hdr :: "u8 \<Rightarrow> u64 \<Rightarrow> bytes" where
  "hdr major value = w_header [] major value"

definition enc_uint :: "u64 \<Rightarrow> bytes" where
  "enc_uint v = hdr MAJOR_UINT v"

definition enc_bytes :: "bytes \<Rightarrow> bytes" where
  "enc_bytes v = hdr MAJOR_BYTES (of_nat (length v)) @ v"

definition enc_text :: "bytes \<Rightarrow> bytes" where
  "enc_text v = hdr MAJOR_TEXT (of_nat (length v)) @ v"

definition enc_bool :: "bool \<Rightarrow> bytes" where
  "enc_bool v = [push_bit 5 MAJOR_SIMPLE OR (if v then SIMPLE_TRUE else SIMPLE_FALSE)]"

definition enc_array :: "u64 \<Rightarrow> bytes" where
  "enc_array n = hdr MAJOR_ARRAY n"

definition enc_map :: "u64 \<Rightarrow> bytes" where
  "enc_map n = hdr MAJOR_MAP n"

lemma w_header_app: "w_header w m v = w @ hdr m v"
  by (simp add: w_header_def hdr_def Let_def)

lemma w_simps [simp]:
  "w_uint w v = w @ enc_uint v" "w_bytes w bs = w @ enc_bytes bs" "w_text w bs = w @ enc_text bs"
  "w_boolean w b = w @ enc_bool b" "w_array w n = w @ enc_array n" "w_map w n = w @ enc_map n"
  by (simp_all add: w_uint_def w_bytes_def w_text_def w_boolean_def w_array_def w_map_def
      enc_uint_def enc_bytes_def enc_text_def enc_bool_def enc_array_def enc_map_def w_header_app)

lemma r_new_eq: "r_new bs = (if length bs > MAX_CONTROL_SIZE then Inl SizeExceeded else Inr (rdr [] bs 0))"
  by (simp add: r_new_def rdr_def)

lemma r_new_unbounded_eq: "r_new_unbounded bs = rdr [] bs 0"
  by (simp add: r_new_unbounded_def rdr_def)

lemma r_new_iff [cbor_iff]: "r_new bs = Inr r \<longleftrightarrow> length bs \<le> MAX_CONTROL_SIZE \<and> r = rdr [] bs 0"
  by (auto simp: r_new_eq)

lemma r_finish_iff [cbor_iff]: "r_finish (rdr pre rest d) = Inr u \<longleftrightarrow> rest = []"
  by (simp add: r_finish_def rdr_def)

lemma r_take_iff [cbor_iff]: "r_take n (rdr pre bs d) = Inr (s, r') \<longleftrightarrow>
    length s = n \<and> (\<exists>rest. bs = s @ rest \<and> r' = rdr (pre @ s) rest d)"
proof -
  have "\<exists>rest. bs = take n bs @ rest \<and> rdr pre bs d\<lparr>rd_pos := length pre + n\<rparr> = rdr (pre @ take n bs) rest d"
    if "n \<le> length bs"
    using that by (intro exI [of _ "drop n bs"]) (simp add: rdr_def)
  then show ?thesis
    by (auto simp: r_take_def rdr_def)
qed

lemma byte_split:
  fixes b m a :: u8
  assumes "m < 8" and "a < 32"
  shows "b = push_bit 5 m OR a \<longleftrightarrow> drop_bit 5 b = m \<and> b AND 31 = a"
proof -
  have a: "take_bit 5 a = a" "drop_bit 5 a = 0"
    using assms(2) by (simp_all add: take_bit_eq_mod drop_bit_eq_div word_unat_eq_iff unat_mod
        unat_div word_less_nat_alt)
  have m: "take_bit 3 m = m"
    using assms(1) by (simp add: take_bit_eq_mod word_unat_eq_iff unat_mod word_less_nat_alt)
  have mask: "b AND 31 = take_bit 5 b" for b :: u8
    by (simp add: take_bit_eq_mask mask_eq_exp_minus_1)
  have "drop_bit 5 (push_bit 5 m) = take_bit 3 m"
    by (rule bit_eqI) (auto simp: bit_simps)
  then have "drop_bit 5 (push_bit 5 m OR a) = m"
    using m a(2) by simp
  moreover have "take_bit 5 (push_bit 5 m OR a) = a"
    using a(1) by (simp add: take_bit_push_bit)
  moreover have "b = push_bit 5 (drop_bit 5 b) OR take_bit 5 b"
    by (rule bit_eqI) (auto simp: bit_simps)
  ultimately show ?thesis
    unfolding mask by metis
qed


lemma hdr_simps:
  "value < 24 \<Longrightarrow> hdr major value = [push_bit 5 major OR ucast value]"
  "24 \<le> value \<Longrightarrow> value \<le> 0xFF \<Longrightarrow> hdr major value = [push_bit 5 major OR 24, ucast value]"
  "0xFF < value \<Longrightarrow> value \<le> 0xFFFF \<Longrightarrow> hdr major value = (push_bit 5 major OR 25) # to_be (ucast value :: u16)"
  "0xFFFF < value \<Longrightarrow> value \<le> 0xFFFFFFFF \<Longrightarrow> hdr major value = (push_bit 5 major OR 26) # to_be (ucast value :: u32)"
  "0xFFFFFFFF < value \<Longrightarrow> hdr major value = (push_bit 5 major OR 27) # to_be value"
  by (auto simp: hdr_def w_header_def Let_def word_le_nat_alt word_less_nat_alt)

lemma hdr_nonempty [simp]: "hdr m v \<noteq> []"
  by (simp add: hdr_def w_header_def Let_def)

lemma ucast_ucast_u64:
  fixes v :: u64
  shows "v \<le> 0xFF \<Longrightarrow> ucast (ucast v :: u8) = v"
    and "v \<le> 0xFFFF \<Longrightarrow> ucast (ucast v :: u16) = v"
    and "v \<le> 0xFFFFFFFF \<Longrightarrow> ucast (ucast v :: u32) = v"
  by (simp_all add: word_unat_eq_iff unsigned_ucast_eq take_bit_eq_mod word_le_nat_alt
      unat_mod)

lemma ucast_up_u64:
  "ucast (ucast (a :: u8) :: u64) = a" "ucast (ucast (b :: u16) :: u64) = b"
  "ucast (ucast (c :: u32) :: u64) = c"
  by (rule bit_eqI, simp add: bit_simps)+

lemma ucast_up_le:
  "(ucast (a :: u8) :: u64) \<le> 0xFF" "(ucast (b :: u16) :: u64) \<le> 0xFFFF"
  "(ucast (c :: u32) :: u64) \<le> 0xFFFFFFFF"
  using unat_less_pow [of a] unat_less_pow [of b] unat_less_pow [of c]
  by (simp_all add: word_le_nat_alt unsigned_ucast_eq take_bit_eq_mod)

lemma byte_join:
  fixes m a :: u8
  assumes "m < 8" and "a < 32"
  shows "drop_bit 5 (push_bit 5 m OR a) = m" and "(push_bit 5 m OR a) AND 31 = a"
  using byte_split [OF assms, of "push_bit 5 m OR a"] by simp_all

lemma drop_bit_5_less: "drop_bit 5 (b :: u8) < 8"
  using unat_byte_less [of b] by (simp add: word_less_nat_alt drop_bit_eq_div unat_div)

lemma r_take_app: "length s = n \<Longrightarrow> r_take n (rdr pre (s @ rest) d) = Inr (s, rdr (pre @ s) rest d)"
  by (simp add: r_take_iff)

lemma r_take_Suc_0: "r_take (Suc 0) (rdr pre (b # rest) d) = Inr ([b], rdr (pre @ [b]) rest d)"
  using r_take_app [of "[b]" 1] by simp

lemma u64_size_cases:
  fixes v :: u64
  obtains "v < 24" | "24 \<le> v" "v \<le> 0xFF" | "0xFF < v" "v \<le> 0xFFFF"
  | "0xFFFF < v" "v \<le> 0xFFFFFFFF" | "0xFFFFFFFF < v"
  by fastforce

lemma r_head_complete:
  assumes "m < 8" and "m = 7 \<longrightarrow> v = 20 \<or> v = 21"
  shows "r_head (rdr pre (hdr m v @ rest) d) = Inr ((m, v), rdr (pre @ hdr m v) rest d)"
proof (cases v rule: u64_size_cases)
  case 1
  then have "v \<le> 0xFF"
    by (simp add: word_le_nat_alt word_less_nat_alt)
  then have v: "ucast (ucast v :: u8) = v"
    by (rule ucast_ucast_u64)
  moreover have "(ucast v :: u8) \<le> 23"
    using 1 by (simp add: word_le_nat_alt word_less_nat_alt unsigned_ucast_eq take_bit_eq_mod unat_mod)
  moreover from this have "(ucast v :: u8) < 32"
    by (simp add: word_le_nat_alt word_less_nat_alt)
  ultimately show ?thesis
    using assms 1 by (simp add: r_head_def hdr_simps r_take_Suc_0 Let_def byte_join major_defs
        del: drop_bit_or)
next
  case 2
  with assms show ?thesis
    by (auto simp add: r_head_def hdr_simps r_take_Suc_0 Let_def byte_join major_defs ucast_ucast_u64
        not_less simp del: drop_bit_or)
next
  case 3
  with assms show ?thesis
    by (auto simp add: r_head_def hdr_simps r_take_Suc_0 r_take_app Let_def byte_join major_defs
        ucast_ucast_u64 simp del: drop_bit_or)
next
  case 4
  with assms show ?thesis
    by (auto simp add: r_head_def hdr_simps r_take_Suc_0 r_take_app Let_def byte_join major_defs
        ucast_ucast_u64 simp del: drop_bit_or)
next
  case 5
  with assms show ?thesis
    by (auto simp add: r_head_def hdr_simps r_take_Suc_0 r_take_app Let_def byte_join major_defs
        ucast_ucast_u64 simp del: drop_bit_or)
qed

lemma take1_iff: "length s = Suc 0 \<longleftrightarrow> (\<exists>b. s = [b])"
  by (simp add: length_Suc_conv)

lemma r_head_first:
  assumes "r_head (rdr pre bs d) = Inr ((m, v), r')"
  obtains ai r2 where "bs = (push_bit 5 m OR ai) # r2" "m < 8" "ai < 32"
    "m = 7 \<longrightarrow> v = 20 \<or> v = 21"
    "r_head (rdr pre ((push_bit 5 m OR ai) # r2) d) = Inr ((m, v), r')"
proof -
  from assms obtain b r2 where bs: "bs = b # r2"
    by (auto simp: r_head_def res_iff cbor_iff take1_iff)
  from assms have m: "m = drop_bit 5 b" "m = 7 \<longrightarrow> v = 20 \<or> v = 21"
    by (auto simp: bs r_head_def res_iff Let_def r_take_Suc_0 major_defs)
  have "b AND 31 = b mod 32"
    by (simp add: take_bit_eq_mask mask_eq_exp_minus_1 flip: take_bit_eq_mod [of 5, simplified])
  then have "m < 8" "b AND 31 < 32"
    by (simp add: m drop_bit_5_less, simp add: word_less_nat_alt unat_mod)
  with byte_split [of m "b AND 31" b] m assms bs show thesis
    by (intro that [of "b AND 31" r2]) simp_all
qed

lemma r_head_sound:
  assumes "r_head (rdr pre bs d) = Inr ((m, v), r')"
  shows "m < 8 \<and> (m = 7 \<longrightarrow> v = 20 \<or> v = 21) \<and>
    (\<exists>rest. bs = hdr m v @ rest \<and> r' = rdr (pre @ hdr m v) rest d)"
proof -
  from assms obtain ai r2 where bs: "bs = (push_bit 5 m OR ai) # r2" and m: "m < 8" "ai < 32"
    and s: "m = 7 \<longrightarrow> v = 20 \<or> v = 21"
    and h: "r_head (rdr pre ((push_bit 5 m OR ai) # r2) d) = Inr ((m, v), r')"
    by (rule r_head_first) blast
  note h = h [unfolded r_head_def, simplified, simplified r_take_Suc_0 Let_def qm_Inr split
      list.sel byte_join [OF m]]
  consider "ai \<le> 23" | "ai = 24" | "ai = 25" | "ai = 26" | "ai = 27" | "ai > 27"
    unfolding word_le_nat_alt word_less_nat_alt word_unat_eq_iff [of ai]
    by (simp, arith)
  then have "\<exists>rest. bs = hdr m v @ rest \<and> r' = rdr (pre @ hdr m v) rest d"
  proof cases
    case 1
    with h have "v = ucast ai" "r' = rdr (pre @ [push_bit 5 m OR ai]) r2 d"
      by (auto simp: res_iff)
    moreover have "(ucast ai :: u64) < 24"
      using 1 by (simp add: word_le_nat_alt word_less_nat_alt unsigned_ucast_eq take_bit_eq_mod)
    ultimately show ?thesis
      by (simp add: hdr_simps ucast_up_u64 bs)
  next
    case 2
    with h show ?thesis
      by (auto simp: res_iff cbor_iff take1_iff hdr_simps ucast_up_u64 ucast_up_le bs
          major_defs)
  next
    case 3
    with h show ?thesis
      by (auto simp: res_iff cbor_iff hdr_simps ucast_up_u64 ucast_up_le to_from_be_simps bs
          major_defs)
  next
    case 4
    with h show ?thesis
      by (auto simp: res_iff cbor_iff hdr_simps ucast_up_u64 ucast_up_le to_from_be_simps bs
          major_defs)
  next
    case 5
    with h show ?thesis
      by (auto simp: res_iff cbor_iff hdr_simps ucast_up_u64 ucast_up_le to_from_be_simps bs
          major_defs)
  next
    case 6
    then have "\<not> ai \<le> 23"
      by (simp add: word_le_nat_alt word_less_nat_alt)
    with 6 h show ?thesis
      by (auto simp: res_iff split: if_splits)
  qed
  with m s show ?thesis by blast
qed

lemma r_head_iff: "r_head (rdr pre bs d) = Inr ((m, v), r') \<longleftrightarrow>
    m < 8 \<and> (m = 7 \<longrightarrow> v = 20 \<or> v = 21) \<and>
    (\<exists>rest. bs = hdr m v @ rest \<and> r' = rdr (pre @ hdr m v) rest d)"
  using r_head_sound r_head_complete by blast

lemma r_head_majors:
  "m \<in> {MAJOR_UINT, MAJOR_BYTES, MAJOR_TEXT, MAJOR_ARRAY, MAJOR_MAP} \<Longrightarrow>
    r_head (rdr pre bs d) = Inr ((m, v), r') \<longleftrightarrow>
    (\<exists>rest. bs = hdr m v @ rest \<and> r' = rdr (pre @ hdr m v) rest d)"
  by (auto simp: r_head_iff major_defs)

lemma r_uint_iff [cbor_iff]: "r_uint (rdr pre bs d) = Inr (v, r') \<longleftrightarrow>
    (\<exists>rest. bs = enc_uint v @ rest \<and> r' = rdr (pre @ enc_uint v) rest d)"
  by (auto simp: r_uint_def r_head_majors res_iff enc_uint_def)

lemma r_bytes_iff [cbor_iff]: "r_bytes (rdr pre bs d) = Inr (v, r') \<longleftrightarrow>
    length v < 2 ^ 64 \<and> (\<exists>rest. bs = enc_bytes v @ rest \<and> r' = rdr (pre @ enc_bytes v) rest d)"
  by (auto simp: r_bytes_def r_head_majors res_iff r_take_iff enc_bytes_def unat_u64_less
      intro!: exI [of _ "of_nat (length v)"])

lemma r_bytes_exact_iff [cbor_iff]: "r_bytes_exact N (rdr pre bs d) = Inr (v, r') \<longleftrightarrow>
    length v = N \<and> length v < 2 ^ 64 \<and>
    (\<exists>rest. bs = enc_bytes v @ rest \<and> r' = rdr (pre @ enc_bytes v) rest d)"
  by (auto simp: r_bytes_exact_def res_iff r_bytes_iff)

lemma from_utf8_eq [simp]: "from_utf8 s = Some t \<longleftrightarrow> utf8_valid s \<and> t = s"
  by (auto simp: from_utf8_def)

lemma r_text_iff [cbor_iff]: "r_text (rdr pre bs d) = Inr (v, r') \<longleftrightarrow>
    length v < 2 ^ 64 \<and> utf8_valid v \<and>
    (\<exists>rest. bs = enc_text v @ rest \<and> r' = rdr (pre @ enc_text v) rest d)"
  by (auto simp: r_text_def r_head_majors res_iff r_take_iff enc_text_def unat_u64_less
      intro!: exI [of _ "of_nat (length v)"])

lemma enc_bool_eq: "enc_bool b = hdr MAJOR_SIMPLE (if b then 21 else 20)"
  by (simp add: enc_bool_def hdr_simps major_defs)

lemma r_boolean_iff [cbor_iff]: "r_boolean (rdr pre bs d) = Inr (v, r') \<longleftrightarrow>
    (\<exists>rest. bs = enc_bool v @ rest \<and> r' = rdr (pre @ enc_bool v) rest d)"
proof
  assume "r_boolean (rdr pre bs d) = Inr (v, r')"
  then show "\<exists>rest. bs = enc_bool v @ rest \<and> r' = rdr (pre @ enc_bool v) rest d"
    by (auto simp: r_boolean_def res_iff r_head_iff enc_bool_eq major_defs)
next
  assume "\<exists>rest. bs = enc_bool v @ rest \<and> r' = rdr (pre @ enc_bool v) rest d"
  then show "r_boolean (rdr pre bs d) = Inr (v, r')"
    by (auto simp: r_boolean_def enc_bool_eq r_head_complete major_defs)
qed

lemma r_enter_iff [cbor_iff]: "r_enter (rdr pre bs d) = Inr r' \<longleftrightarrow>
    d < MAX_DEPTH \<and> r' = rdr pre bs (Suc d)"
  by (auto simp: r_enter_def rdr_def)

lemma r_leave_rdr [simp]: "r_leave (rdr pre bs (Suc d)) = rdr pre bs d"
  by (simp add: r_leave_def rdr_def)

lemma r_array_iff [cbor_iff]: "r_array (rdr pre bs d) = Inr (n, r') \<longleftrightarrow>
    d < MAX_DEPTH \<and> (\<exists>rest. bs = enc_array n @ rest \<and> r' = rdr (pre @ enc_array n) rest (Suc d))"
  by (auto simp: r_array_def r_head_majors res_iff r_enter_iff enc_array_def)

lemma r_map_iff [cbor_iff]: "r_map (rdr pre bs d) = Inr m' \<longleftrightarrow>
    d < MAX_DEPTH \<and>
    (\<exists>n rest. bs = enc_map n @ rest \<and> m' = mrdr (pre @ enc_map n) rest (Suc d) n None)"
  by (auto simp: r_map_def mrdr_def r_head_majors res_iff r_enter_iff enc_map_def)

lemma mrdr_simps [simp]:
  "mr_reader (mrdr pre rest d n lk) = rdr pre rest d"
  "mr_remaining (mrdr pre rest d n lk) = n" "mr_last_key (mrdr pre rest d n lk) = lk"
  "(mrdr pre rest d n lk)\<lparr>mr_reader := rdr pre' rest' d'\<rparr> = mrdr pre' rest' d' n lk"
  by (simp_all add: mrdr_def)

lemma next_key_Some_iff [cbor_iff]: "mr_next_key (mrdr pre bs d n lk) = Inr (Some k, m') \<longleftrightarrow>
    n \<noteq> 0 \<and> (\<forall>l. lk = Some l \<longrightarrow> l < k) \<and>
    (\<exists>rest. bs = enc_uint k @ rest \<and> m' = mrdr (pre @ enc_uint k) rest d (n - 1) (Some k))"
  by (auto simp: mr_next_key_def mrdr_def res_iff r_uint_iff Let_def split: option.splits)

lemma next_key_None_iff [cbor_iff]: "mr_next_key (mrdr pre bs (Suc d) n lk) = Inr (None, m') \<longleftrightarrow>
    n = 0 \<and> m' = mrdr pre bs d 0 lk"
  by (auto simp: mr_next_key_def mrdr_def res_iff r_uint_iff Let_def split: option.splits)

lemma expect_key_iff [cbor_iff]: "mr_expect_key k (mrdr pre bs d n lk) = Inr m' \<longleftrightarrow>
    n \<noteq> 0 \<and> (\<forall>l. lk = Some l \<longrightarrow> l < k) \<and>
    (\<exists>rest. bs = enc_uint k @ rest \<and> m' = mrdr (pre @ enc_uint k) rest d (n - 1) (Some k))"
  by (auto simp: mr_expect_key_def res_iff next_key_Some_iff)

lemma mr_on_iff [res_iff]: "mr_on p m = Inr (v, m') \<longleftrightarrow>
    (\<exists>r'. p (mr_reader m) = Inr (v, r') \<and> m' = m\<lparr>mr_reader := r'\<rparr>)"
  by (auto simp: mr_on_def res_iff)

section \<open>Every valid reader is canonical\<close>

definition rd_ok :: "reader \<Rightarrow> bool" where
  "rd_ok r \<longleftrightarrow> rd_pos r \<le> length (rd_buf r)"

lemma rd_ok_iff: "rd_ok r \<longleftrightarrow> (\<exists>pre rest d. r = rdr pre rest d)"
proof
  assume "rd_ok r"
  then have "r = rdr (take (rd_pos r) (rd_buf r)) (drop (rd_pos r) (rd_buf r)) (rd_depth r)"
    by (simp add: rdr_def rd_ok_def)
  then show "\<exists>pre rest d. r = rdr pre rest d" by blast
qed (auto simp: rd_ok_def rdr_def)

lemma rd_ok_rdr [simp]: "rd_ok (rdr pre rest d)"
  by (auto simp: rd_ok_iff)

lemma rdr_eq_iff [simp]: "rdr pre rest d = rdr pre' rest' d' \<longleftrightarrow> pre = pre' \<and> rest = rest' \<and> d = d'"
  by (auto simp: rdr_def append_eq_append_conv)

lemma mrdr_eq_iff [simp]: "mrdr pre rest d n lk = mrdr pre' rest' d' n' lk' \<longleftrightarrow>
    pre = pre' \<and> rest = rest' \<and> d = d' \<and> n = n' \<and> lk = lk'"
  by (auto simp: mrdr_def)

section \<open>Encodings are prefix free\<close>

lemma enc_uint_app [simp]: "enc_uint v @ a = enc_uint v' @ b \<longleftrightarrow> v = v' \<and> a = b"
proof
  assume eq: "enc_uint v @ a = enc_uint v' @ b"
  have "r_uint (rdr [] (enc_uint v @ a) 0) = Inr (v, rdr (enc_uint v) a 0)"
    by (simp add: r_uint_iff)
  moreover have "r_uint (rdr [] (enc_uint v @ a) 0) = Inr (v', rdr (enc_uint v') b 0)"
    by (simp add: eq r_uint_iff)
  ultimately show "v = v' \<and> a = b" by simp
qed simp

lemma enc_map_app [simp]: "enc_map n @ a = enc_map n' @ b \<longleftrightarrow> n = n' \<and> a = b"
proof
  assume eq: "enc_map n @ a = enc_map n' @ b"
  have "r_map (rdr [] (enc_map n @ a) 0) = Inr (mrdr (enc_map n) a 1 n None)"
    by (auto simp: r_map_iff MAX_DEPTH_def)
  moreover have "r_map (rdr [] (enc_map n @ a) 0) = Inr (mrdr (enc_map n') b 1 n' None)"
    unfolding eq by (auto simp: r_map_iff MAX_DEPTH_def)
  ultimately show "n = n' \<and> a = b" by simp
qed simp

lemma enc_array_app [simp]: "enc_array n @ a = enc_array n' @ b \<longleftrightarrow> n = n' \<and> a = b"
proof
  assume eq: "enc_array n @ a = enc_array n' @ b"
  have "r_array (rdr [] (enc_array n @ a) 0) = Inr (n, rdr (enc_array n) a 1)"
    by (auto simp: r_array_iff MAX_DEPTH_def)
  moreover have "r_array (rdr [] (enc_array n @ a) 0) = Inr (n', rdr (enc_array n') b 1)"
    unfolding eq by (auto simp: r_array_iff MAX_DEPTH_def)
  ultimately show "n = n' \<and> a = b" by simp
qed simp

lemma enc_bytes_app:
  assumes "length v < 2 ^ 64" and "length v' < 2 ^ 64"
  shows "enc_bytes v @ a = enc_bytes v' @ b \<longleftrightarrow> v = v' \<and> a = b"
proof
  assume eq: "enc_bytes v @ a = enc_bytes v' @ b"
  have "r_bytes (rdr [] (enc_bytes v @ a) 0) = Inr (v, rdr (enc_bytes v) a 0)"
    using assms by (simp add: r_bytes_iff)
  moreover have "r_bytes (rdr [] (enc_bytes v @ a) 0) = Inr (v', rdr (enc_bytes v') b 0)"
    using assms by (simp add: eq r_bytes_iff)
  ultimately show "v = v' \<and> a = b" by simp
qed simp

lemma enc_nonempty [simp]:
  "enc_uint v \<noteq> []" "enc_bytes b \<noteq> []" "enc_text b \<noteq> []" "enc_bool c \<noteq> []"
  "enc_array n \<noteq> []" "enc_map n \<noteq> []"
  by (simp_all add: enc_uint_def enc_bytes_def enc_text_def enc_bool_def enc_array_def enc_map_def)

lemma length_enc_bytes: "length b < length (enc_bytes b)"
  by (simp add: enc_bytes_def)

lemma length_hdr: "length (hdr m v) \<le> 9"
  by (simp add: hdr_def w_header_def Let_def)

lemma length_enc:
  "length (enc_uint v) \<le> 9" "length (enc_map v) \<le> 9" "length (enc_array v) \<le> 9"
  "length (enc_bytes b) \<le> 9 + length b" "length (enc_text b) \<le> 9 + length b" "length (enc_bool c) = 1"
  by (simp_all add: enc_uint_def enc_map_def enc_array_def enc_bytes_def enc_text_def enc_bool_def
      length_hdr)

section \<open>The map writer on canonical calls\<close>

lemma mw_begin_eq [simp]: "mw_begin w n = \<lparr>mw_w = w @ enc_map n, mw_remaining = n, mw_last_key = None\<rparr>"
  by (simp add: mw_begin_def)

lemma mw_key_eq: "n \<noteq> 0 \<Longrightarrow> (\<forall>l. lk = Some l \<longrightarrow> l < k) \<Longrightarrow>
    mw_key \<lparr>mw_w = w, mw_remaining = n, mw_last_key = lk\<rparr> k =
    Some \<lparr>mw_w = w @ enc_uint k, mw_remaining = n - 1, mw_last_key = Some k\<rparr>"
  by (auto simp: mw_key_def word_greater_zero_iff split: option.splits)

lemmas mw_simps = mw_uint_def mw_bytes_def mw_boolean_def mw_text_def mw_nested_def mw_end_def
  mw_key_eq

section \<open>Codecs and arrays of them\<close>

lemma read_n_Suc_iff: "read_n p (Suc n) r = Inr (ys, r') \<longleftrightarrow>
    (\<exists>x xs r1. ys = x # xs \<and> p r = Inr (x, r1) \<and> read_n p n r1 = Inr (xs, r'))"
  by (auto simp: res_iff)

text \<open>
  \<open>enc\<close> and \<open>dec\<close> form a codec for the values satisfying \<open>ok\<close>, needing \<open>nest\<close> levels of depth,
  when \<open>dec\<close> accepts exactly the encodings of those values.
\<close>

locale codec =
  fixes enc :: "'a \<Rightarrow> bytes"
    and dec :: "reader \<Rightarrow> 'e + 'a \<times> reader"
    and ok :: "'a \<Rightarrow> bool"
    and nest :: nat
  assumes dec_iff: "d + nest \<le> MAX_DEPTH \<Longrightarrow>
    dec (rdr pre bs d) = Inr (x, r') \<longleftrightarrow>
    ok x \<and> (\<exists>rest. bs = enc x @ rest \<and> r' = rdr (pre @ enc x) rest d)"
    and nest_bound: "nest \<le> MAX_DEPTH"
begin

lemma read_n_iff:
  assumes "d + nest \<le> MAX_DEPTH"
  shows "read_n dec n (rdr pre bs d) = Inr (xs, r') \<longleftrightarrow>
    length xs = n \<and> list_all ok xs \<and>
    (\<exists>rest. bs = concat (map enc xs) @ rest \<and> r' = rdr (pre @ concat (map enc xs)) rest d)"
proof (induction n arbitrary: pre bs xs)
  case 0
  then show ?case by auto
next
  case (Suc n)
  show ?case
    using Suc.IH unfolding read_n_Suc_iff by (cases xs) (auto simp: dec_iff [OF assms])
qed

lemma read_n_fwd:
  "d + nest \<le> MAX_DEPTH \<Longrightarrow> list_all ok xs \<Longrightarrow> length xs = n \<Longrightarrow>
    read_n dec n (rdr pre (concat (map enc xs) @ rest) d) = Inr (xs, rdr (pre @ concat (map enc xs)) rest d)"
  by (simp add: read_n_iff)

lemma dec_fwd:
  "d + nest \<le> MAX_DEPTH \<Longrightarrow> ok x \<Longrightarrow> dec (rdr pre (enc x @ rest) d) = Inr (x, rdr (pre @ enc x) rest d)"
  by (simp add: dec_iff)

lemma enc_app: "ok x \<Longrightarrow> ok y \<Longrightarrow> enc x @ a = enc y @ b \<longleftrightarrow> x = y \<and> a = b"
proof
  assume ok: "ok x" "ok y" and eq: "enc x @ a = enc y @ b"
  have "dec (rdr [] (enc x @ a) 0) = Inr (x, rdr (enc x) a 0)"
    using ok nest_bound by (simp add: dec_iff)
  moreover have "dec (rdr [] (enc x @ a) 0) = Inr (y, rdr (enc y) b 0)"
    unfolding eq using ok nest_bound by (simp add: dec_iff)
  ultimately show "x = y \<and> a = b" by simp
qed simp

lemma enc_inj: "inj_on enc {x. ok x}"
  using enc_app [where a = "[]" and b = "[]"] by (auto intro!: inj_onI)

lemma concat_enc_inj:
  "list_all ok xs \<Longrightarrow> list_all ok ys \<Longrightarrow> length xs = length ys \<Longrightarrow>
    concat (map enc xs) @ a = concat (map enc ys) @ b \<longleftrightarrow> xs = ys \<and> a = b"
proof (induction xs arbitrary: ys)
  case Nil
  then show ?case by auto
next
  case (Cons x xs)
  then show ?case by (cases ys) (auto simp: enc_app)
qed

end

interpretation uint_codec: codec enc_uint r_uint "\<lambda>_. True" 0
  by unfold_locales (auto simp: r_uint_iff)

interpretation bytes_codec: codec enc_bytes r_bytes "\<lambda>b. length b < 2 ^ 64" 0
  by unfold_locales (auto simp: r_bytes_iff)

interpretation text_codec: codec enc_text r_text "\<lambda>b. length b < 2 ^ 64 \<and> utf8_valid b" 0
  by unfold_locales (auto simp: r_text_iff)

section \<open>Fields of a map\<close>

text \<open>\<open>m.expect_key(k)?; let v = m.reader.read()?\<close>, the way every message is read; \<open>conv\<close> is
  the conversion of the CBOR error at the two question marks.\<close>

definition mr_field :: "(cbor_error \<Rightarrow> 'e) \<Rightarrow> u64 \<Rightarrow> (reader \<Rightarrow> cbor_error + 'a \<times> reader) \<Rightarrow>
    map_reader \<Rightarrow> 'e + 'a \<times> map_reader" where
  "mr_field conv k p m = qm conv (mr_expect_key k m) (\<lambda>m. qm conv (mr_on p m) Inr)"

lemma mr_field_iff [res_iff]: "mr_field conv k p m = Inr (v, m') \<longleftrightarrow>
    (\<exists>m1. mr_expect_key k m = Inr m1 \<and> mr_on p m1 = Inr (v, m'))"
  by (auto simp: mr_field_def res_iff)

lemma diff_one_chain [simp]: "(n :: u64) - 1 - 1 = n - 2" "n - numeral k - 1 = n - (numeral k + 1)"
  by (simp_all add: algebra_simps)

text \<open>\<open>if m.next_key()?.is_some() { return Err(e) }\<close> at the end of a message.\<close>

definition mr_no_more :: "(cbor_error \<Rightarrow> 'e) \<Rightarrow> 'e \<Rightarrow> map_reader \<Rightarrow> 'e + map_reader" where
  "mr_no_more conv e m = qm conv (mr_next_key m) (\<lambda>(k, m). if k \<noteq> None then Inl e else Inr m)"

lemma mr_no_more_iff [res_iff]: "mr_no_more conv e m = Inr m' \<longleftrightarrow> mr_next_key m = Inr (None, m')"
  by (auto simp: mr_no_more_def res_iff)

section \<open>Reading back what was written\<close>

text \<open>The same facts as rewrite rules on readers that have an encoding ahead.\<close>

named_theorems cbor_fwd "reads on a reader with an encoding ahead"

lemma r_fwd [cbor_fwd]:
  "r_uint (rdr pre (enc_uint v @ rest) d) = Inr (v, rdr (pre @ enc_uint v) rest d)"
  "length b < 2 ^ 64 \<Longrightarrow> r_bytes (rdr pre (enc_bytes b @ rest) d) = Inr (b, rdr (pre @ enc_bytes b) rest d)"
  "length b = N \<Longrightarrow> N < 2 ^ 64 \<Longrightarrow>
    r_bytes_exact N (rdr pre (enc_bytes b @ rest) d) = Inr (b, rdr (pre @ enc_bytes b) rest d)"
  "length b < 2 ^ 64 \<Longrightarrow> utf8_valid b \<Longrightarrow>
    r_text (rdr pre (enc_text b @ rest) d) = Inr (b, rdr (pre @ enc_text b) rest d)"
  "r_boolean (rdr pre (enc_bool c @ rest) d) = Inr (c, rdr (pre @ enc_bool c) rest d)"
  "d < MAX_DEPTH \<Longrightarrow>
    r_array (rdr pre (enc_array n @ rest) d) = Inr (n, rdr (pre @ enc_array n) rest (Suc d))"
  "d < MAX_DEPTH \<Longrightarrow>
    r_map (rdr pre (enc_map n @ rest) d) = Inr (mrdr (pre @ enc_map n) rest (Suc d) n None)"
  "r_finish (rdr pre [] d) = Inr ()"
  by (simp_all add: cbor_iff)

lemma r_fwd_end [cbor_fwd]:
  "r_uint (rdr pre (enc_uint v) d) = Inr (v, rdr (pre @ enc_uint v) [] d)"
  "length b < 2 ^ 64 \<Longrightarrow> r_bytes (rdr pre (enc_bytes b) d) = Inr (b, rdr (pre @ enc_bytes b) [] d)"
  "length b = N \<Longrightarrow> N < 2 ^ 64 \<Longrightarrow>
    r_bytes_exact N (rdr pre (enc_bytes b) d) = Inr (b, rdr (pre @ enc_bytes b) [] d)"
  "length b < 2 ^ 64 \<Longrightarrow> utf8_valid b \<Longrightarrow>
    r_text (rdr pre (enc_text b) d) = Inr (b, rdr (pre @ enc_text b) [] d)"
  "r_boolean (rdr pre (enc_bool c) d) = Inr (c, rdr (pre @ enc_bool c) [] d)"
  using r_fwd(1-5) [where rest = "[]"] by simp_all

lemma mr_fwd [cbor_fwd]:
  "n \<noteq> 0 \<Longrightarrow> (\<forall>l. lk = Some l \<longrightarrow> l < k) \<Longrightarrow>
    mr_next_key (mrdr pre (enc_uint k @ rest) d n lk) = Inr (Some k, mrdr (pre @ enc_uint k) rest d (n - 1) (Some k))"
  "n \<noteq> 0 \<Longrightarrow> (\<forall>l. lk = Some l \<longrightarrow> l < k) \<Longrightarrow>
    mr_expect_key k (mrdr pre (enc_uint k @ rest) d n lk) = Inr (mrdr (pre @ enc_uint k) rest d (n - 1) (Some k))"
  "mr_next_key (mrdr pre bs (Suc d) 0 lk) = Inr (None, mrdr pre bs d 0 lk)"
  by (simp_all add: cbor_iff)

lemma mr_on_fwd [cbor_fwd]:
  "p (rdr pre bs d) = Inr (v, rdr pre' bs' d') \<Longrightarrow>
    mr_on p (mrdr pre bs d n lk) = Inr (v, mrdr pre' bs' d' n lk)"
  by (simp add: mr_on_def)

lemma mr_field_fwd [cbor_fwd]:
  "n \<noteq> 0 \<Longrightarrow> (\<forall>l. lk = Some l \<longrightarrow> l < k) \<Longrightarrow>
    p (rdr (pre @ enc_uint k) rest d) = Inr (v, rdr pre' bs' d') \<Longrightarrow>
    mr_field conv k p (mrdr pre (enc_uint k @ rest) d n lk) = Inr (v, mrdr pre' bs' d' (n - 1) (Some k))"
  by (simp add: mr_field_def cbor_fwd)

lemma mr_no_more_fwd [cbor_fwd]: "mr_no_more conv e (mrdr pre bs (Suc d) 0 lk) = Inr (mrdr pre bs d 0 lk)"
  by (simp add: mr_no_more_def cbor_fwd)

lemma enc_uint_eq [simp]: "enc_uint v = enc_uint v' \<longleftrightarrow> v = v'"
  using enc_uint_app [of v "[]" v' "[]"] by simp

lemma ucast_u64_eq [simp]:
  "(ucast (a :: u8) :: u64) = ucast a' \<longleftrightarrow> a = a'" "(ucast (b :: u16) :: u64) = ucast b' \<longleftrightarrow> b = b'"
  "(ucast (c :: u32) :: u64) = ucast c' \<longleftrightarrow> c = c'"
  by (metis ucast_up_u64)+
section \<open>Bounded arrays\<close>

text \<open>A reader with its error converted, as \<open>?\<close> does.\<close>

definition conv_rd :: "('e \<Rightarrow> 'f) \<Rightarrow> (reader \<Rightarrow> 'e + 'a \<times> reader) \<Rightarrow> reader \<Rightarrow> 'f + 'a \<times> reader" where
  "conv_rd conv p r = qm conv (p r) Inr"

text \<open>
  How messages read an array: its header, a check of the count against a limit before anything is
  allocated, the elements, and \<open>leave\<close>.
\<close>

definition r_bounded ::
  "(cbor_error \<Rightarrow> 'e) \<Rightarrow> 'e \<Rightarrow> nat \<Rightarrow> (reader \<Rightarrow> 'e + 'a \<times> reader) \<Rightarrow> reader \<Rightarrow> 'e + 'a list \<times> reader" where
  "r_bounded conv e limit p r =
    qm conv (r_array r) (\<lambda>(count, r).
      if unat count > limit then Inl e
      else qm id (read_n p (unat count) r) (\<lambda>(xs, r). Inr (xs, r_leave r)))"

definition enc_list :: "('a \<Rightarrow> bytes) \<Rightarrow> 'a list \<Rightarrow> bytes" where
  "enc_list enc xs = enc_array (of_nat (length xs)) @ concat (map enc xs)"

lemma conv_rd_iff [res_iff]: "conv_rd conv p r = Inr x \<longleftrightarrow> p r = Inr x"
  by (cases "p r") (auto simp: conv_rd_def)

lemma conv_rd_fwd [cbor_fwd]: "p r = Inr x \<Longrightarrow> conv_rd conv p r = Inr x"
  by (simp add: conv_rd_def)

locale list_codec = codec enc dec ok nest
  for enc :: "'a \<Rightarrow> bytes" and dec :: "reader \<Rightarrow> 'e + 'a \<times> reader" and ok :: "'a \<Rightarrow> bool" and nest :: nat +
  fixes conv :: "cbor_error \<Rightarrow> 'e" and err :: 'e and limit :: nat
  assumes limit: "limit < 2 ^ 64" and deeper: "Suc nest \<le> MAX_DEPTH"
begin

lemma bounded_iff:
  assumes "d + Suc nest \<le> MAX_DEPTH"
  shows "r_bounded conv err limit dec (rdr pre bs d) = Inr (xs, r') \<longleftrightarrow>
    (length xs \<le> limit \<and> list_all ok xs) \<and>
    (\<exists>rest. bs = enc_list enc xs @ rest \<and> r' = rdr (pre @ enc_list enc xs) rest d)"
proof
  have d: "Suc d + nest \<le> MAX_DEPTH" using assms by simp
  assume "r_bounded conv err limit dec (rdr pre bs d) = Inr (xs, r')"
  then show "(length xs \<le> limit \<and> list_all ok xs) \<and>
      (\<exists>rest. bs = enc_list enc xs @ rest \<and> r' = rdr (pre @ enc_list enc xs) rest d)"
    by (auto simp: r_bounded_def res_iff cbor_iff read_n_iff [OF d] enc_list_def)
next
  have d: "Suc d + nest \<le> MAX_DEPTH" using assms by simp
  assume r: "(length xs \<le> limit \<and> list_all ok xs) \<and>
      (\<exists>rest. bs = enc_list enc xs @ rest \<and> r' = rdr (pre @ enc_list enc xs) rest d)"
  then have "unat (of_nat (length xs) :: u64) = length xs"
    using limit by simp
  with r d show "r_bounded conv err limit dec (rdr pre bs d) = Inr (xs, r')"
    by (auto simp: r_bounded_def cbor_fwd enc_list_def read_n_fwd [OF d])
qed

end

sublocale list_codec \<subseteq> lists: codec "enc_list enc" "r_bounded conv err limit dec"
    "\<lambda>xs. length xs \<le> limit \<and> list_all ok xs" "Suc nest"
  by unfold_locales (use bounded_iff deeper in auto)

lemma fixed_bytes_codec:
  "N < 2 ^ 64 \<Longrightarrow> codec enc_bytes (conv_rd conv (r_bytes_exact N)) (\<lambda>b. length b = N) 0"
  by unfold_locales (auto simp: conv_rd_iff r_bytes_exact_iff)

section \<open>Properties\<close>

text \<open>C18: Each item reader of the decoder accepts, at any position of any buffer and at any depth, exactly
  the bytes the writer emits for the value it returns, and stops just behind them. So a value has no
  second encoding, a text is valid UTF-8, and arrays and maps open only below the depth limit.\<close>

theorem cbor_items_exact:
  "(r_uint (rdr pre bs d) = Inr (v, r) \<longleftrightarrow>
      (\<exists>rest. bs = w_uint [] v @ rest \<and> r = rdr (pre @ w_uint [] v) rest d)) \<and>
   (r_bytes (rdr pre bs d) = Inr (b, r) \<longleftrightarrow>
      length b < 2 ^ 64 \<and> (\<exists>rest. bs = w_bytes [] b @ rest \<and> r = rdr (pre @ w_bytes [] b) rest d)) \<and>
   (r_text (rdr pre bs d) = Inr (b, r) \<longleftrightarrow>
      length b < 2 ^ 64 \<and> utf8_valid b \<and>
      (\<exists>rest. bs = w_text [] b @ rest \<and> r = rdr (pre @ w_text [] b) rest d)) \<and>
   (r_boolean (rdr pre bs d) = Inr (c, r) \<longleftrightarrow>
      (\<exists>rest. bs = w_boolean [] c @ rest \<and> r = rdr (pre @ w_boolean [] c) rest d)) \<and>
   (r_array (rdr pre bs d) = Inr (v, r) \<longleftrightarrow>
      d < MAX_DEPTH \<and> (\<exists>rest. bs = w_array [] v @ rest \<and> r = rdr (pre @ w_array [] v) rest (Suc d))) \<and>
   (r_map (rdr pre bs d) = Inr m \<longleftrightarrow>
      d < MAX_DEPTH \<and>
      (\<exists>n rest. bs = w_map [] n @ rest \<and> m = mrdr (pre @ w_map [] n) rest (Suc d) n None))"
  by (simp add: r_uint_iff r_bytes_iff r_text_iff r_boolean_iff r_array_iff r_map_iff)

end
