(* ===== verification/Rtp_Bitmap.thy ===== *)
theory Rtp_Bitmap
  imports Rtp_Prelude
begin

text \<open>
  Chunk bitmaps, \<open>rtp2-core/src/bitmap.rs\<close>: the packed bit vector with its counter of set
  bits, the missing ranges it yields, and its run-length encoding with LEB128 run lengths.

  The abstraction \<open>chunks\<close> of a bitmap is the list of booleans it stands for, one per chunk. The
  invariant \<open>bm_ok\<close> ties the packed bytes, the trailing zero bits and the counter together; the lemmas
  describe every operation by what it does to \<open>chunks\<close>.
\<close>

section \<open>Definitions\<close>

datatype bitmap_error = IndexOutOfRange | TrailingBitsSet | WrongLength | RunOverflow
  | BmTruncated | TooLarge

definition MAX_RANGES_PER_REQUEST :: nat where
  "MAX_RANGES_PER_REQUEST = 1024"

definition MAX_CHUNK_COUNT :: u64 where
  "MAX_CHUNK_COUNT = push_bit 32 1"

record chunk_bitmap =
  chunk_count :: u64
  bits :: bytes
  set_count :: u64

definition byte_len :: "u64 \<Rightarrow> nat" where
  "byte_len n = (let d = n div 8; r = n mod 8 in unat (if 0 < r then d + 1 else d))"

definition bm_new :: "u64 \<Rightarrow> bitmap_error + chunk_bitmap" where
  "bm_new n = (if n > MAX_CHUNK_COUNT then Inl TooLarge
    else Inr \<lparr>chunk_count = n, bits = replicate (byte_len n) 0, set_count = 0\<rparr>)"

definition is_complete :: "chunk_bitmap \<Rightarrow> bool" where
  "is_complete bm \<longleftrightarrow> set_count bm = chunk_count bm"

definition bm_get :: "chunk_bitmap \<Rightarrow> u64 \<Rightarrow> bitmap_error + bool" where
  "bm_get bm index =
    (if index \<ge> chunk_count bm then Inl IndexOutOfRange
     else let b = bits bm ! unat (index div 8) in
       Inr (b AND drop_bit (unat (index mod 8)) 0x80 \<noteq> 0))"

definition bm_set :: "chunk_bitmap \<Rightarrow> u64 \<Rightarrow> bitmap_error + bool \<times> chunk_bitmap" where
  "bm_set bm index =
    (if index \<ge> chunk_count bm then Inl IndexOutOfRange
     else
       let mask = drop_bit (unat (index mod 8)) 0x80;
           q = unat (index div 8);
           b = bits bm ! q in
       if b AND mask \<noteq> 0 then Inr (False, bm)
       else Inr (True, bm\<lparr>bits := (bits bm)[q := b OR mask], set_count := set_count bm + 1\<rparr>))"

definition count_ones :: "u8 \<Rightarrow> nat" where
  "count_ones b = length (filter (bit b) [0..<8])"

definition bm_from_bytes :: "u64 \<Rightarrow> bytes \<Rightarrow> bitmap_error + chunk_bitmap" where
  "bm_from_bytes n bs =
    (if n > MAX_CHUNK_COUNT then Inl TooLarge
     else if length bs \<noteq> byte_len n then Inl WrongLength
     else
       let used = unat (n mod 8) in
       if used \<noteq> 0 \<and> last bs AND drop_bit used 0xff \<noteq> 0 then Inl TrailingBitsSet
       else Inr \<lparr>chunk_count = n, bits = bs,
                 set_count = sum_list (map (\<lambda>b. of_nat (count_ones b)) bs)\<rparr>)"

text \<open>\<open>while index < n && p(index) { index += 1 }\<close>.\<close>

function advance :: "(u64 \<Rightarrow> bool) \<Rightarrow> u64 \<Rightarrow> u64 \<Rightarrow> u64" where
  "advance p n index = (if index < n \<and> p index then advance p n (index + 1) else index)"
  by auto
termination
  by (relation "measure (\<lambda>(p, n, i). unat n - unat i)")
    (auto simp: unat_succ word_less_nat_alt)

definition present :: "chunk_bitmap \<Rightarrow> u64 \<Rightarrow> bool" where
  "present bm index = (case bm_get bm index of Inr v \<Rightarrow> v | Inl _ \<Rightarrow> False)"

function missing_loop :: "chunk_bitmap \<Rightarrow> nat \<Rightarrow> u64 \<Rightarrow> (u64 \<times> u64) list \<Rightarrow> (u64 \<times> u64) list" where
  "missing_loop bm max_ranges index ranges =
    (if index < chunk_count bm \<and> length ranges < max_ranges then
       let index = advance (present bm) (chunk_count bm) index in
       if index \<ge> chunk_count bm then ranges
       else
         let start = index;
             index = advance (\<lambda>i. \<not> present bm i) (chunk_count bm) index in
         missing_loop bm max_ranges index (ranges @ [(start, index)])
     else ranges)"
  by auto
termination
  by (relation "measure (\<lambda>(bm, m, i, rs). m - length rs)") auto

definition missing_ranges :: "chunk_bitmap \<Rightarrow> nat \<Rightarrow> (u64 \<times> u64) list" where
  "missing_ranges bm max_ranges = missing_loop bm max_ranges 0 []"

function write_leb128 :: "bytes \<Rightarrow> u64 \<Rightarrow> bytes" where
  "write_leb128 out value =
    (let b = (ucast (value AND 0x7f) :: u8);
         value = drop_bit 7 value;
         b = (if value \<noteq> 0 then b OR 0x80 else b);
         out = out @ [b] in
     if value = 0 then out else write_leb128 out value)"
  by auto
termination
  by (relation "measure (\<lambda>(out, v). unat v)")
    (auto simp: drop_bit_eq_div unat_div word_unat_eq_iff)

function read_leb128_loop :: "bytes \<Rightarrow> nat \<Rightarrow> u64 \<Rightarrow> nat \<Rightarrow> bitmap_error + u64 \<times> nat" where
  "read_leb128_loop input pos result shift =
    (if pos \<ge> length input then Inl BmTruncated
     else
       let b = input ! pos; pos = pos + 1 in
       if shift \<ge> 64 then Inl RunOverflow
       else
         let result = result OR push_bit shift (ucast (b AND 0x7f)) in
         if b AND 0x80 = 0 then
           (if b = 0 \<and> shift \<noteq> 0 then Inl RunOverflow else Inr (result, pos))
         else read_leb128_loop input pos result (shift + 7))"
  by auto
termination
  by (relation "measure (\<lambda>(input, pos, r, s). length input - pos)") auto

definition read_leb128 :: "bytes \<Rightarrow> nat \<Rightarrow> bitmap_error + u64 \<times> nat" where
  "read_leb128 input pos = read_leb128_loop input pos 0 0"

declare advance.simps [simp del] missing_loop.simps [simp del] write_leb128.simps [simp del]
  read_leb128_loop.simps [simp del]

lemma advance_step: "index < n \<Longrightarrow> p index \<Longrightarrow> advance p n index = advance p n (index + 1)"
  by (subst advance.simps) simp

lemma advance_done: "\<not> (index < n \<and> p index) \<Longrightarrow> advance p n index = index"
  by (subst advance.simps) argo

lemma advance_ge: "index \<le> advance p n index"
proof (induction p n index rule: advance.induct)
  case (1 p n index)
  show ?case
  proof (cases "index < n \<and> p index")
    case True
    then have "index < index + 1"
      by (simp add: less_succ_iff [of index n])
    with 1 True show ?thesis
      by (simp add: advance_step)
  qed (simp add: advance_done)
qed

lemma advance_gt: "index < n \<Longrightarrow> p index \<Longrightarrow> index < advance p n index"
  using advance_ge [of "index + 1" p n] less_succ_iff [of index n index]
  by (simp add: advance_step)

lemma advance_le: "index \<le> n \<Longrightarrow> advance p n index \<le> n"
proof (induction p n index rule: advance.induct)
  case (1 p n index)
  then show ?case
    by (cases "index < n \<and> p index") (simp_all add: advance_step advance_done succ_le_iff [of index n])
qed

lemma advance_all: "index \<le> j \<Longrightarrow> j < advance p n index \<Longrightarrow> p j"
proof (induction p n index rule: advance.induct)
  case (1 p n index)
  show ?case
  proof (cases "index < n \<and> p index")
    case True
    with 1 have "j = index \<or> index + 1 \<le> j"
      by (auto simp: succ_le_iff [of index n])
    with 1 True show ?thesis
      by (auto simp: advance_step)
  next
    case False
    with 1 show ?thesis by (simp add: advance_done)
  qed
qed

lemma advance_stop: "advance p n index < n \<Longrightarrow> \<not> p (advance p n index)"
proof (induction p n index rule: advance.induct)
  case (1 p n index)
  then show ?case
    by (cases "index < n \<and> p index") (simp_all add: advance_step advance_done)
qed

text \<open>
  The polarity starts clear and flips after each run; a zero-length run is emitted when the
  next chunk has the other polarity. \<open>get\<close> is called below \<open>chunk_count\<close> only, so its \<open>expect\<close>
  is the \<open>None\<close> case here.
\<close>

function encode_loop :: "chunk_bitmap \<Rightarrow> u64 \<Rightarrow> bool \<Rightarrow> bytes \<Rightarrow> bytes option" where
  "encode_loop bm index expect_set out =
    (if index < chunk_count bm then
       case bm_get bm index of
         Inl _ \<Rightarrow> None
       | Inr value \<Rightarrow>
           if value \<noteq> expect_set then
             encode_loop bm index (\<not> expect_set) (write_leb128 out 0)
           else
             let start = index;
                 index = advance (\<lambda>i. bm_get bm i = Inr value) (chunk_count bm) index in
             encode_loop bm index (\<not> expect_set) (write_leb128 out (index - start))
     else Some out)"
  by auto
termination
proof (relation "measure (\<lambda>(bm, i, e, out). 2 * (unat (chunk_count bm) - unat i) +
    (if bm_get bm i = Inr e then 0 else 1))", goal_cases)
  case 1
  then show ?case by simp
next
  case (2 bm index expect_set out v)
  then show ?case by auto
next
  case (3 bm index expect_set out v start i)
  have "index < i" "i \<le> chunk_count bm"
    using 3 by (auto intro!: advance_gt advance_le)
  then show ?case by (auto simp: word_less_nat_alt word_le_nat_alt)
qed

definition encode_rle :: "chunk_bitmap \<Rightarrow> bytes option" where
  "encode_rle bm = encode_loop bm 0 False []"

text \<open>\<open>for i in index..hi { bitmap.set(i)?; }\<close>.\<close>

function set_range :: "chunk_bitmap \<Rightarrow> u64 \<Rightarrow> u64 \<Rightarrow> bitmap_error + chunk_bitmap" where
  "set_range bm i hi =
    (if i < hi then qm id (bm_set bm i) (\<lambda>(_, bm). set_range bm (i + 1) hi) else Inr bm)"
  by auto
termination
  by (relation "measure (\<lambda>(bm, i, hi). unat hi - unat i)")
    (auto simp: unat_succ word_less_nat_alt)

declare encode_loop.simps [simp del] set_range.simps [simp del]

lemma read_leb128_progress:
  "read_leb128_loop input pos r s = Inr (v, pos') \<Longrightarrow> pos < pos' \<and> pos' \<le> length input"
proof (induction input pos r s rule: read_leb128_loop.induct)
  case (1 input pos r s)
  note IH = "1.IH" [OF _ refl refl _ refl]
  show ?case
  proof (cases "length input \<le> pos \<or> 64 \<le> s \<or> input ! pos AND 0x80 = 0")
    case True
    with "1.prems" show ?thesis
      by (subst (asm) read_leb128_loop.simps) (auto simp: Let_def split: if_splits)
  next
    case False
    with "1.prems" have "read_leb128_loop input (pos + 1)
        (r OR push_bit s (ucast (input ! pos AND 0x7f))) (s + 7) = Inr (v, pos')"
      by (subst (asm) read_leb128_loop.simps) (simp add: Let_def)
    with IH False show ?thesis by simp
  qed
qed

function decode_loop ::
  "u64 \<Rightarrow> bytes \<Rightarrow> chunk_bitmap \<Rightarrow> nat \<Rightarrow> u64 \<Rightarrow> bool \<Rightarrow> bitmap_error + chunk_bitmap \<times> u64" where
  "decode_loop n encoded bitmap pos index is_set =
    (if pos < length encoded then
       qm id (read_leb128 encoded pos) (\<lambda>(run, pos).
         if run > n - index then Inl RunOverflow
         else
           qm id (if is_set then set_range bitmap index (index + run) else Inr bitmap) (\<lambda>bitmap.
             decode_loop n encoded bitmap pos (index + run) (\<not> is_set)))
     else Inr (bitmap, index))"
  by auto
termination
  by (relation "measure (\<lambda>(n, enc, bm, pos, i, s). length enc - pos)")
    (simp, simp add: read_leb128_def, blast dest: read_leb128_progress intro: diff_less_mono2)

definition decode_rle :: "u64 \<Rightarrow> bytes \<Rightarrow> bitmap_error + chunk_bitmap" where
  "decode_rle n encoded =
    (if n > MAX_CHUNK_COUNT then Inl TooLarge
     else qm id (bm_new n) (\<lambda>bitmap.
       qm id (decode_loop n encoded bitmap 0 0 False) (\<lambda>(bitmap, index).
         if index \<noteq> n then Inl RunOverflow else Inr bitmap)))"

declare decode_loop.simps [simp del]

section \<open>The chunks of a bitmap\<close>

definition byte_bits :: "u8 \<Rightarrow> bool list" where
  "byte_bits b = map (\<lambda>k. bit b (7 - k)) [0..<8]"

definition all_bits :: "bytes \<Rightarrow> bool list" where
  "all_bits bs = concat (map byte_bits bs)"

definition chunks :: "chunk_bitmap \<Rightarrow> bool list" where
  "chunks bm = take (unat (chunk_count bm)) (all_bits (bits bm))"

definition bm_ok :: "chunk_bitmap \<Rightarrow> bool" where
  "bm_ok bm \<longleftrightarrow> chunk_count bm \<le> MAX_CHUNK_COUNT \<and> length (bits bm) = byte_len (chunk_count bm) \<and>
    (\<forall>x \<in> set (drop (unat (chunk_count bm)) (all_bits (bits bm))). \<not> x) \<and>
    set_count bm = of_nat (length (filter id (all_bits (bits bm))))"

lemma length_byte_bits [simp]: "length (byte_bits b) = 8"
  by (simp add: byte_bits_def)

lemma nth_byte_bits: "k < 8 \<Longrightarrow> byte_bits b ! k = bit b (7 - k)"
  by (simp add: byte_bits_def)

lemma all_bits_simps [simp]: "all_bits [] = []" "all_bits (b # bs) = byte_bits b @ all_bits bs"
  by (simp_all add: all_bits_def)

lemma length_all_bits [simp]: "length (all_bits bs) = 8 * length bs"
  by (induction bs) auto

lemma nth_all_bits: "i < 8 * length bs \<Longrightarrow> all_bits bs ! i = bit (bs ! (i div 8)) (7 - i mod 8)"
proof (induction bs arbitrary: i)
  case Nil
  then show ?case by simp
next
  case (Cons b bs)
  show ?case
  proof (cases "i < 8")
    case True
    then show ?thesis by (simp add: nth_append nth_byte_bits)
  next
    case False
    then obtain j where "i = 8 + j" by (metis le_iff_add not_less)
    moreover have "(8 + j) div 8 = Suc (j div 8)" by simp
    ultimately show ?thesis using Cons by (simp add: nth_append)
  qed
qed

lemma mask_eq: "k < 8 \<Longrightarrow> drop_bit k (0x80 :: u8) = push_bit (7 - k) 1"
proof -
  assume "k < 8"
  then consider "k = 0" | "k = 1" | "k = 2" | "k = 3" | "k = 4" | "k = 5" | "k = 6" | "k = 7"
    by linarith
  then show ?thesis by cases simp_all
qed

lemma and_mask_iff: "k < 8 \<Longrightarrow> b AND drop_bit k (0x80 :: u8) \<noteq> 0 \<longleftrightarrow> bit b (7 - k)"
  by (simp add: mask_eq bit_iff_and_push_bit_not_eq_0)

lemma byte_bits_or_mask:
  assumes "k < 8"
  shows "byte_bits (b OR drop_bit k 0x80) = (byte_bits b)[k := True]"
proof (rule nth_equalityI)
  fix i assume "i < length (byte_bits (b OR drop_bit k 0x80))"
  then show "byte_bits (b OR drop_bit k 0x80) ! i = (byte_bits b)[k := True] ! i"
    using assms by (auto simp: nth_byte_bits mask_eq bit_simps nth_list_update)
qed simp

lemma all_bits_update:
  "q < length bs \<Longrightarrow> k < 8 \<Longrightarrow>
    all_bits (bs[q := bs ! q OR drop_bit k 0x80]) = (all_bits bs)[8 * q + k := True]"
proof (induction bs arbitrary: q)
  case Nil
  then show ?case by simp
next
  case (Cons b bs)
  then show ?case
    by (cases q) (simp_all add: byte_bits_or_mask list_update_append)
qed

lemma unat_div_mod_8: "unat (i div 8) = unat (i :: u64) div 8" "unat (i mod 8) = unat i mod 8"
  by (simp_all add: unat_div unat_mod)

lemma div_up_8: "(m + 7) div 8 = (if m mod 8 = 0 then m div 8 else Suc (m div 8))" for m :: nat
proof -
  define q r where "q = m div 8" and "r = m mod 8"
  then have "m = 8 * q + r" "r < 8" by simp_all
  then have "(m + 7) div 8 = (if r = 0 then q else Suc q)" by (auto intro!: div_nat_eqI)
  then show ?thesis by (simp add: q_def r_def)
qed

lemma byte_len_eq: "byte_len n = (unat n + 7) div 8"
proof -
  have "unat (n div 8 + 1) = unat n div 8 + 1"
    using unat_u64_less [of n] by (subst unat_add) (simp_all add: unat_div_mod_8)
  then show ?thesis
    by (simp add: byte_len_def Let_def unat_div_mod_8 word_less_nat_alt div_up_8)
qed

lemma bm_ok_len: "bm_ok bm \<Longrightarrow> unat (chunk_count bm) \<le> 8 * length (bits bm)"
  by (simp add: bm_ok_def byte_len_eq)

lemma length_chunks [simp]: "bm_ok bm \<Longrightarrow> length (chunks bm) = unat (chunk_count bm)"
  using bm_ok_len by (simp add: chunks_def)

lemma bm_get_eq:
  assumes "bm_ok bm"
  shows "bm_get bm i = (if i < chunk_count bm then Inr (chunks bm ! unat i) else Inl IndexOutOfRange)"
proof -
  have "i < chunk_count bm \<Longrightarrow> unat i < 8 * length (bits bm)"
    using bm_ok_len [OF assms] by (simp add: word_less_nat_alt)
  then show ?thesis
    by (auto simp: bm_get_def Let_def chunks_def nth_all_bits unat_div_mod_8 and_mask_iff
        word_less_nat_alt word_le_nat_alt)
qed

lemma chunks_filter:
  assumes "bm_ok bm"
  shows "set_count bm = of_nat (length (filter id (chunks bm)))"
proof -
  have "filter id (drop (unat (chunk_count bm)) (all_bits (bits bm))) = []"
    using assms by (auto simp: bm_ok_def filter_empty_conv)
  then have "filter id (all_bits (bits bm)) = filter id (chunks bm)"
    unfolding chunks_def by (metis append_Nil2 append_take_drop_id filter_append)
  with assms show ?thesis by (simp add: bm_ok_def)
qed

lemma unat_MAX_CHUNK_COUNT: "unat MAX_CHUNK_COUNT = 4294967296"
  by (simp add: MAX_CHUNK_COUNT_def)

lemma bm_ok_bound: "bm_ok bm \<Longrightarrow> unat (chunk_count bm) \<le> 4294967296"
  using unat_MAX_CHUNK_COUNT by (simp add: bm_ok_def word_le_nat_alt)

lemma is_complete_iff:
  assumes "bm_ok bm"
  shows "is_complete bm \<longleftrightarrow> (\<forall>x \<in> set (chunks bm). x)"
proof -
  have "length (filter id (chunks bm)) \<le> length (chunks bm)"
    by simp
  then have "length (filter id (chunks bm)) < 2 ^ 64"
    using bm_ok_bound [OF assms] by (simp add: assms)
  then have "is_complete bm \<longleftrightarrow> length (filter id (chunks bm)) = length (chunks bm)"
    using assms by (simp add: is_complete_def chunks_filter of_nat_eq_iff_unat)
  then show ?thesis
    by (metis filter_id_conv id_apply length_filter_less less_irrefl)
qed

lemma bm_set_eq:
  assumes "bm_ok bm" and "i < chunk_count bm"
  shows "bm_set bm i = (if chunks bm ! unat i then Inr (False, bm) else
    Inr (True, bm\<lparr>bits := (bits bm)[unat i div 8 := bits bm ! (unat i div 8) OR drop_bit (unat i mod 8) 0x80],
                   set_count := set_count bm + 1\<rparr>))"
proof -
  have "unat i < unat (chunk_count bm)" "unat i < 8 * length (bits bm)"
    using assms(2) bm_ok_len [OF assms(1)] by (auto simp: word_less_nat_alt)
  then have "chunks bm ! unat i \<longleftrightarrow> bits bm ! (unat i div 8) AND drop_bit (unat i mod 8) 0x80 \<noteq> 0"
    by (simp add: chunks_def nth_all_bits and_mask_iff)
  with assms(2) show ?thesis
    by (auto simp: bm_set_def Let_def unat_div_mod_8)
qed

lemma length_filter_update:
  "i < length xs \<Longrightarrow> \<not> xs ! i \<Longrightarrow> length (filter id (xs[i := True])) = Suc (length (filter id xs))"
proof (induction xs arbitrary: i)
  case Nil
  then show ?case by simp
next
  case (Cons x xs)
  then show ?case by (cases i) auto
qed

lemma bm_set_ok:
  assumes ok: "bm_ok bm" and i: "i < chunk_count bm"
  obtains bm' where "bm_set bm i = Inr (\<not> chunks bm ! unat i, bm')" "bm_ok bm'"
    "chunk_count bm' = chunk_count bm" "chunks bm' = (chunks bm)[unat i := True]"
proof (cases "chunks bm ! unat i")
  case True
  then have "(chunks bm)[unat i := True] = chunks bm"
    using list_update_id [of "chunks bm" "unat i"] by simp
  with True assms show thesis
    by (intro that [of bm]) (simp_all add: bm_set_eq)
next
  case False
  let ?n = "unat i" and ?b = "all_bits (bits bm)"
  let ?bits = "(bits bm)[?n div 8 := bits bm ! (?n div 8) OR drop_bit (?n mod 8) 0x80]"
  have n: "?n < unat (chunk_count bm)" "?n < 8 * length (bits bm)"
    using i bm_ok_len [OF ok] by (auto simp: word_less_nat_alt)
  have all: "all_bits ?bits = ?b[?n := True]"
    using n by (subst all_bits_update) auto
  have "\<not> ?b ! ?n"
    using False n by (simp add: chunks_def)
  then have cnt: "length (filter id (?b[?n := True])) = Suc (length (filter id ?b))"
    using n by (simp add: length_filter_update)
  show thesis
  proof (rule that)
    show "bm_set bm i = Inr (\<not> chunks bm ! ?n, bm\<lparr>bits := ?bits, set_count := set_count bm + 1\<rparr>)"
      using False by (simp add: bm_set_eq [OF ok i])
    show "bm_ok (bm\<lparr>bits := ?bits, set_count := set_count bm + 1\<rparr>)"
      using ok n by (simp add: bm_ok_def all cnt drop_update_cancel) blast
    show "chunks (bm\<lparr>bits := ?bits, set_count := set_count bm + 1\<rparr>) = (chunks bm)[?n := True]"
      using n by (simp add: chunks_def all take_update_swap)
  qed simp
qed

lemma bm_set_Inr:
  assumes "bm_ok bm" and "bm_set bm i = Inr (ch, bm')"
  shows "i < chunk_count bm \<and> bm_ok bm' \<and> chunk_count bm' = chunk_count bm \<and>
    chunks bm' = (chunks bm)[unat i := True] \<and> (ch \<longleftrightarrow> \<not> chunks bm ! unat i)"
proof -
  have "i < chunk_count bm"
    using assms(2) by (auto simp: bm_set_def split: if_splits)
  moreover from bm_set_ok [OF assms(1) this] obtain bm2 where
    "bm_set bm i = Inr (\<not> chunks bm ! unat i, bm2)" "bm_ok bm2"
    "chunk_count bm2 = chunk_count bm" "chunks bm2 = (chunks bm)[unat i := True]"
    by blast
  ultimately show ?thesis using assms(2) by simp
qed

lemma all_bits_replicate [simp]: "all_bits (replicate n 0) = replicate (8 * n) False"
proof (induction n)
  case (Suc n)
  have "byte_bits 0 = replicate 8 False"
    by (simp add: byte_bits_def map_replicate_const)
  with Suc show ?case by (simp flip: replicate_add)
qed simp

lemma bm_new_ok:
  assumes "n \<le> MAX_CHUNK_COUNT"
  obtains bm where "bm_new n = Inr bm" "bm_ok bm" "chunk_count bm = n" "chunks bm = replicate (unat n) False"
proof (rule that)
  show "bm_new n = Inr \<lparr>chunk_count = n, bits = replicate (byte_len n) 0, set_count = 0\<rparr>"
    using assms by (simp add: bm_new_def)
qed (use assms in \<open>auto simp: bm_ok_def chunks_def byte_len_eq\<close>)

lemma trailing_mask:
  assumes "used < 8"
  shows "b AND drop_bit used (0xff :: u8) = 0 \<longleftrightarrow> (\<forall>x \<in> set (drop used (byte_bits b)). \<not> x)"
proof -
  have "drop_bit used (0xff :: u8) = drop_bit used (mask 8)"
    by (simp add: mask_eq_exp_minus_1)
  also have "\<dots> = mask (8 - used)"
    by (rule bit_eqI) (use assms in \<open>auto simp: bit_simps\<close>)
  finally have "b AND drop_bit used (0xff :: u8) = take_bit (8 - used) b"
    by (simp add: take_bit_eq_mask)
  moreover have "take_bit (8 - used) b = 0 \<longleftrightarrow> (\<forall>j < 8 - used. \<not> bit b j)"
    by (auto simp: bit_eq_iff bit_take_bit_iff dest: bit_imp_le_length)
  ultimately have "b AND drop_bit used (0xff :: u8) = 0 \<longleftrightarrow> (\<forall>j < 8 - used. \<not> bit b j)"
    by simp
  also have "\<dots> \<longleftrightarrow> (\<forall>k. used \<le> k \<and> k < 8 \<longrightarrow> \<not> bit b (7 - k))"
  proof (intro iffI allI impI)
    fix j assume "\<forall>k. used \<le> k \<and> k < 8 \<longrightarrow> \<not> bit b (7 - k)" "j < 8 - used"
    then show "\<not> bit b j" by (elim allE [of _ "7 - j"]) auto
  qed auto
  also have "\<dots> \<longleftrightarrow> (\<forall>x \<in> set (drop used (byte_bits b)). \<not> x)"
    by (auto simp: byte_bits_def drop_map)
  finally show ?thesis .
qed

lemma all_bits_append: "all_bits (as @ bs) = all_bits as @ all_bits bs"
  by (simp add: all_bits_def)

lemma trailing_ok_iff:
  assumes "length bs = byte_len n"
  shows "(unat (n mod 8) \<noteq> 0 \<and> last bs AND drop_bit (unat (n mod 8)) 0xff \<noteq> 0) \<longleftrightarrow>
    \<not> (\<forall>x \<in> set (drop (unat n) (all_bits bs)). \<not> x)"
proof (cases "unat n mod 8 = 0")
  case True
  then have "8 * byte_len n = unat n"
    by (auto simp: byte_len_eq div_up_8)
  with assms True show ?thesis by (simp add: unat_div_mod_8)
next
  case False
  define q r where "q = unat n div 8" and "r = unat n mod 8"
  have n: "unat n = 8 * q + r" "0 < r" "r < 8"
    using False by (simp_all add: q_def r_def)
  then have "length bs = Suc q"
    using assms by (simp add: byte_len_eq)
  then obtain cs b where bs: "bs = cs @ [b]" "length cs = q"
    by (auto simp: length_Suc_conv_rev)
  then have "drop (unat n) (all_bits bs) = drop r (byte_bits b)"
    by (simp add: n all_bits_append)
  with n show ?thesis
    by (simp add: bs unat_div_mod_8 trailing_mask flip: r_def)
qed

lemma count_ones_eq: "count_ones b = length (filter id (byte_bits b))"
proof -
  have "[0..<8] = rev (map (\<lambda>k. 7 - k) [0..<8])"
    by code_simp
  then have "count_ones b = length (filter (bit b) (map (\<lambda>k. 7 - k) [0..<8]))"
    unfolding count_ones_def by (metis length_rev rev_filter)
  then show ?thesis
    by (simp add: byte_bits_def filter_map comp_def)
qed

lemma sum_count_ones: "sum_list (map (\<lambda>b. of_nat (count_ones b)) bs) = (of_nat (length (filter id (all_bits bs))) :: u64)"
  by (induction bs) (simp_all add: count_ones_eq id_def)

lemma bm_from_bytes_iff: "bm_from_bytes n bs = Inr bm \<longleftrightarrow> bm_ok bm \<and> chunk_count bm = n \<and> bits bm = bs"
proof (cases "n \<le> MAX_CHUNK_COUNT \<and> length bs = byte_len n")
  case True
  let ?bad = "\<forall>x \<in> set (drop (unat n) (all_bits bs)). \<not> x"
  have "bm_from_bytes n bs = (if \<not> ?bad then Inl TrailingBitsSet else
      Inr \<lparr>chunk_count = n, bits = bs, set_count = of_nat (length (filter id (all_bits bs)))\<rparr>)"
    using True by (simp only: bm_from_bytes_def Let_def trailing_ok_iff sum_count_ones not_less if_False
        simp_thms not_le [symmetric])
  with True show ?thesis
    by (cases bm) (auto simp: bm_ok_def)
next
  case False
  then show ?thesis
    by (auto simp: bm_from_bytes_def bm_ok_def not_less)
qed

section \<open>Missing ranges\<close>

lemma present_eq: "bm_ok bm \<Longrightarrow> present bm i \<longleftrightarrow> i < chunk_count bm \<and> chunks bm ! unat i"
  by (simp add: present_def bm_get_eq)

text \<open>The loop without its accumulator, with the number of ranges it may still push.\<close>

primrec gaps :: "chunk_bitmap \<Rightarrow> nat \<Rightarrow> u64 \<Rightarrow> (u64 \<times> u64) list" where
  "gaps bm 0 index = []"
| "gaps bm (Suc k) index =
    (let s = advance (present bm) (chunk_count bm) index in
     if index < chunk_count bm \<and> s < chunk_count bm then
       let e = advance (\<lambda>i. \<not> present bm i) (chunk_count bm) s in (s, e) # gaps bm k e
     else [])"

lemma missing_loop_gaps: "missing_loop bm m index ranges = ranges @ gaps bm (m - length ranges) index"
proof (induction bm m index ranges rule: missing_loop.induct)
  case (1 bm m index ranges)
  note IH = "1.IH" [OF _ refl _ refl refl]
  show ?case
  proof (cases "index < chunk_count bm \<and> length ranges < m")
    case True
    then have "m - length ranges = Suc (m - Suc (length ranges))" by linarith
    with True IH show ?thesis
      by (subst missing_loop.simps) (auto simp: Let_def not_le)
  next
    case False
    then have "m - length ranges = 0 \<or> \<not> index < chunk_count bm" by auto
    with False show ?thesis
      by (subst missing_loop.simps) (cases "m - length ranges"; auto simp: Let_def)
  qed
qed

definition in_ranges :: "(u64 \<times> u64) list \<Rightarrow> u64 \<Rightarrow> bool" where
  "in_ranges rs i \<longleftrightarrow> (\<exists>(s, e) \<in> set rs. s \<le> i \<and> i < e)"

lemma in_ranges_simps [simp]:
  "\<not> in_ranges [] i" "in_ranges ((s, e) # rs) i \<longleftrightarrow> s \<le> i \<and> i < e \<or> in_ranges rs i"
  by (auto simp: in_ranges_def)

lemma length_gaps: "length (gaps bm k index) \<le> k"
  by (induction k arbitrary: index) (simp_all add: Let_def)

lemma gap_step:
  assumes "index < chunk_count bm" and "s = advance (present bm) (chunk_count bm) index"
    and "s < chunk_count bm" and "e = advance (\<lambda>i. \<not> present bm i) (chunk_count bm) s"
  shows "index \<le> s" "s < e" "e \<le> chunk_count bm" "present bm index \<Longrightarrow> index < s"
    "\<And>i. index \<le> i \<Longrightarrow> i < s \<Longrightarrow> present bm i" "\<And>i. s \<le> i \<Longrightarrow> i < e \<Longrightarrow> \<not> present bm i"
    "e < chunk_count bm \<Longrightarrow> present bm e"
proof -
  have s: "\<not> present bm s"
    using assms advance_stop by blast
  show "index \<le> s" "present bm index \<Longrightarrow> index < s"
    using assms advance_ge advance_gt by blast+
  show "s < e"
    using assms(3,4) s advance_gt [of s "chunk_count bm" "\<lambda>i. \<not> present bm i"] by simp
  show "e \<le> chunk_count bm"
    using assms(3,4) advance_le [of s "chunk_count bm"] by simp
  show "present bm i" if "index \<le> i" "i < s" for i
    using that assms advance_all by blast
  show "\<not> present bm i" if "s \<le> i" "i < e" for i
    using that assms(4) advance_all [of s i "\<lambda>i. \<not> present bm i"] by simp
  show "present bm e" if "e < chunk_count bm"
    using that assms(4) advance_stop [of "\<lambda>i. \<not> present bm i"] by simp
qed

lemma gaps_bounds:
  "(s, e) \<in> set (gaps bm k index) \<Longrightarrow>
    index \<le> s \<and> s < e \<and> e \<le> chunk_count bm \<and> (present bm index \<longrightarrow> index < s)"
proof (induction k arbitrary: index)
  case 0
  then show ?case by simp
next
  case (Suc k)
  define s0 where "s0 = advance (present bm) (chunk_count bm) index"
  define e0 where "e0 = advance (\<lambda>i. \<not> present bm i) (chunk_count bm) s0"
  have c: "index < chunk_count bm" "s0 < chunk_count bm"
    using Suc.prems by (auto simp: Let_def s0_def split: if_splits)
  note st = gap_step [OF c(1) s0_def c(2) e0_def]
  have "(s, e) = (s0, e0) \<or> (s, e) \<in> set (gaps bm k e0)"
    using Suc.prems c by (simp add: Let_def flip: s0_def e0_def)
  then show ?case
    using st(1-4) Suc.IH [of e0] by auto
qed

lemma gaps_sorted: "sorted_wrt (\<lambda>(a, b) (c, d). b < c) (gaps bm k index)"
proof (induction k arbitrary: index)
  case (Suc k)
  define s0 where "s0 = advance (present bm) (chunk_count bm) index"
  define e0 where "e0 = advance (\<lambda>i. \<not> present bm i) (chunk_count bm) s0"
  show ?case
  proof (cases "index < chunk_count bm \<and> s0 < chunk_count bm")
    case True
    note st = gap_step [OF _ s0_def _ e0_def]
    have "e0 < c" if "(c, d) \<in> set (gaps bm k e0)" for c d
    proof -
      have "e0 < chunk_count bm"
        using gaps_bounds [OF that] by auto
      then show ?thesis
        using gaps_bounds [OF that] st(7) True by auto
    qed
    then show ?thesis
      using True Suc.IH [of e0] by (auto simp: Let_def simp flip: s0_def e0_def)
  next
    case False
    then show ?thesis by (auto simp: Let_def simp flip: s0_def)
  qed
qed simp

lemma gaps_missing: "in_ranges (gaps bm k index) i \<Longrightarrow> \<not> present bm i"
proof (induction k arbitrary: index)
  case (Suc k)
  define s0 where "s0 = advance (present bm) (chunk_count bm) index"
  define e0 where "e0 = advance (\<lambda>i. \<not> present bm i) (chunk_count bm) s0"
  have c: "index < chunk_count bm" "s0 < chunk_count bm"
    using Suc.prems by (auto simp: Let_def s0_def split: if_splits)
  then have "s0 \<le> i \<and> i < e0 \<or> in_ranges (gaps bm k e0) i"
    using Suc.prems by (simp add: Let_def flip: s0_def e0_def)
  then show ?case
    using gap_step(6) [OF c(1) s0_def c(2) e0_def] Suc.IH by blast
qed simp

lemma gaps_cover:
  assumes "index \<le> i" and "i < chunk_count bm" and "\<not> present bm i"
    and "length (gaps bm k index) < k \<or> (gaps bm k index \<noteq> [] \<and> i < snd (last (gaps bm k index)))"
  shows "in_ranges (gaps bm k index) i"
  using assms
proof (induction k arbitrary: index)
  case (Suc k)
  define s0 where "s0 = advance (present bm) (chunk_count bm) index"
  define e0 where "e0 = advance (\<lambda>i. \<not> present bm i) (chunk_count bm) s0"
  have c1: "index < chunk_count bm"
    using Suc.prems(1,2) by order
  have "\<not> i < s0"
    using Suc.prems advance_all unfolding s0_def by blast
  then have c2: "s0 < chunk_count bm" and si: "s0 \<le> i"
    using Suc.prems by auto
  have g: "gaps bm (Suc k) index = (s0, e0) # gaps bm k e0"
    using c1 c2 by (simp add: Let_def flip: s0_def e0_def)
  show ?case
  proof (cases "i < e0")
    case False
    then have "e0 \<le> i" by simp
    with Suc.prems(4) [unfolded g] show ?thesis
      unfolding g using Suc.IH [of e0] Suc.prems(2,3) by (auto split: if_splits)
  qed (simp add: g si del: gaps.simps(2))
qed simp

section \<open>LEB128\<close>

text \<open>The bytes \<open>write_leb128\<close> appends, least significant group first.\<close>

function leb :: "u64 \<Rightarrow> bytes" where
  "leb v = (if drop_bit 7 v = 0 then [ucast (v AND 0x7f)]
    else (ucast (v AND 0x7f) OR 0x80) # leb (drop_bit 7 v))"
  by auto
termination
  by (relation "measure unat") (auto simp: drop_bit_eq_div unat_div word_unat_eq_iff)

declare leb.simps [simp del]

lemma leb_nonempty [simp]: "leb v \<noteq> []"
  by (subst leb.simps) simp

lemma write_leb128_app: "write_leb128 out v = out @ leb v"
proof (induction out v rule: write_leb128.induct)
  case (1 out v)
  note IH = "1.IH" [OF refl refl refl refl]
  then show ?case
    by (subst write_leb128.simps, subst leb.simps) (simp add: Let_def)
qed

lemma and_7f: "a AND 0x7f = take_bit 7 a" for a :: "'a::len word"
  by (simp add: take_bit_eq_mask mask_eq_exp_minus_1)

lemma and_80_iff: "a AND 0x80 = 0 \<longleftrightarrow> \<not> bit a 7" for a :: u8
  using and_mask_iff [of 0 a] by auto

lemma bit_80: "bit (0x80 :: u8) n \<longleftrightarrow> n = 7"
proof -
  have "(0x80 :: u8) = push_bit 7 1" by simp
  then show ?thesis by (auto simp only: bit_push_bit_iff bit_1_iff possible_bit_word) auto
qed

lemma leb_byte:
  fixes v :: u64
  shows "(ucast (v AND 0x7f) :: u8) AND 0x7f = ucast (v AND 0x7f)"
    "(ucast (v AND 0x7f) OR 0x80 :: u8) AND 0x7f = ucast (v AND 0x7f)"
    "(ucast (v AND 0x7f) :: u8) AND 0x80 = 0" "(ucast (v AND 0x7f) OR 0x80 :: u8) AND 0x80 \<noteq> 0"
    "ucast (ucast (v AND 0x7f) :: u8) = v AND 0x7f"
  unfolding and_7f and_80_iff
  subgoal by (rule bit_eqI) (simp add: bit_simps)
  subgoal by (rule bit_eqI) (auto simp: bit_simps bit_80)
  subgoal by (simp add: bit_simps)
  subgoal by (simp add: bit_simps bit_80)
  subgoal by (rule bit_eqI) (auto simp: bit_simps)
  done

lemma read_leb_loop:
  assumes "s < 64" and "s \<noteq> 0 \<longrightarrow> v \<noteq> 0" and "unat v < 2 ^ (64 - s)"
  shows "read_leb128_loop (pre @ leb v @ rest) (length pre) r s =
    Inr (r OR push_bit s v, length (pre @ leb v))"
  using assms
proof (induction v arbitrary: pre r s rule: leb.induct)
  case (1 v)
  define low where "low = (ucast (v AND 0x7f) :: u8)"
  show ?case
  proof (cases "drop_bit 7 v = 0")
    case True
    then have leb: "leb v = [low]" by (subst leb.simps) (simp add: low_def)
    have v: "v AND 0x7f = v"
      using True by (simp add: and_7f take_bit_eq_self_iff_drop_bit_eq_0)
    then show ?thesis
      using 1 leb_byte[of v] v unfolding leb by (subst read_leb128_loop.simps) (auto simp: Let_def nth_append low_def)
  next
    case False
    then have leb: "leb v = (low OR 0x80) # leb (drop_bit 7 v)"
      by (subst leb.simps) (simp add: low_def)
    have "128 \<le> unat v"
      using False by (simp add: drop_bit_eq_div word_unat_eq_iff unat_div div_eq_0_iff not_less)
    then have "(2::nat) ^ 7 < 2 ^ (64 - s)"
      using "1.prems"(3) by simp
    then have s: "s + 7 < 64"
      using power_less_imp_less_exp [of "2::nat" 7 "64 - s"] by simp
    then have "64 - s = 64 - (s + 7) + 7" by simp
    then have "(2::nat) ^ (64 - s) = 2 ^ (64 - (s + 7)) * 2 ^ 7"
      by (subst \<open>64 - s = _\<close>) (rule power_add)
    then have u: "unat (drop_bit 7 v) < 2 ^ (64 - (s + 7))"
      using "1.prems"(3) by (simp add: drop_bit_eq_div unat_div less_mult_imp_div_less)
    have "push_bit s (v AND 0x7f) OR push_bit (s + 7) (drop_bit 7 v) = push_bit s v"
      unfolding and_7f
    proof (rule bit_eqI)
      fix n
      have "7 + (n - (s + 7)) = n - s" if "s + 7 \<le> n" using that by simp
      then show "bit (push_bit s (take_bit 7 v) OR push_bit (s + 7) (drop_bit 7 v)) n = bit (push_bit s v) n"
        by (cases "s + 7 \<le> n") (auto simp: bit_simps not_le)
    qed
    with "1.IH" [OF False s _ u, of "pre @ [low OR 0x80]" "r OR push_bit s (v AND 0x7f)"] False
      leb_byte [of v]
    show ?thesis
      unfolding leb by (subst read_leb128_loop.simps) (use 1 in \<open>simp add: Let_def nth_append low_def or.assoc\<close>)
  qed
qed

lemma read_leb128_leb:
  "read_leb128 (pre @ leb v @ rest) (length pre) = Inr (v, length (pre @ leb v))"
  unfolding read_leb128_def using read_leb_loop [of 0 v pre rest 0] unat_u64_less [of v] by simp

section \<open>Run-length encoding\<close>

lemma byte_bits_inj: "byte_bits a = byte_bits b \<Longrightarrow> a = b"
proof (rule bit_eqI)
  fix n assume eq: "byte_bits a = byte_bits b" and "possible_bit TYPE(u8) n"
  then have "n \<le> 7" by simp
  then show "bit a n = bit b n"
    using arg_cong [OF eq, of "\<lambda>xs. xs ! (7 - n)"] by (simp add: nth_byte_bits)
qed

lemma all_bits_inj: "all_bits as = all_bits bs \<Longrightarrow> as = bs"
proof (induction as arbitrary: bs)
  case Nil
  then have "length (all_bits bs) = 0" by simp
  then show ?case by simp
next
  case (Cons a as)
  then have "length (all_bits bs) = 8 * Suc (length as)"
    by (metis length_Cons length_all_bits)
  then obtain b bs' where "bs = b # bs'"
    by (cases bs) auto
  with Cons show ?case by (auto dest: byte_bits_inj)
qed

lemma bm_eqI:
  assumes "bm_ok bm" "bm_ok bm'" "chunk_count bm = chunk_count bm'" "chunks bm = chunks bm'"
  shows "bm = bm'"
proof -
  let ?n = "unat (chunk_count bm)"
  have z: "drop ?n (all_bits (bits b)) = replicate (8 * byte_len (chunk_count bm) - ?n) False"
    if "bm_ok b" "chunk_count b = chunk_count bm" for b
    using that by (intro replicate_eqI) (auto simp: bm_ok_def)
  have "all_bits (bits bm) = all_bits (bits bm')"
    using assms z [of bm] z [of bm'] unfolding chunks_def by (metis append_take_drop_id)
  with assms show ?thesis
    using all_bits_inj [of "bits bm" "bits bm'"] by (cases bm; cases bm') (simp add: bm_ok_def)
qed

lemma set_range_ok:
  assumes "bm_ok bm" and "i \<le> j" and "j \<le> chunk_count bm"
  obtains bm' where "set_range bm i j = Inr bm'" "bm_ok bm'" "chunk_count bm' = chunk_count bm"
    "\<And>k. k < unat (chunk_count bm) \<Longrightarrow> chunks bm' ! k = (chunks bm ! k \<or> unat i \<le> k \<and> k < unat j)"
proof -
  have "\<exists>bm'. set_range bm i j = Inr bm' \<and> bm_ok bm' \<and> chunk_count bm' = chunk_count bm \<and>
      (\<forall>k < unat (chunk_count bm). chunks bm' ! k = (chunks bm ! k \<or> unat i \<le> k \<and> k < unat j))"
    using assms
  proof (induction bm i j rule: set_range.induct)
    case (1 bm i j)
    show ?case
    proof (cases "i < j")
      case True
      then have "i < chunk_count bm" using "1.prems" by order
      from bm_set_ok [OF "1.prems"(1) this] obtain ch bm2 where
        b2: "bm_set bm i = Inr (ch, bm2)" "bm_ok bm2" "chunk_count bm2 = chunk_count bm"
          "chunks bm2 = (chunks bm)[unat i := True]" by blast
      have "\<exists>bm'. set_range bm2 (i + 1) j = Inr bm' \<and> bm_ok bm' \<and> chunk_count bm' = chunk_count bm2 \<and>
          (\<forall>k < unat (chunk_count bm2). chunks bm' ! k = (chunks bm2 ! k \<or> unat (i + 1) \<le> k \<and> k < unat j))"
        using True "1.prems" b2 by (intro "1.IH" [OF True]) (auto simp: succ_le_iff [OF True])
      then obtain bm' where "set_range bm2 (i + 1) j = Inr bm'" "bm_ok bm'" "chunk_count bm' = chunk_count bm2"
        and c: "\<And>k. k < unat (chunk_count bm2) \<Longrightarrow>
          chunks bm' ! k = (chunks bm2 ! k \<or> unat (i + 1) \<le> k \<and> k < unat j)"
        by blast
      moreover have "(chunks bm)[unat i := True] ! k = (k = unat i \<or> chunks bm ! k)"
        if "k < unat (chunk_count bm)" for k
        using that "1.prems"(1) by (cases "k = unat i") auto
      ultimately show ?thesis
        using True b2 by (subst set_range.simps) (auto simp: unat_succ [OF True] word_less_nat_alt)
    next
      case False
      then show ?thesis
        using "1.prems" by (subst set_range.simps) (auto simp: word_le_nat_alt word_less_nat_alt)
    qed
  qed
  then show thesis using that by blast
qed

text \<open>\<open>upto bm i bm'\<close>: \<open>bm'\<close> agrees with \<open>bm\<close> on the chunks below \<open>i\<close> and is clear from there on.\<close>

definition agrees_upto :: "chunk_bitmap \<Rightarrow> u64 \<Rightarrow> chunk_bitmap \<Rightarrow> bool" where
  "agrees_upto bm i bm' \<longleftrightarrow> bm_ok bm' \<and> chunk_count bm' = chunk_count bm \<and>
    (\<forall>k < unat (chunk_count bm). chunks bm' ! k \<longleftrightarrow> k < unat i \<and> chunks bm ! k)"

lemma decode_step_run:
  assumes "agrees_upto bm i bm'" "bm_ok bm" "i \<le> j" "j \<le> chunk_count bm"
    and "\<And>k. unat i \<le> k \<Longrightarrow> k < unat j \<Longrightarrow> chunks bm ! k = e"
  obtains bm2 where "(if e then set_range bm' i j else Inr bm') = Inr bm2" "agrees_upto bm j bm2"
proof (cases e)
  case True
  obtain bm2 where "set_range bm' i j = Inr bm2" "bm_ok bm2" "chunk_count bm2 = chunk_count bm'"
    and "\<And>k. k < unat (chunk_count bm') \<Longrightarrow> chunks bm2 ! k = (chunks bm' ! k \<or> unat i \<le> k \<and> k < unat j)"
    using set_range_ok [of bm' i j] assms by (auto simp: agrees_upto_def)
  moreover have "k < unat i \<and> chunks bm ! k \<or> unat i \<le> k \<and> k < unat j \<longleftrightarrow> k < unat j \<and> chunks bm ! k" for k
    using assms(3,5) True by (cases "k < unat i") (auto simp: word_le_nat_alt not_less)
  ultimately show thesis
    using assms(1) True that [of bm2] by (auto simp: agrees_upto_def)
next
  case False
  then have "k < unat i \<and> chunks bm ! k \<longleftrightarrow> k < unat j \<and> chunks bm ! k" for k
    using assms(3,5) by (cases "k < unat i") (auto simp: word_le_nat_alt not_less)
  with False show thesis
    using assms(1) that [of bm'] by (auto simp: agrees_upto_def)
qed

lemma decode_loop_leb:
  assumes "full = out @ leb run @ tail" and "run \<le> n - i"
    and "(if e then set_range bm' i (i + run) else Inr bm') = Inr bm2"
  shows "decode_loop n full bm' (length out) i e =
    decode_loop n full bm2 (length (out @ leb run)) (i + run) (\<not> e)"
proof -
  have "\<not> n - i < run" using assms(2) by simp
  with assms show ?thesis
    by (subst decode_loop.simps) (simp add: read_leb128_leb [simplified])
qed

lemma encode_run:
  assumes "bm_ok bm" and "i < chunk_count bm"
    and "j = advance (\<lambda>i. bm_get bm i = Inr e) (chunk_count bm) i" and "bm_get bm i = Inr e"
  shows "i \<le> j" "j \<le> chunk_count bm" "\<And>k. unat i \<le> k \<Longrightarrow> k < unat j \<Longrightarrow> chunks bm ! k = e"
proof -
  show i: "i \<le> j" and j: "j \<le> chunk_count bm"
    using assms advance_ge [of i] advance_le [of i] by auto
  show "chunks bm ! k = e" if "unat i \<le> k" "k < unat j" for k
  proof -
    have "k < 2 ^ 64" using that(2) unat_u64_less [of j] by simp
    then have k: "unat (word_of_nat k :: u64) = k" by simp
    then have "bm_get bm (word_of_nat k) = Inr e"
      using advance_all [of i "word_of_nat k" "\<lambda>i. bm_get bm i = Inr e" "chunk_count bm"] that assms(3)
      by (simp add: word_le_nat_alt word_less_nat_alt)
    then show ?thesis
      using assms(1) k by (auto simp: bm_get_eq split: if_splits)
  qed
qed

lemma decode_encode:
  "encode_loop bm i e out = Some full \<Longrightarrow> bm_ok bm \<Longrightarrow> i \<le> chunk_count bm \<Longrightarrow> agrees_upto bm i bm' \<Longrightarrow>
    (\<exists>tail. full = out @ tail) \<and>
    decode_loop (chunk_count bm) full bm' (length out) i e = Inr (bm, chunk_count bm)"
proof (induction bm i e out arbitrary: bm' rule: encode_loop.induct)
  case (1 bm i e out)
  let ?n = "chunk_count bm"
  show ?case
  proof (cases "i < ?n")
    case True
    then obtain v where v: "bm_get bm i = Inr v"
      using "1.prems" by (auto simp: bm_get_eq)
    define j where "j = (if v = e then advance (\<lambda>i. bm_get bm i = Inr e) ?n i else i)"
    have j: "i \<le> j" "j \<le> ?n" "\<And>k. unat i \<le> k \<Longrightarrow> k < unat j \<Longrightarrow> chunks bm ! k = e"
      using encode_run [OF "1.prems"(2) True refl, of e] v True
      by (cases "v = e"; simp add: j_def)+
    from decode_step_run [OF "1.prems"(4,2) j] obtain bm2 where
      bm2: "(if e then set_range bm' i j else Inr bm') = Inr bm2" "agrees_upto bm j bm2" by blast
    have "encode_loop bm j (\<not> e) (out @ leb (j - i)) = Some full"
      using "1.prems"(1) True v
      by (subst (asm) encode_loop.simps) (auto simp: j_def Let_def write_leb128_app split: if_splits)
    then have "(\<exists>tail. full = (out @ leb (j - i)) @ tail) \<and>
        decode_loop ?n full bm2 (length (out @ leb (j - i))) j (\<not> e) = Inr (bm, ?n)"
      using "1.IH" [OF True v] "1.prems"(2) j(2) bm2(2)
      by (cases "v = e") (auto simp: j_def write_leb128_app)
    moreover have "j - i \<le> ?n - i"
      using j by (simp add: word_le_nat_alt unat_sub_if')
    moreover have ij: "i + (j - i) = j" by simp
    ultimately show ?thesis
      using decode_loop_leb [of full out "j - i" _ ?n i e bm' bm2, unfolded ij] bm2(1) by auto
  next
    case False
    then have "i = ?n" using "1.prems"(3) by simp
    moreover from this have "bm' = bm"
      using "1.prems" by (auto intro!: bm_eqI nth_equalityI simp: agrees_upto_def)
    ultimately show ?thesis
      using "1.prems"(1) by (simp add: encode_loop.simps decode_loop.simps)
  qed
qed

lemma encode_loop_total: "encode_loop bm i e out \<noteq> None"
proof (induction bm i e out rule: encode_loop.induct)
  case (1 bm i e out)
  show ?case
  proof (cases "i < chunk_count bm")
    case True
    then obtain v where v: "bm_get bm i = Inr v"
      by (simp add: bm_get_def Let_def not_le [symmetric])
    with 1 True show ?thesis
      by (subst encode_loop.simps) (simp add: Let_def)
  qed (simp add: encode_loop.simps)
qed

section \<open>Properties\<close>

lemma is_complete_get:
  assumes ok: "bm_ok bm"
  shows "is_complete bm \<longleftrightarrow> (\<forall>i < chunk_count bm. bm_get bm i = Inr True)"
proof -
  have "(\<forall>k < unat (chunk_count bm). chunks bm ! k) \<longleftrightarrow> (\<forall>i < chunk_count bm. chunks bm ! unat i)"
  proof (intro iffI allI impI)
    fix k assume "\<forall>i < chunk_count bm. chunks bm ! unat i" "k < unat (chunk_count bm)"
    then show "chunks bm ! k"
      using unat_u64_less [of "chunk_count bm"] unat_of_nat_small [of k, where 'a = 64]
      by (elim allE [of _ "word_of_nat k"]) (simp add: word_less_nat_alt)
  qed (simp add: word_less_nat_alt)
  then show ?thesis
    by (simp add: is_complete_iff [OF ok] bm_get_eq [OF ok] all_set_conv_all_nth ok)
qed

text \<open>The set of chunks a bitmap holds, as its clients see it.\<close>

definition held :: "chunk_bitmap \<Rightarrow> u64 set" where
  "held bm = {i. bm_get bm i = Inr True}"

lemma held_eq: "bm_ok bm \<Longrightarrow> held bm = {i. i < chunk_count bm \<and> chunks bm ! unat i}"
  by (auto simp: held_def bm_get_eq split: if_splits)

lemma held_set:
  assumes ok: "bm_ok bm" and set: "bm_set bm i = Inr (changed, bm')"
  shows "held bm' = insert i (held bm)" and "bm_ok bm'" and "chunk_count bm' = chunk_count bm"
    and "i < chunk_count bm" and "changed \<longleftrightarrow> i \<notin> held bm"
proof -
  note s = bm_set_Inr [OF ok set]
  then have ok': "bm_ok bm'" and n: "chunk_count bm' = chunk_count bm" and i: "i < chunk_count bm" by simp_all
  have "i' < chunk_count bm \<and> (chunks bm)[unat i := True] ! unat i' \<longleftrightarrow> i' = i \<or> i' < chunk_count bm \<and> chunks bm ! unat i'" for i'
    using i by (auto simp: nth_list_update word_less_nat_alt word_unat_eq_iff ok)
  then show "held bm' = insert i (held bm)"
    using s by (auto simp: held_eq [OF ok] held_eq [OF ok'])
  show "bm_ok bm'" "chunk_count bm' = chunk_count bm" "i < chunk_count bm"
    by (fact ok' n i)+
  show "changed \<longleftrightarrow> i \<notin> held bm"
    using s by (simp add: held_eq [OF ok])
qed

lemma set_refused: "bm_set bm i = Inl e \<Longrightarrow> chunk_count bm \<le> i"
  by (auto simp: bm_set_def Let_def split: if_splits)

lemma held_new: "bm_new n = Inr bm \<Longrightarrow> held bm = {} \<and> bm_ok bm \<and> chunk_count bm = n"
proof -
  assume new: "bm_new n = Inr bm"
  then have "n \<le> MAX_CHUNK_COUNT" by (auto simp: bm_new_def split: if_splits)
  then obtain b where b: "bm_new n = Inr b" "bm_ok b" "chunk_count b = n" "chunks b = replicate (unat n) False"
    by (rule bm_new_ok)
  with new show ?thesis by (auto simp: held_eq word_less_nat_alt)
qed

lemma held_complete: "bm_ok bm \<Longrightarrow> is_complete bm \<longleftrightarrow> held bm = {i. i < chunk_count bm}"
  by (auto simp: is_complete_get held_eq bm_get_eq)

lemma missing_ranges_gaps: "missing_ranges bm m = gaps bm m 0"
  by (simp add: missing_ranges_def missing_loop_gaps)

section \<open>The number of gaps\<close>

text \<open>The first chunks of the gaps of an object: missing, and at the beginning or behind a present one.\<close>

definition gap_starts :: "chunk_bitmap \<Rightarrow> u64 set" where
  "gap_starts bm = {i. bm_get bm i = Inr False \<and> (i = 0 \<or> bm_get bm (i - 1) = Inr True)}"

lemma pred_u64: "i \<noteq> 0 \<Longrightarrow> i - 1 < i" "i \<noteq> 0 \<Longrightarrow> k \<le> i \<Longrightarrow> k = i \<or> k \<le> i - 1" for i k :: u64
proof -
  assume i: "i \<noteq> 0"
  then have u: "unat (i - 1) = unat i - 1" "0 < unat i" by (simp_all add: unat_minus_one unat_gt_0)
  then show "i - 1 < i" by (simp add: word_less_nat_alt)
  assume "k \<le> i"
  then have "unat k = unat i \<or> unat k \<le> unat i - 1" by (auto simp: word_le_nat_alt)
  then show "k = i \<or> k \<le> i - 1" by (simp add: word_le_nat_alt u(1) word_unat_eq_iff)
qed

lemma gap_start_below:
  assumes "bm_ok bm" and "bm_get bm i = Inr False"
  shows "\<exists>j \<in> gap_starts bm. j \<le> i \<and> (\<forall>k. j \<le> k \<and> k \<le> i \<longrightarrow> bm_get bm k = Inr False)"
  using assms(2)
proof (induction i rule: less_induct)
  case (less i)
  have bound: "i < chunk_count bm" using less.prems assms(1) by (auto simp: bm_get_eq split: if_splits)
  have "i - 1 < chunk_count bm" if "i \<noteq> 0" using bound pred_u64(1) [OF that] by order
  then have "i \<noteq> 0 \<Longrightarrow> bm_get bm (i - 1) = Inr (chunks bm ! unat (i - 1))" using assms(1) by (simp add: bm_get_eq)
  then consider (first) "i = 0 \<or> bm_get bm (i - 1) = Inr True" | (inner) "i \<noteq> 0" "bm_get bm (i - 1) = Inr False"
    by (metis (full_types))
  then show ?case
  proof cases
    case first
    with less.prems show ?thesis by (intro bexI [of _ i]) (auto simp: gap_starts_def)
  next
    case inner
    then obtain j where j: "j \<in> gap_starts bm" "j \<le> i - 1" "\<forall>k. j \<le> k \<and> k \<le> i - 1 \<longrightarrow> bm_get bm k = Inr False"
      using less.IH pred_u64(1) by blast
    then have "\<forall>k. j \<le> k \<and> k \<le> i \<longrightarrow> bm_get bm k = Inr False" using pred_u64(2) [OF inner(1)] less.prems by blast
    with j(1,2) pred_u64(1) [OF inner(1)] show ?thesis by (intro bexI [of _ j]) auto
  qed
qed

lemma gaps_end: "(s, e) \<in> set (gaps bm k index) \<Longrightarrow> e < chunk_count bm \<Longrightarrow> present bm e"
proof (induction k arbitrary: index)
  case (Suc k)
  define s0 where "s0 = advance (present bm) (chunk_count bm) index"
  define e0 where "e0 = advance (\<lambda>i. \<not> present bm i) (chunk_count bm) s0"
  have c: "index < chunk_count bm" "s0 < chunk_count bm"
    using Suc.prems by (auto simp: Let_def s0_def split: if_splits)
  then have "(s, e) = (s0, e0) \<or> (s, e) \<in> set (gaps bm k e0)"
    using Suc.prems by (simp add: Let_def flip: s0_def e0_def)
  then show ?case using gap_step(7) [OF c(1) s0_def c(2) e0_def] Suc by auto
qed simp

lemma gaps_start: "(s, e) \<in> set (gaps bm k index) \<Longrightarrow> s = index \<or> index < s \<and> present bm (s - 1)"
proof (induction k arbitrary: index)
  case (Suc k)
  define s0 where "s0 = advance (present bm) (chunk_count bm) index"
  define e0 where "e0 = advance (\<lambda>i. \<not> present bm i) (chunk_count bm) s0"
  have c: "index < chunk_count bm" "s0 < chunk_count bm"
    using Suc.prems by (auto simp: Let_def s0_def split: if_splits)
  note st = gap_step [OF c(1) s0_def c(2) e0_def]
  from c have "(s, e) = (s0, e0) \<or> (s, e) \<in> set (gaps bm k e0)"
    using Suc.prems by (simp add: Let_def flip: s0_def e0_def)
  then show ?case
  proof
    assume s: "(s, e) = (s0, e0)"
    have "present bm (s0 - 1)" if lt: "index < s0"
    proof -
      have nz: "s0 \<noteq> 0" using lt by auto
      have "s0 - 1 < s0" "index \<le> s0 - 1" using pred_u64(1) [OF nz] pred_u64(2) [OF nz order_less_imp_le [OF lt]] lt by auto
      then show ?thesis using st(5) by blast
    qed
    with s st(1) show ?thesis by (auto simp: order_le_less)
  next
    assume later: "(s, e) \<in> set (gaps bm k e0)"
    then have "e0 < chunk_count bm" using gaps_bounds [OF later] by (meson order_le_less_trans order_less_le_trans)
    then have "e0 < s" using gaps_bounds [OF later] st(7) by blast
    with Suc.IH [OF later] st(1,2) show ?thesis by (auto dest: order_le_less_trans order_less_trans)
  qed
qed simp

lemma gap_starts_ranges:
  assumes "bm_ok bm"
  shows "fst ` set (missing_ranges bm m) \<subseteq> gap_starts bm"
    and "i \<in> gap_starts bm \<Longrightarrow> in_ranges (missing_ranges bm m) i \<Longrightarrow> i \<in> fst ` set (missing_ranges bm m)"
proof -
  have g: "missing_ranges bm m = gaps bm m 0" by (rule missing_ranges_gaps)
  have get: "present bm k \<longleftrightarrow> bm_get bm k = Inr True" "bm_get bm k = Inr False \<longleftrightarrow> k < chunk_count bm \<and> \<not> present bm k" for k
    using assms by (auto simp: present_eq bm_get_eq split: if_splits)
  show "fst ` set (missing_ranges bm m) \<subseteq> gap_starts bm"
  proof
    fix s assume "s \<in> fst ` set (missing_ranges bm m)"
    then obtain e where e: "(s, e) \<in> set (gaps bm m 0)" by (auto simp: g)
    then have "\<not> present bm s" "s < chunk_count bm" using gaps_missing [of bm m 0 s] gaps_bounds [OF e] by (auto simp: in_ranges_def)
    with gaps_start [OF e] get show "s \<in> gap_starts bm" by (auto simp: gap_starts_def)
  qed
  assume i: "i \<in> gap_starts bm" "in_ranges (missing_ranges bm m) i"
  then obtain s e where se: "(s, e) \<in> set (gaps bm m 0)" "s \<le> i" "i < e" by (auto simp: g in_ranges_def)
  have "s = i"
  proof (rule ccontr)
    assume "s \<noteq> i"
    then have nz: "i \<noteq> 0" using se(2) by auto
    have "s \<le> i - 1" using pred_u64(2) [OF nz se(2)] \<open>s \<noteq> i\<close> by blast
    moreover have "i - 1 < e" using pred_u64(1) [OF nz] se(3) by order
    ultimately have "i \<noteq> 0" "s \<le> i - 1" "i - 1 < e" using nz by simp_all
    then have "\<not> present bm (i - 1)" using se(1) gaps_missing [of bm m 0 "i - 1"] by (auto simp: in_ranges_def)
    with i(1) \<open>i \<noteq> 0\<close> get show False by (auto simp: gap_starts_def)
  qed
  with se(1) show "i \<in> fst ` set (missing_ranges bm m)" by (force simp: g)
qed

lemma card_starts: "card (fst ` set (missing_ranges bm m)) = length (missing_ranges bm m)"
proof -
  have "sorted_wrt (\<lambda>p q. fst p < fst q) (gaps bm m 0)"
    using gaps_sorted [of bm m 0] gaps_bounds by (rule_tac sorted_wrt_mono_rel) (auto, fastforce)
  then have "sorted_wrt (<) (map fst (gaps bm m 0))" by (simp add: sorted_wrt_map)
  then have "distinct (map fst (gaps bm m 0))" by (rule strict_sorted_iff [THEN iffD1, THEN conjunct2])
  from distinct_card [OF this] show ?thesis by (simp add: missing_ranges_gaps)
qed

text \<open>The ranges cover everything that is missing exactly when there are no more gaps than ranges allowed.\<close>

lemma missing_ranges_all:
  assumes "bm_ok bm"
  shows "(\<forall>i. bm_get bm i = Inr False \<longrightarrow> in_ranges (missing_ranges bm m) i) \<longleftrightarrow> card (gap_starts bm) \<le> m"
proof
  assume "\<forall>i. bm_get bm i = Inr False \<longrightarrow> in_ranges (missing_ranges bm m) i"
  then have "gap_starts bm \<subseteq> fst ` set (missing_ranges bm m)"
    using gap_starts_ranges(2) [OF assms] by (auto simp: gap_starts_def)
  then have "card (gap_starts bm) \<le> length (missing_ranges bm m)"
    using card_mono [of "fst ` set (missing_ranges bm m)" "gap_starts bm"] by (simp add: card_starts)
  then show "card (gap_starts bm) \<le> m" using length_gaps [of bm m 0] by (simp add: missing_ranges_gaps)
next
  assume few: "card (gap_starts bm) \<le> m"
  show "\<forall>i. bm_get bm i = Inr False \<longrightarrow> in_ranges (missing_ranges bm m) i"
  proof (intro allI impI, rule ccontr)
    fix i assume i: "bm_get bm i = Inr False" and out: "\<not> in_ranges (missing_ranges bm m) i"
    have lt: "i < chunk_count bm" "\<not> present bm i" using i assms by (auto simp: present_eq bm_get_eq split: if_splits)
    then have full: "length (missing_ranges bm m) = m" "missing_ranges bm m = [] \<or> snd (last (missing_ranges bm m)) \<le> i"
      using out gaps_cover [of 0 i bm m] length_gaps [of bm m 0] by (fastforce simp: missing_ranges_gaps)+
    obtain j where j: "j \<in> gap_starts bm" "j \<le> i" "\<forall>k. j \<le> k \<and> k \<le> i \<longrightarrow> bm_get bm k = Inr False"
      using gap_start_below [OF assms i] by blast
    have "j \<notin> fst ` set (missing_ranges bm m)"
    proof
      assume "j \<in> fst ` set (missing_ranges bm m)"
      then obtain e where e: "(j, e) \<in> set (gaps bm m 0)" by (auto simp: missing_ranges_gaps)
      then have "j < e" "e \<le> i" using gaps_bounds [OF e] out j(2) by (auto simp: missing_ranges_gaps in_ranges_def not_less)
      then have "bm_get bm e = Inr False" "e < chunk_count bm" using j(3) lt(1) by auto
      then show False using gaps_end [OF e] assms by (auto simp: present_def)
    qed
    then have "card (insert j (fst ` set (missing_ranges bm m))) = Suc m" using full(1) by (simp add: card_starts)
    moreover have "insert j (fst ` set (missing_ranges bm m)) \<subseteq> gap_starts bm" using j(1) gap_starts_ranges(1) [OF assms] by blast
    ultimately show False using few card_mono [of "gap_starts bm" "insert j (fst ` set (missing_ranges bm m))"] by simp
  qed
qed

lemma rle_roundtrip:
  assumes "bm_ok bm"
  shows "\<exists>out. encode_rle bm = Some out \<and> decode_rle (chunk_count bm) out = Inr bm"
proof -
  obtain out where out: "encode_rle bm = Some out"
    using encode_loop_total unfolding encode_rle_def by blast
  have n: "chunk_count bm \<le> MAX_CHUNK_COUNT"
    using assms by (simp add: bm_ok_def)
  then obtain b0 where b0: "bm_new (chunk_count bm) = Inr b0" "bm_ok b0" "chunk_count b0 = chunk_count bm"
    "chunks b0 = replicate (unat (chunk_count bm)) False"
    by (rule bm_new_ok)
  then have "agrees_upto bm 0 b0"
    by (simp add: agrees_upto_def)
  with out assms have "decode_loop (chunk_count bm) out b0 0 0 False = Inr (bm, chunk_count bm)"
    using decode_encode [of bm 0 False "[]" out b0] by (simp add: encode_rle_def)
  with out b0 n show ?thesis
    by (simp add: decode_rle_def)
qed

lemma set_range_step:
  "i < hi \<Longrightarrow> set_range bm i hi = qm id (bm_set bm i) (\<lambda>(_, bm). set_range bm (i + 1) hi)"
  by (subst set_range.simps) simp

lemma set_range_done: "\<not> i < hi \<Longrightarrow> set_range bm i hi = Inr bm"
  by (subst set_range.simps) simp

lemma set_range_inv:
  "set_range bm i hi = Inr bm' \<Longrightarrow> bm_ok bm \<Longrightarrow> bm_ok bm' \<and> chunk_count bm' = chunk_count bm"
proof (induction bm i hi rule: set_range.induct)
  case (1 bm i hi)
  show ?case
  proof (cases "i < hi")
    case True
    with "1.prems" obtain ch b2 where b2: "bm_set bm i = Inr (ch, b2)" "set_range b2 (i + 1) hi = Inr bm'"
      by (auto simp: set_range_step res_iff)
    then show ?thesis
      using "1.IH" [OF True b2(1) refl b2(2)] bm_set_Inr [OF "1.prems"(2) b2(1)] by simp
  next
    case False
    then show ?thesis using "1.prems" by (simp add: set_range_done)
  qed
qed

lemma decode_loop_inv:
  "decode_loop n encoded bm pos i s = Inr (bm', i') \<Longrightarrow> bm_ok bm \<Longrightarrow>
    bm_ok bm' \<and> chunk_count bm' = chunk_count bm"
proof (induction n encoded bm pos i s rule: decode_loop.induct)
  case (1 n encoded bm pos i s)
  show ?case
  proof (cases "pos < length encoded")
    case True
    from "1.prems"(1) True obtain run pos2 b2 where r: "read_leb128 encoded pos = Inr (run, pos2)"
      and c: "\<not> n - i < run" and b2: "(if s then set_range bm i (i + run) else Inr bm) = Inr b2"
      and d: "decode_loop n encoded b2 pos2 (i + run) (\<not> s) = Inr (bm', i')"
      by (subst (asm) decode_loop.simps) (auto simp: res_iff)
    have "bm_ok b2 \<and> chunk_count b2 = chunk_count bm"
      using b2 "1.prems"(2) set_range_inv by (auto split: if_splits)
    with "1.IH" [OF True r refl c b2 d] show ?thesis by simp
  next
    case False
    then show ?thesis
      using "1.prems" by (subst (asm) decode_loop.simps) simp
  qed
qed

lemma decode_rle_ok:
  assumes "decode_rle n encoded = Inr bm"
  shows "bm_ok bm \<and> chunk_count bm = n"
proof -
  from assms obtain b0 where n: "n \<le> MAX_CHUNK_COUNT" and b0: "bm_new n = Inr b0"
    and d: "decode_loop n encoded b0 0 0 False = Inr (bm, n)"
    by (auto simp: decode_rle_def res_iff)
  from n obtain b1 where "bm_new n = Inr b1" "bm_ok b1" "chunk_count b1 = n"
    by (rule bm_new_ok)
  with b0 decode_loop_inv [OF d] show ?thesis by simp
qed

text \<open>On a well-formed bitmap, \<open>set\<close> refuses an index past the end; otherwise it marks exactly that
  chunk, reports whether it was clear, and keeps the bitmap well formed (packed bytes, trailing zero bits
  and counter included).\<close>

theorem bm_set_correct:
  assumes "bm_ok bm"
  shows "case bm_set bm i of
      Inl e \<Rightarrow> e = IndexOutOfRange \<and> chunk_count bm \<le> i
    | Inr (changed, bm') \<Rightarrow> i < chunk_count bm \<and> bm_ok bm' \<and> chunk_count bm' = chunk_count bm \<and>
        chunks bm' = (chunks bm)[unat i := True] \<and> (changed \<longleftrightarrow> \<not> chunks bm ! unat i)"
proof (cases "bm_set bm i")
  case (Inl e)
  then show ?thesis
    by (auto simp: bm_set_def Let_def split: if_splits)
next
  case (Inr p)
  then show ?thesis
    using bm_set_Inr [OF assms] by (cases p) simp
qed

theorem bm_set_correct_witness:
  "bm_set \<lparr>chunk_count = 10, bits = [0xA0, 0x40], set_count = 3\<rparr> 3 =
     Inr (True, \<lparr>chunk_count = 10, bits = [0xB0, 0x40], set_count = 4\<rparr>) \<and>
   chunks \<lparr>chunk_count = 10, bits = [0xB0, 0x40], set_count = 4\<rparr> =
     (chunks \<lparr>chunk_count = 10, bits = [0xA0, 0x40], set_count = 3\<rparr>)[3 := True]"
proof -
  have ok: "bm_ok \<lparr>chunk_count = 10, bits = [0xA0, 0x40], set_count = 3\<rparr>"
    by code_simp
  have "bm_set \<lparr>chunk_count = 10, bits = [0xA0, 0x40], set_count = 3\<rparr> 3 =
     Inr (True, \<lparr>chunk_count = 10, bits = [0xB0, 0x40], set_count = 4\<rparr>)"
    by code_simp
  with bm_set_correct [OF ok, of 3] show ?thesis by simp
qed

text \<open>C19: \<open>missing_ranges\<close> yields at most the number of ranges asked for, in strictly increasing order with
  a present chunk between any two, each inside the object and made of missing chunks only. A
  missing chunk is left out only when the cap was reached and it lies past the last range.\<close>

theorem missing_ranges_correct:
  assumes "bm_ok bm" and "rs = missing_ranges bm m"
  shows "length rs \<le> m \<and> sorted_wrt (\<lambda>(_, b) (c, _). b < c) rs \<and>
    (\<forall>(s, e) \<in> set rs. s < e \<and> e \<le> chunk_count bm) \<and>
    (\<forall>i. in_ranges rs i \<longrightarrow> i < chunk_count bm \<and> bm_get bm i = Inr False) \<and>
    (\<forall>i. bm_get bm i = Inr False \<longrightarrow>
      in_ranges rs i \<or> length rs = m \<and> (rs = [] \<or> snd (last rs) \<le> i))"
proof -
  have g: "rs = gaps bm m 0"
    using assms(2) by (simp add: missing_ranges_gaps)
  have bound: "s < e \<and> e \<le> chunk_count bm" if "(s, e) \<in> set rs" for s e
    using gaps_bounds that unfolding g by blast
  have "i < chunk_count bm \<and> bm_get bm i = Inr False" if "in_ranges rs i" for i
  proof -
    from that obtain s e where "(s, e) \<in> set rs" "i < e" by (auto simp: in_ranges_def)
    then have "i < chunk_count bm" using bound [of s e] by auto
    with that show ?thesis
      using gaps_missing [of bm m 0 i] assms(1) by (simp add: g present_eq bm_get_eq)
  qed
  moreover have "in_ranges rs i \<or> length rs = m \<and> (rs = [] \<or> snd (last rs) \<le> i)"
    if "bm_get bm i = Inr False" for i
  proof -
    have "i < chunk_count bm" "\<not> present bm i"
      using that assms(1) by (auto simp: bm_get_eq present_eq split: if_splits)
    then show ?thesis
      using gaps_cover [of 0 i bm m] length_gaps [of bm m 0] unfolding g by fastforce
  qed
  ultimately show ?thesis
    using gaps_sorted [of bm m 0] length_gaps [of bm m 0] bound
    by (auto simp: g case_prod_unfold)
qed

theorem missing_ranges_correct_witness:
  "bm_ok \<lparr>chunk_count = 10, bits = [0xA7, 0x00], set_count = 5\<rparr> \<and>
   missing_ranges \<lparr>chunk_count = 10, bits = [0xA7, 0x00], set_count = 5\<rparr> 2 = [(1, 2), (3, 5)] \<and>
   length (missing_ranges \<lparr>chunk_count = 10, bits = [0xA7, 0x00], set_count = 5\<rparr> 2) \<le> 2"
proof -
  have ok: "bm_ok \<lparr>chunk_count = 10, bits = [0xA7, 0x00], set_count = 5\<rparr>"
    by code_simp
  have "missing_ranges \<lparr>chunk_count = 10, bits = [0xA7, 0x00], set_count = 5\<rparr> 2 = [(1, 2), (3, 5)]"
    by code_simp
  with missing_ranges_correct [OF ok refl, of 2] ok show ?thesis by simp
qed

text \<open>C20: The run-length encoder never panics, and decoding its output with the same chunk count gives
  the bitmap back.\<close>

theorem bitmap_rle_roundtrip:
  assumes "bm_ok bm"
  shows "\<exists>out. encode_rle bm = Some out \<and> decode_rle (chunk_count bm) out = Inr bm"
  using assms by (rule rle_roundtrip)

theorem bitmap_rle_roundtrip_witness:
  "encode_rle \<lparr>chunk_count = 10, bits = [0xA7, 0x00], set_count = 5\<rparr> = Some [0, 1, 1, 1, 2, 3, 2] \<and>
   decode_rle 10 [0, 1, 1, 1, 2, 3, 2] = Inr \<lparr>chunk_count = 10, bits = [0xA7, 0x00], set_count = 5\<rparr>"
proof -
  have ok: "bm_ok \<lparr>chunk_count = 10, bits = [0xA7, 0x00], set_count = 5\<rparr>"
    by code_simp
  have "encode_rle \<lparr>chunk_count = 10, bits = [0xA7, 0x00], set_count = 5\<rparr> = Some [0, 1, 1, 1, 2, 3, 2]"
    by code_simp
  with bitmap_rle_roundtrip [OF ok] show ?thesis by simp
qed

text \<open>Rebuilding from raw bytes succeeds exactly on the bytes of a well-formed bitmap with that chunk
  count, and recomputes its counter; and a well-formed bitmap reports completion exactly when every
  chunk is present.\<close>

theorem bitmap_from_bytes_exact:
  "(bm_from_bytes n bs = Inr bm \<longleftrightarrow> bm_ok bm \<and> chunk_count bm = n \<and> bits bm = bs) \<and>
   (bm_from_bytes n bs = Inr bm \<longrightarrow> (is_complete bm \<longleftrightarrow> (\<forall>i < n. bm_get bm i = Inr True)))"
proof -
  show ?thesis
  proof (intro conjI impI)
    show "bm_from_bytes n bs = Inr bm \<longleftrightarrow> bm_ok bm \<and> chunk_count bm = n \<and> bits bm = bs"
      by (rule bm_from_bytes_iff)
    assume "bm_from_bytes n bs = Inr bm"
    then have "bm_ok bm" "chunk_count bm = n"
      by (simp_all add: bm_from_bytes_iff)
    then show "is_complete bm \<longleftrightarrow> (\<forall>i < n. bm_get bm i = Inr True)"
      using is_complete_get by simp
  qed
qed

theorem bitmap_from_bytes_exact_witness:
  "bm_from_bytes 10 [0xFF, 0xC0] = Inr \<lparr>chunk_count = 10, bits = [0xFF, 0xC0], set_count = 10\<rparr> \<and>
   bm_get \<lparr>chunk_count = 10, bits = [0xFF, 0xC0], set_count = 10\<rparr> 9 = Inr True"
proof -
  have b: "bm_from_bytes 10 [0xFF, 0xC0] = Inr \<lparr>chunk_count = 10, bits = [0xFF, 0xC0], set_count = 10\<rparr>"
    by code_simp
  have "is_complete \<lparr>chunk_count = 10, bits = [0xFF, 0xC0], set_count = 10\<rparr>"
    by code_simp
  with b bitmap_from_bytes_exact [of 10 "[0xFF, 0xC0]"
      "\<lparr>chunk_count = 10, bits = [0xFF, 0xC0], set_count = 10\<rparr>"]
  show ?thesis by simp
qed

text \<open>LEB128 run lengths are read back as written, but the reader also accepts a ten-byte form of
  zero: the tenth byte contributes only one bit, and the check for a superfluous zero byte does not see
  the bits shifted out.\<close>

theorem leb128_not_unique:
  "write_leb128 [] 0 = [0] \<and> read_leb128 [0] 0 = Inr (0, 1) \<and>
   read_leb128 [0x80, 0x80, 0x80, 0x80, 0x80, 0x80, 0x80, 0x80, 0x80, 0x02] 0 = Inr (0, 10)"
  by code_simp

end
