(* ===== verification/Rtp_Merkle.thy ===== *)
theory Rtp_Merkle
  imports Rtp_Prelude "HOL-Library.While_Combinator"
begin

text \<open>
  The Merkle commitment over ciphertext chunks, \<open>rtp2-core/src/merkle.rs\<close>. BLAKE3 is the
  parameter \<open>H\<close>; a hasher fed in several updates hashes the concatenation. Loops that the source
  leaves to run are \<open>while_option\<close>, so that not ending is \<open>None\<close>; the lemmas show that they all end,
  and that the functions equal the recursive specifications \<open>root_of\<close>, \<open>proof_of\<close> and \<open>dirs_of\<close>.

  The main results are that a proof that was built verifies, and that a proof that
  verifies is for the leaf that the tree has at that index, unless two of the finitely many inputs
  hashed on the way collide.
\<close>

section \<open>Definitions\<close>

definition LEAF_DOMAIN :: bytes where "LEAF_DOMAIN = ascii ''RTP2-MERKLE-LEAF-v1'' @ [0]"
definition NODE_DOMAIN :: bytes where "NODE_DOMAIN = ascii ''RTP2-MERKLE-NODE-v1'' @ [0]"
definition EMPTY_DOMAIN :: bytes where "EMPTY_DOMAIN = ascii ''RTP2-MERKLE-EMPTY-v1'' @ [0]"

datatype proof_error = PIndexOutOfRange | PDepthExceeded | TrailingSiblings | RootMismatch | Malformed

datatype direction = DLeft | DRight

record proof_step =
  ps_direction :: direction
  ps_hash :: bytes

definition leaf_hash :: "(bytes \<Rightarrow> bytes) \<Rightarrow> u64 \<Rightarrow> bytes \<Rightarrow> bytes" where
  "leaf_hash H index ciphertext =
    H (LEAF_DOMAIN @ to_be index @ to_be (of_nat (length ciphertext) :: u32) @ ciphertext)"

definition node_hash :: "(bytes \<Rightarrow> bytes) \<Rightarrow> bytes \<Rightarrow> bytes \<Rightarrow> bytes" where
  "node_hash H left right = H (NODE_DOMAIN @ left @ right)"

definition empty_root :: "(bytes \<Rightarrow> bytes) \<Rightarrow> bytes" where
  "empty_root H = H EMPTY_DOMAIN"

definition largest_power_of_two_below :: "nat \<Rightarrow> nat option" where
  "largest_power_of_two_below n = while_option (\<lambda>k. k * 2 < n) (\<lambda>k. k * 2) 1"

definition is_pow2_below :: "nat \<Rightarrow> nat \<Rightarrow> bool" where
  "is_pow2_below n k \<longleftrightarrow> (\<exists>e. k = 2 ^ e) \<and> k < n \<and> n \<le> 2 * k"

lemma lp2_loop_Some: "\<exists>k. while_option (\<lambda>k. k * 2 < n) (\<lambda>k. k * 2) (1::nat) = Some k"
proof (rule measure_while_option_Some [where P = "\<lambda>k. 0 < k" and f = "\<lambda>k. n - k"])
qed auto

lemma lp2_below:
  assumes "1 < n" and "largest_power_of_two_below n = Some k"
  shows "is_pow2_below n k"
proof -
  have "(\<exists>e. k = 2 ^ e) \<and> k < n"
    using assms(2) unfolding largest_power_of_two_below_def
  proof (rule while_option_rule [where P = "\<lambda>k. (\<exists>e. k = 2 ^ e) \<and> k < n", rotated])
    show "(\<exists>e. (1::nat) = 2 ^ e) \<and> 1 < n"
      using assms(1) by (metis power_0)
  qed (metis power_Suc2)
  moreover have "\<not> k * 2 < n"
    using assms(2) unfolding largest_power_of_two_below_def by (rule while_option_stop)
  ultimately show ?thesis
    by (simp add: is_pow2_below_def)
qed

lemma lp2_bounds: "n \<noteq> 0 \<Longrightarrow> n \<noteq> 1 \<Longrightarrow> largest_power_of_two_below n = Some k \<Longrightarrow> 0 < k \<and> k < n"
  using lp2_below [of n k] by (auto simp: is_pow2_below_def)

function merkle_root :: "(bytes \<Rightarrow> bytes) \<Rightarrow> bytes list \<Rightarrow> bytes option" where
  "merkle_root H leaves =
    (if length leaves = 0 then Some (empty_root H)
     else if length leaves = 1 then Some (leaves ! 0)
     else do {
       k \<leftarrow> largest_power_of_two_below (length leaves);
       left \<leftarrow> merkle_root H (take k leaves);
       right \<leftarrow> merkle_root H (drop k leaves);
       Some (node_hash H left right) })"
  by auto
termination
proof (relation "measure (\<lambda>(H, ls). length ls)", goal_cases)
  case (2 H ls k)
  then show ?case using lp2_bounds [of "length ls" k] by simp
next
  case (3 H ls k left)
  then show ?case using lp2_bounds [of "length ls" k] by simp
qed simp

function build_proof_inner :: "(bytes \<Rightarrow> bytes) \<Rightarrow> bytes list \<Rightarrow> nat \<Rightarrow> proof_step list \<Rightarrow> proof_step list option" where
  "build_proof_inner H leaves index proof =
    (if length leaves \<le> 1 then Some proof
     else do {
       k \<leftarrow> largest_power_of_two_below (length leaves);
       if index < k then do {
         proof \<leftarrow> build_proof_inner H (take k leaves) index proof;
         h \<leftarrow> merkle_root H (drop k leaves);
         Some (proof @ [\<lparr>ps_direction = DRight, ps_hash = h\<rparr>]) }
       else do {
         proof \<leftarrow> build_proof_inner H (drop k leaves) (index - k) proof;
         h \<leftarrow> merkle_root H (take k leaves);
         Some (proof @ [\<lparr>ps_direction = DLeft, ps_hash = h\<rparr>]) } })"
  by auto
termination
proof (relation "measure (\<lambda>(H, ls, i, p). length ls)", goal_cases)
  case (2 H ls i p k)
  then show ?case using lp2_bounds [of "length ls" k] by (cases "ls = []") simp_all
next
  case (3 H ls i p k)
  then show ?case using lp2_bounds [of "length ls" k] by (cases "ls = []") simp_all
qed simp

definition build_proof :: "(bytes \<Rightarrow> bytes) \<Rightarrow> bytes list \<Rightarrow> nat \<Rightarrow> (proof_error + proof_step list) option" where
  "build_proof H leaves index =
    (if index \<ge> length leaves then Some (Inl PIndexOutOfRange)
     else do { proof \<leftarrow> build_proof_inner H leaves index []; Some (Inr proof) })"

definition leading_zeros :: "u64 \<Rightarrow> nat" where
  "leading_zeros w = length (takeWhile (\<lambda>i. \<not> bit w i) (rev [0..<64]))"

text \<open>The loop of \<open>expected_directions_inner\<close>, on 64-bit words.\<close>

definition lp2_u64 :: "u64 \<Rightarrow> u64 option" where
  "lp2_u64 n = while_option (\<lambda>k. k \<le> (n - 1) div 2) (\<lambda>k. k * 2) 1"

lemma lp2_u64_step:
  fixes k n :: u64
  assumes "1 < n" and "k \<le> (n - 1) div 2"
  shows "unat (k * 2) = unat k * 2" and "unat (k * 2) < unat n"
proof -
  have "unat ((n - 1) div 2) = (unat n - 1) div 2"
    using assms(1) by (simp add: unat_div unat_sub word_le_nat_alt word_less_nat_alt)
  then have "unat k * 2 \<le> unat n - 1" "0 < unat n"
    using assms by (auto simp: word_le_nat_alt word_less_nat_alt)
  moreover from this have "unat k * unat (2 :: u64) < 2 ^ 64"
    using unat_u64_less [of n] by simp
  ultimately show "unat (k * 2) = unat k * 2" "unat (k * 2) < unat n"
    by (auto simp: unat_mult)
qed

lemma lp2_u64_below:
  assumes "1 < n" and "lp2_u64 n = Some k"
  shows "is_pow2_below (unat n) (unat k)"
proof -
  have "(\<exists>e. unat k = 2 ^ e) \<and> unat k < unat n"
    using assms(2) unfolding lp2_u64_def
  proof (rule while_option_rule [where P = "\<lambda>k. (\<exists>e. unat k = 2 ^ e) \<and> unat k < unat n", rotated])
    show "(\<exists>e. unat (1 :: u64) = 2 ^ e) \<and> unat (1 :: u64) < unat n"
      using assms(1) by (auto simp: word_less_nat_alt intro: exI [of _ 0])
  next
    fix s assume "(\<exists>e. unat s = 2 ^ e) \<and> unat s < unat n" "s \<le> (n - 1) div 2"
    then show "(\<exists>e. unat (s * 2) = 2 ^ e) \<and> unat (s * 2) < unat n"
      using lp2_u64_step [OF assms(1), of s] by (metis power_Suc2)
  qed
  moreover have "\<not> k \<le> (n - 1) div 2"
    using assms(2) unfolding lp2_u64_def by (rule while_option_stop)
  ultimately show ?thesis
    using assms(1)
    by (auto simp: is_pow2_below_def word_le_nat_alt word_less_nat_alt unat_div unat_sub)
qed

lemma lp2_u64_Some:
  assumes "1 < n"
  shows "\<exists>k. lp2_u64 n = Some k"
  unfolding lp2_u64_def
proof (rule measure_while_option_Some [where P = "\<lambda>k. 0 < unat k" and f = "\<lambda>k. unat n - unat k"])
  fix s :: u64 assume "0 < unat s" "s \<le> (n - 1) div 2"
  then show "0 < unat (s * 2) \<and> unat n - unat (s * 2) < unat n - unat s"
    using lp2_u64_step [OF assms, of s] by simp
qed simp

function expected_directions_inner :: "u64 \<Rightarrow> u64 \<Rightarrow> direction list \<Rightarrow> direction list option" where
  "expected_directions_inner leaf_count index dirs =
    (if leaf_count \<le> 1 then Some dirs
     else do {
       k \<leftarrow> lp2_u64 leaf_count;
       if index < k then do {
         dirs \<leftarrow> expected_directions_inner k index dirs;
         Some (dirs @ [DRight]) }
       else do {
         dirs \<leftarrow> expected_directions_inner (leaf_count - k) (index - k) dirs;
         Some (dirs @ [DLeft]) } })"
  by auto
termination
proof (relation "measure (\<lambda>(n, i, d). unat n)", goal_cases)
  case (2 n i d k)
  then show ?case using lp2_u64_below [of n k] by (simp add: is_pow2_below_def not_le)
next
  case (3 n i d k)
  then have "is_pow2_below (unat n) (unat k)"
    by (intro lp2_u64_below) auto
  then show ?case
    by (auto simp: is_pow2_below_def unat_sub word_le_nat_alt)
qed simp

definition expected_directions :: "u64 \<Rightarrow> u64 \<Rightarrow> direction list option" where
  "expected_directions leaf_count index = expected_directions_inner leaf_count index []"

definition climb :: "(bytes \<Rightarrow> bytes) \<Rightarrow> bytes \<Rightarrow> proof_step list \<Rightarrow> bytes" where
  "climb H leaf siblings = fold (\<lambda>step acc.
     case ps_direction step of DLeft \<Rightarrow> node_hash H (ps_hash step) acc
     | DRight \<Rightarrow> node_hash H acc (ps_hash step)) siblings leaf"

definition verify_proof ::
  "(bytes \<Rightarrow> bytes) \<Rightarrow> bytes \<Rightarrow> u64 \<Rightarrow> u64 \<Rightarrow> proof_step list \<Rightarrow> bytes \<Rightarrow> (proof_error + unit) option" where
  "verify_proof H leaf index leaf_count siblings expected_root =
    (if index \<ge> leaf_count then Some (Inl PIndexOutOfRange)
     else if leaf_count = 0 then Some (Inl Malformed)
     else
       let max_depth = 64 - leading_zeros (leaf_count - 1) in
       if length siblings > max_depth then Some (Inl PDepthExceeded)
       else do {
         expected_dirs \<leftarrow> expected_directions leaf_count index;
         if length siblings \<noteq> length expected_dirs then Some (Inl TrailingSiblings)
         else if list_ex (\<lambda>(step, expected). ps_direction step \<noteq> expected) (zip siblings expected_dirs)
         then Some (Inl Malformed)
         else if climb H leaf siblings = expected_root then Some (Inr ())
         else Some (Inl RootMismatch) })"

declare merkle_root.simps [simp del] build_proof_inner.simps [simp del]
  expected_directions_inner.simps [simp del]


section \<open>The trees as recursive functions\<close>

definition lpb :: "nat \<Rightarrow> nat" where
  "lpb n = the (largest_power_of_two_below n)"

lemma pow2_below_unique: "is_pow2_below n k \<Longrightarrow> is_pow2_below n k' \<Longrightarrow> k = k'"
proof -
  have "e \<le> f" if "(2::nat) ^ e < n" "n \<le> 2 * 2 ^ f" for e f
  proof -
    from that have "(2::nat) ^ e < 2 ^ Suc f" by simp
    then show ?thesis by (simp add: power_strict_increasing_iff less_Suc_eq_le del: power_Suc)
  qed
  then show "is_pow2_below n k \<Longrightarrow> is_pow2_below n k' \<Longrightarrow> k = k'"
    unfolding is_pow2_below_def by (metis antisym)
qed

lemma lpb_eq: "largest_power_of_two_below n = Some (lpb n)"
  using lp2_loop_Some [of n] by (auto simp: lpb_def largest_power_of_two_below_def)

lemma lpb_below: "1 < n \<Longrightarrow> is_pow2_below n (lpb n)"
  using lp2_below lpb_eq by blast

lemma lpb_bounds:
  "Suc 0 < n \<Longrightarrow> 0 < lpb n" "Suc 0 < n \<Longrightarrow> lpb n < n" "Suc 0 < n \<Longrightarrow> n \<le> 2 * lpb n"
  using lpb_below [of n] by (auto simp: is_pow2_below_def)

lemma lp2_u64_eq:
  assumes "1 < n"
  shows "\<exists>k. lp2_u64 n = Some k \<and> unat k = lpb (unat n)"
  using lp2_u64_Some [OF assms] lp2_u64_below [OF assms] pow2_below_unique lpb_below [of "unat n"] assms
  by (auto simp: word_less_nat_alt)

function root_of :: "(bytes \<Rightarrow> bytes) \<Rightarrow> bytes list \<Rightarrow> bytes" where
  "root_of H ls =
    (if length ls = 0 then empty_root H else if length ls = 1 then ls ! 0
     else node_hash H (root_of H (take (lpb (length ls)) ls)) (root_of H (drop (lpb (length ls)) ls)))"
  by auto
termination
proof (relation "measure (\<lambda>(H, ls). length ls)", goal_cases)
  case (2 H ls)
  then have "Suc 0 < length ls" by linarith
  then show ?case using lpb_bounds(2) [of "length ls"] by simp
next
  case (3 H ls)
  then have "Suc 0 < length ls" by linarith
  then show ?case using lpb_bounds(1) [of "length ls"] by simp
qed simp

function dirs_of :: "nat \<Rightarrow> nat \<Rightarrow> direction list" where
  "dirs_of n i = (if n \<le> 1 then [] else if i < lpb n then dirs_of (lpb n) i @ [DRight]
    else dirs_of (n - lpb n) (i - lpb n) @ [DLeft])"
  by auto
termination
  by (relation "measure fst") (auto simp: lpb_bounds)

function proof_of :: "(bytes \<Rightarrow> bytes) \<Rightarrow> bytes list \<Rightarrow> nat \<Rightarrow> proof_step list" where
  "proof_of H ls i =
    (let k = lpb (length ls) in
     if length ls \<le> 1 then []
     else if i < k then proof_of H (take k ls) i @ [\<lparr>ps_direction = DRight, ps_hash = root_of H (drop k ls)\<rparr>]
     else proof_of H (drop k ls) (i - k) @ [\<lparr>ps_direction = DLeft, ps_hash = root_of H (take k ls)\<rparr>])"
  by auto
termination
proof (relation "measure (\<lambda>(H, ls, i). length ls)", goal_cases)
  case (2 H ls i k)
  then show ?case using lpb_bounds(2) [of "length ls"] by simp
next
  case (3 H ls i k)
  then show ?case using lpb_bounds(1) [of "length ls"] by simp
qed simp

declare root_of.simps [simp del] dirs_of.simps [simp del] proof_of.simps [simp del]

lemma merkle_root_eq: "merkle_root H ls = Some (root_of H ls)"
proof (induction H ls rule: root_of.induct)
  case (1 H ls)
  then show ?case
    by (subst merkle_root.simps, subst root_of.simps) (simp add: lpb_eq)
qed

lemma build_proof_inner_eq: "build_proof_inner H ls i p = Some (p @ proof_of H ls i)"
proof (induction H ls i arbitrary: p rule: proof_of.induct)
  case (1 H ls i)
  show ?case
    using "1.IH" [OF refl]
    by (subst build_proof_inner.simps, subst proof_of.simps)
      (simp add: lpb_eq merkle_root_eq Let_def not_le)
qed

lemma build_proof_eq: "build_proof H ls i =
    Some (if length ls \<le> i then Inl PIndexOutOfRange else Inr (proof_of H ls i))"
  by (simp add: build_proof_def build_proof_inner_eq)

lemma expected_directions_eq: "expected_directions_inner n i ds = Some (ds @ dirs_of (unat n) (unat i))"
proof (induction n i ds rule: expected_directions_inner.induct)
  case (1 n i ds)
  show ?case
  proof (cases "n \<le> 1")
    case True
    then show ?thesis
      by (subst expected_directions_inner.simps, subst dirs_of.simps) (simp add: word_le_nat_alt)
  next
    case False
    then have "1 < n" by simp
    from lp2_u64_eq [OF this] obtain k where k: "lp2_u64 n = Some k" "unat k = lpb (unat n)" by blast
    have n: "Suc 0 < unat n" using False by (simp add: word_le_nat_alt)
    then have "unat (n - k) = unat n - lpb (unat n)"
      using lpb_bounds(2) [OF n] k by (simp add: unat_sub word_le_nat_alt)
    moreover have "unat (i - k) = unat i - lpb (unat n)" if "\<not> i < k"
      using that k by (simp add: unat_sub word_le_nat_alt not_less)
    ultimately show ?thesis
      using "1.IH" [OF False k(1)] False k n
      by (subst expected_directions_inner.simps, subst dirs_of.simps)
        (auto simp: word_less_nat_alt not_le)
  qed
qed

lemma length_dirs_of: "n \<le> 2 ^ D \<Longrightarrow> length (dirs_of n i) \<le> D"
proof (induction n i arbitrary: D rule: dirs_of.induct)
  case (1 n i)
  show ?case
  proof (cases "n \<le> 1")
    case True
    then show ?thesis by (simp add: dirs_of.simps)
  next
    case False
    then have n: "1 < n" by simp
    from lpb_below [OF n] obtain e where e: "lpb n = 2 ^ e" "2 ^ e < n" "n \<le> 2 * 2 ^ e"
      by (auto simp: is_pow2_below_def)
    have "(2::nat) ^ e < 2 ^ D" using e(2) 1(3) by linarith
    then have "e < D" by simp
    then obtain D' where D: "D = Suc D'" "e \<le> D'" by (metis Suc_le_D less_eq_Suc_le Suc_le_mono)
    then have "(2::nat) ^ e \<le> 2 ^ D'" by simp
    moreover from this have "n - 2 ^ e \<le> 2 ^ D'" using e(3) by linarith
    ultimately show ?thesis
      using "1.IH" [of D'] False e D(1) by (subst dirs_of.simps) auto
  qed
qed

lemma length_takeWhile_rev: "\<forall>i. m - length (takeWhile P (rev [0..<m])) \<le> i \<and> i < m \<longrightarrow> P i"
proof (induction m)
  case (Suc m)
  show ?case
  proof (intro allI impI, elim conjE)
    fix i assume "Suc m - length (takeWhile P (rev [0..<Suc m])) \<le> i" "i < Suc m"
    then show "P i" using Suc by (cases "i = m") (auto split: if_splits)
  qed
qed simp

lemma unat_less_leading_zeros: "unat (w :: u64) < 2 ^ (64 - leading_zeros w)"
proof -
  let ?m = "64 - leading_zeros w"
  have z: "\<not> bit w n" if "?m \<le> n" "n < 64" for n
    using length_takeWhile_rev [of 64 "\<lambda>i. \<not> bit w i"] that unfolding leading_zeros_def by blast
  have "take_bit ?m w = w"
  proof (rule bit_eqI)
    fix n assume "possible_bit TYPE(u64) n"
    then show "bit (take_bit ?m w) n = bit w n"
      using z [of n] by (cases "n < ?m") (auto simp: bit_take_bit_iff)
  qed
  then have "unat w = unat w mod 2 ^ ?m"
    by (metis take_bit_eq_mod unsigned_take_bit_eq)
  then show ?thesis by (metis mod_less_divisor zero_less_numeral zero_less_power)
qed

section \<open>Completeness and soundness of proofs\<close>

definition step_input :: "proof_step \<Rightarrow> bytes \<Rightarrow> bytes" where
  "step_input s acc = NODE_DOMAIN @ (case ps_direction s of DLeft \<Rightarrow> ps_hash s @ acc | DRight \<Rightarrow> acc @ ps_hash s)"

text \<open>The inputs hashed while climbing a proof, and those of the inner nodes of a tree.\<close>

definition climb_inputs :: "(bytes \<Rightarrow> bytes) \<Rightarrow> bytes \<Rightarrow> proof_step list \<Rightarrow> bytes list" where
  "climb_inputs H leaf p = map (\<lambda>j. step_input (p ! j) (climb H leaf (take j p))) [0..<length p]"

function tree_inputs :: "(bytes \<Rightarrow> bytes) \<Rightarrow> bytes list \<Rightarrow> bytes list" where
  "tree_inputs H ls =
    (let k = lpb (length ls) in
     if length ls \<le> 1 then []
     else (NODE_DOMAIN @ root_of H (take k ls) @ root_of H (drop k ls)) #
       tree_inputs H (take k ls) @ tree_inputs H (drop k ls))"
  by auto
termination
proof (relation "measure (\<lambda>(H, ls). length ls)", goal_cases)
  case (2 H ls k)
  then show ?case using lpb_bounds(2) [of "length ls"] by simp
next
  case (3 H ls k)
  then show ?case using lpb_bounds(1) [of "length ls"] by simp
qed simp

declare tree_inputs.simps [simp del]

lemma climb_Nil [simp]: "climb H leaf [] = leaf"
  by (simp add: climb_def)

lemma climb_snoc: "climb H leaf (p @ [s]) = H (step_input s (climb H leaf p))"
  by (simp add: climb_def step_input_def node_hash_def split: direction.splits)

lemma climb_inputs_snoc: "climb_inputs H leaf (p @ [s]) = climb_inputs H leaf p @ [step_input s (climb H leaf p)]"
  by (auto simp: climb_inputs_def nth_append)

lemma verify_proof_iff: "verify_proof H leaf i n sibs root = Some (Inr ()) \<longleftrightarrow>
    i < n \<and> map ps_direction sibs = dirs_of (unat n) (unat i) \<and> climb H leaf sibs = root"
proof (cases "i < n")
  case True
  have n0: "n \<noteq> 0" using True by auto
  then have "unat (n - 1) = unat n - 1"
    by (simp add: unat_sub word_le_nat_alt word_unat_eq_iff Suc_le_eq)
  then have "unat n \<le> 2 ^ (64 - leading_zeros (n - 1))"
    using unat_less_leading_zeros [of "n - 1"] n0 by (simp add: word_unat_eq_iff)
  then have len: "length (dirs_of (unat n) (unat i)) \<le> 64 - leading_zeros (n - 1)"
    by (rule length_dirs_of)
  have dirs: "map ps_direction sibs = ds \<longleftrightarrow> length sibs = length ds \<and>
      \<not> list_ex (\<lambda>(step, expected). ps_direction step \<noteq> expected) (zip sibs ds)" for ds
  proof (induction sibs arbitrary: ds)
    case (Cons s sibs)
    then show ?case by (cases ds) auto
  qed auto
  show ?thesis
    using True n0 len unfolding verify_proof_def expected_directions_def expected_directions_eq dirs
    by (auto simp: Let_def)
next
  case False
  then have "n \<le> i" by simp
  with False show ?thesis by (simp add: verify_proof_def)
qed

lemma leaf_case:
  assumes "length ls \<le> 1"
  shows "proof_of H ls i = []" and "tree_inputs H ls = []" and "dirs_of (length ls) i = []"
    and "i < length ls \<Longrightarrow> root_of H ls = ls ! i"
proof -
  show "root_of H ls = ls ! i" if "i < length ls"
  proof -
    from that assms have "length ls = 1" "i = 0" by linarith+
    then show ?thesis by (subst root_of.simps) simp
  qed
qed (use assms in \<open>subst proof_of.simps tree_inputs.simps dirs_of.simps, simp\<close>)+

lemma node_case:
  assumes "\<not> length ls \<le> 1" and "k = lpb (length ls)"
  shows "0 < k" and "k < length ls"
    and "root_of H ls = H (NODE_DOMAIN @ root_of H (take k ls) @ root_of H (drop k ls))"
    and "tree_inputs H ls = (NODE_DOMAIN @ root_of H (take k ls) @ root_of H (drop k ls)) #
       tree_inputs H (take k ls) @ tree_inputs H (drop k ls)"
    and "i < k \<Longrightarrow> proof_of H ls i =
       proof_of H (take k ls) i @ [\<lparr>ps_direction = DRight, ps_hash = root_of H (drop k ls)\<rparr>]"
    and "\<not> i < k \<Longrightarrow> proof_of H ls i =
       proof_of H (drop k ls) (i - k) @ [\<lparr>ps_direction = DLeft, ps_hash = root_of H (take k ls)\<rparr>]"
    and "i < k \<Longrightarrow> dirs_of (length ls) i = dirs_of k i @ [DRight]"
    and "\<not> i < k \<Longrightarrow> dirs_of (length ls) i = dirs_of (length ls - k) (i - k) @ [DLeft]"
proof -
  show "0 < k" "k < length ls"
    using assms lpb_bounds [of "length ls"] by simp_all
  have "length ls \<noteq> 0" "length ls \<noteq> 1" using assms(1) by linarith+
  then show "root_of H ls = H (NODE_DOMAIN @ root_of H (take k ls) @ root_of H (drop k ls))"
    by (subst root_of.simps) (simp add: node_hash_def assms(2))
  show "tree_inputs H ls = (NODE_DOMAIN @ root_of H (take k ls) @ root_of H (drop k ls)) #
       tree_inputs H (take k ls) @ tree_inputs H (drop k ls)"
    using assms by (subst tree_inputs.simps) (simp add: Let_def)
  show "i < k \<Longrightarrow> proof_of H ls i =
      proof_of H (take k ls) i @ [\<lparr>ps_direction = DRight, ps_hash = root_of H (drop k ls)\<rparr>]"
    "\<not> i < k \<Longrightarrow> proof_of H ls i =
      proof_of H (drop k ls) (i - k) @ [\<lparr>ps_direction = DLeft, ps_hash = root_of H (take k ls)\<rparr>]"
    using assms by (subst proof_of.simps, simp add: Let_def)+
  show "i < k \<Longrightarrow> dirs_of (length ls) i = dirs_of k i @ [DRight]"
    "\<not> i < k \<Longrightarrow> dirs_of (length ls) i = dirs_of (length ls - k) (i - k) @ [DLeft]"
    using assms by (subst dirs_of.simps, simp)+
qed

lemma climb_proof_of: "i < length ls \<Longrightarrow> climb H (ls ! i) (proof_of H ls i) = root_of H ls"
proof (induction H ls i rule: proof_of.induct)
  case (1 H ls i)
  show ?case
  proof (cases "length ls \<le> 1")
    case True
    with "1.prems" show ?thesis by (simp add: leaf_case)
  next
    case False
    define k where "k = lpb (length ls)"
    note n = node_case [OF False k_def]
    show ?thesis
    proof (cases "i < k")
      case True
      with "1.IH"(1) [OF k_def False True] n(2) show ?thesis
        unfolding n(5) [OF True] n(3) by (simp add: climb_snoc step_input_def)
    next
      case F: False
      with "1.IH"(2) [OF k_def False F] "1.prems" show ?thesis
        unfolding n(6) [OF F] n(3) by (simp add: climb_snoc step_input_def)
    qed
  qed
qed

lemma dirs_proof_of: "i < length ls \<Longrightarrow> map ps_direction (proof_of H ls i) = dirs_of (length ls) i"
proof (induction H ls i rule: proof_of.induct)
  case (1 H ls i)
  show ?case
  proof (cases "length ls \<le> 1")
    case True
    with "1.prems" show ?thesis by (simp add: leaf_case)
  next
    case False
    define k where "k = lpb (length ls)"
    note n = node_case [OF False k_def]
    show ?thesis
    proof (cases "i < k")
      case True
      with "1.IH"(1) [OF k_def False True] n(2) show ?thesis
        unfolding n(5) [OF True] n(7) [OF True] by (simp add: min_def)
    next
      case F: False
      with "1.IH"(2) [OF k_def False F] "1.prems" show ?thesis
        unfolding n(6) [OF F] n(8) [OF F] by simp
    qed
  qed
qed

lemma length_root_of:
  assumes "\<And>x. length (H x) = 32" and "list_all (\<lambda>l. length l = 32) ls"
  shows "length (root_of H ls) = 32"
  using assms by (subst root_of.simps) (auto simp: empty_root_def node_hash_def list_all_length)

lemma length_climb:
  assumes "\<And>x. length (H x) = 32" and "length leaf = 32"
  shows "length (climb H leaf p) = 32"
  using assms by (cases p rule: rev_cases) (auto simp: climb_snoc)

lemma list_all_take_drop: "list_all P xs \<Longrightarrow> list_all P (take k xs)" "list_all P xs \<Longrightarrow> list_all P (drop k xs)"
  by (auto simp: list_all_iff dest: in_set_takeD in_set_dropD)

definition proof_ok :: "bytes \<Rightarrow> proof_step list \<Rightarrow> bool" where
  "proof_ok leaf p \<longleftrightarrow> length leaf = 32 \<and> (\<forall>s \<in> set p. length (ps_hash s) = 32)"

lemma step_input_inj:
  assumes "length (ps_hash s) = 32" and "length a = 32" and "length l = 32" and "length r = 32"
    and "step_input s a = NODE_DOMAIN @ l @ r"
  shows "case ps_direction s of DLeft \<Rightarrow> ps_hash s = l \<and> a = r | DRight \<Rightarrow> a = l \<and> ps_hash s = r"
  using assms by (auto simp: step_input_def split: direction.splits)

lemma climb_unique:
  assumes "\<And>x. length (H x) = 32"
    and "list_all (\<lambda>l. length l = 32) ls" and "proof_ok leaf p" and "i < length ls"
    and "map ps_direction p = dirs_of (length ls) i" and "climb H leaf p = root_of H ls"
    and "inj_on H (set (tree_inputs H ls) \<union> set (climb_inputs H leaf p))"
  shows "leaf = ls ! i \<and> p = proof_of H ls i"
  using assms
proof (induction H ls i arbitrary: p rule: proof_of.induct)
  case (1 H ls i)
  show ?case
  proof (cases "length ls \<le> 1")
    case True
    with "1.prems" show ?thesis by (simp add: leaf_case)
  next
    case False
    define k where "k = lpb (length ls)"
    note n = node_case [OF False k_def]
    have lens: "length (root_of H (take k ls)) = 32" "length (root_of H (drop k ls)) = 32"
      using "1.prems"(1,2) by (simp_all add: length_root_of list_all_take_drop)
    obtain p' s where p: "p = p' @ [s]"
      using "1.prems"(5) n(7,8) [of i] by (cases "i < k"; cases p rule: rev_cases) simp_all
    have ok: "proof_ok leaf p'" "length (ps_hash s) = 32" "length (climb H leaf p') = 32"
      using "1.prems"(1,3) by (auto simp: p proof_ok_def length_climb)
    have "step_input s (climb H leaf p') = NODE_DOMAIN @ root_of H (take k ls) @ root_of H (drop k ls)"
      using "1.prems"(6,7) by (auto simp: p climb_snoc n(3,4) climb_inputs_snoc dest: inj_onD)
    note s = step_input_inj [OF ok(2,3) lens this]
    have inj: "inj_on H (set (tree_inputs H (take k ls)) \<union> set (climb_inputs H leaf p'))"
      "inj_on H (set (tree_inputs H (drop k ls)) \<union> set (climb_inputs H leaf p'))"
      using "1.prems"(7) by (auto simp: p n(4) climb_inputs_snoc elim: inj_on_subset)
    show ?thesis
    proof (cases "i < k")
      case True
      then have d: "ps_direction s = DRight" "map ps_direction p' = dirs_of (length (take k ls)) i"
        using "1.prems"(5) n(2) by (simp_all add: p n(7) min_def)
      have "leaf = take k ls ! i \<and> p' = proof_of H (take k ls) i"
        using "1.IH"(1) [OF k_def False True "1.prems"(1) _ ok(1) _ d(2) _ inj(1)] "1.prems"(2,4) True s n(2)
        by (simp add: d(1) list_all_take_drop)
      with True s d n(2) show ?thesis by (simp add: p n(5))
    next
      case F: False
      then have d: "ps_direction s = DLeft" "map ps_direction p' = dirs_of (length (drop k ls)) (i - k)"
        using "1.prems"(5) n(2) by (simp_all add: p n(8))
      have "leaf = drop k ls ! (i - k) \<and> p' = proof_of H (drop k ls) (i - k)"
        using "1.IH"(2) [OF k_def False F "1.prems"(1) _ ok(1) _ d(2) _ inj(2)] "1.prems"(2,4) F s n(2)
        by (simp add: d(1) list_all_take_drop)
      with F s d n(2) show ?thesis by (simp add: p n(6))
    qed
  qed
qed

section \<open>Properties\<close>

definition chunk_leaves :: "(bytes \<Rightarrow> bytes) \<Rightarrow> bytes list \<Rightarrow> bytes list" where
  "chunk_leaves H cts = map (\<lambda>(i, ct). leaf_hash H (of_nat i) ct) (zip [0..<length cts] cts)"

definition leaf_input :: "u64 \<Rightarrow> bytes \<Rightarrow> bytes" where
  "leaf_input index ct = LEAF_DOMAIN @ to_be index @ to_be (of_nat (length ct) :: u32) @ ct"

lemma length_chunk_leaves [simp]: "length (chunk_leaves H cts) = length cts"
  by (simp add: chunk_leaves_def)

lemma nth_chunk_leaves: "i < length cts \<Longrightarrow> chunk_leaves H cts ! i = leaf_hash H (of_nat i) (cts ! i)"
  by (simp add: chunk_leaves_def)

lemma leaf_hash_input: "leaf_hash H i ct = H (leaf_input i ct)"
  by (simp add: leaf_hash_def leaf_input_def)

text \<open>C21: For every list of leaves and every index in it, building the root and the inclusion proof ends,
  and the proof verifies against that root for that leaf, index and leaf count.\<close>

theorem merkle_proof_complete:
  assumes "index < length leaves" and "length leaves < 2 ^ 64"
  shows "\<exists>root p. merkle_root H leaves = Some root \<and> build_proof H leaves index = Some (Inr p) \<and>
    verify_proof H (leaves ! index) (of_nat index) (of_nat (length leaves)) p root = Some (Inr ())"
proof -
  have "index < 2 ^ 64" using assms by simp
  then have u: "unat (of_nat index :: u64) = index" "unat (of_nat (length leaves) :: u64) = length leaves"
    using assms(2) by simp_all
  show ?thesis
    using assms(1) unfolding merkle_root_eq build_proof_eq verify_proof_iff u word_less_nat_alt
    by (simp add: climb_proof_of dirs_proof_of)
qed

theorem merkle_proof_complete_witness:
  "\<exists>root p. merkle_root sample_hash [[1], [2], [3]] = Some root \<and>
    build_proof sample_hash [[1], [2], [3]] 2 = Some (Inr p) \<and>
    verify_proof sample_hash [3] 2 3 p root = Some (Inr ())"
  using merkle_proof_complete [of 2 "[[1], [2], [3]]" sample_hash] by simp

text \<open>C8: A chunk whose proof verifies against the root of the committed chunks is the committed chunk at that
  index, and the proof is the one the sender builds, unless two of the inputs hashed for the
  tree, the proof and the two leaves collide. Hashes are 32 bytes long.\<close>

theorem merkle_chunk_binding:
  assumes len: "\<And>x. length (H x) = 32"
    and siblings: "\<forall>s \<in> set p. length (ps_hash s) = 32"
    and size: "length cts < 2 ^ 64" and n: "unat n = length cts"
    and root: "merkle_root H (chunk_leaves H cts) = Some root"
    and verified: "verify_proof H (leaf_hash H i ct) i n p root = Some (Inr ())"
    and no_collision: "inj_on H (set (tree_inputs H (chunk_leaves H cts)) \<union>
      set (climb_inputs H (leaf_hash H i ct) p) \<union> {leaf_input i ct, leaf_input i (cts ! unat i)})"
  shows "ct = cts ! unat i \<and> build_proof H (chunk_leaves H cts) (unat i) = Some (Inr p)"
proof -
  have i: "unat i < length cts"
    and dirs: "map ps_direction p = dirs_of (length (chunk_leaves H cts)) (unat i)"
    and climb: "climb H (leaf_hash H i ct) p = root_of H (chunk_leaves H cts)"
    using verified root n unfolding verify_proof_iff merkle_root_eq by (auto simp: word_less_nat_alt)
  have "list_all (\<lambda>l. length l = 32) (chunk_leaves H cts)"
    by (simp add: list_all_length nth_chunk_leaves leaf_hash_input len)
  moreover have "proof_ok (leaf_hash H i ct) p"
    using siblings by (simp add: proof_ok_def leaf_hash_input len)
  ultimately have u: "leaf_hash H i ct = chunk_leaves H cts ! unat i \<and> p = proof_of H (chunk_leaves H cts) (unat i)"
    using i dirs climb no_collision by (intro climb_unique) (auto simp: len elim: inj_on_subset)
  then have "H (leaf_input i ct) = H (leaf_input i (cts ! unat i))"
    using i by (simp add: nth_chunk_leaves leaf_hash_input)
  then have "leaf_input i ct = leaf_input i (cts ! unat i)"
    by (rule inj_onD [OF no_collision]) simp_all
  then have "ct = cts ! unat i"
    by (simp add: leaf_input_def)
  with u i show ?thesis by (simp add: build_proof_eq)
qed

lemma lpb_2: "lpb 2 = 1"
  by code_simp

lemma two_leaves:
  "root_of H [a, b] = H (NODE_DOMAIN @ a @ b)" "tree_inputs H [a, b] = [NODE_DOMAIN @ a @ b]"
  "dirs_of 2 (Suc 0) = [DLeft]"
proof -
  have k: "1 = lpb (length [a, b])" by (simp add: lpb_2 flip: numeral_2_eq_2)
  have l: "root_of H [x] = x" for x by (simp add: leaf_case)
  note n = node_case [of "[a, b]", OF _ k]
  show "root_of H [a, b] = H (NODE_DOMAIN @ a @ b)" "tree_inputs H [a, b] = [NODE_DOMAIN @ a @ b]"
    using n(3,4) [of H] by (simp_all add: l leaf_case)
  show "dirs_of 2 (Suc 0) = [DLeft]"
    using n(8) [of 1] leaf_case(3) [of "[a]" 0] by (simp flip: numeral_2_eq_2)
qed

theorem merkle_chunk_binding_witness:
  "build_proof sample_hash (chunk_leaves sample_hash [[1, 2, 3], [5, 6]]) 1 =
      Some (Inr [\<lparr>ps_direction = DLeft, ps_hash = leaf_hash sample_hash 0 [1, 2, 3]\<rparr>])"
proof -
  let ?cts = "[[1, 2, 3], [5, 6]] :: bytes list"
  let ?p = "[\<lparr>ps_direction = DLeft, ps_hash = leaf_hash sample_hash 0 [1, 2, 3]\<rparr>]"
  let ?l = "leaf_hash sample_hash 1 [5, 6]"
  let ?root = "root_of sample_hash (chunk_leaves sample_hash ?cts)"
  let ?node = "NODE_DOMAIN @ leaf_hash sample_hash 0 [1, 2, 3] @ ?l"
  have cl: "chunk_leaves sample_hash ?cts = [leaf_hash sample_hash 0 [1, 2, 3], ?l]"
    by (simp add: chunk_leaves_def upt_rec)
  have climb: "climb sample_hash ?l ?p = sample_hash ?node" "climb_inputs sample_hash ?l ?p = [?node]"
    by (simp_all add: climb_def climb_inputs_def step_input_def node_hash_def)
  have v: "verify_proof sample_hash ?l 1 2 ?p ?root = Some (Inr ())"
    by (simp add: verify_proof_iff cl climb two_leaves)
  have "sample_hash ?node \<noteq> sample_hash (leaf_input 1 [5, 6])"
    by code_simp
  then have "inj_on sample_hash (set (tree_inputs sample_hash (chunk_leaves sample_hash ?cts)) \<union>
      set (climb_inputs sample_hash ?l ?p) \<union> {leaf_input 1 [5, 6], leaf_input 1 (?cts ! unat (1::u64))})"
    by (auto simp: cl climb two_leaves)
  with v merkle_chunk_binding [of sample_hash ?p ?cts 2 ?root 1 "[5, 6]"] show ?thesis
    by (simp add: leaf_hash_input merkle_root_eq)
qed

text \<open>C22: Verification ends for every leaf count a peer may send, up to the largest 64-bit value. The plain
  doubling loop \<open>k * 2 < leaf_count\<close>, which the code avoids, does not end at that value.\<close>

theorem merkle_verify_terminates:
  "verify_proof H leaf index leaf_count siblings root \<noteq> None \<and>
   while_option (\<lambda>k. k * 2 < (- 1 :: u64)) (\<lambda>k. k * 2) 1 = None"
proof
  show "verify_proof H leaf index leaf_count siblings root \<noteq> None"
    by (simp add: verify_proof_def expected_directions_def expected_directions_eq Let_def)
  show "while_option (\<lambda>k. k * 2 < (- 1 :: u64)) (\<lambda>k. k * 2) 1 = None"
  proof (rule ccontr)
    assume "while_option (\<lambda>k. k * 2 < (- 1 :: u64)) (\<lambda>k. k * 2) 1 \<noteq> None"
    then obtain k where "while_option (\<lambda>k. k * 2 < (- 1 :: u64)) (\<lambda>k. k * 2) 1 = Some k" by blast
    then have "\<not> k * 2 < (- 1 :: u64)" by (rule while_option_stop)
    then have "k * 2 = -1" by (metis word_n1_ge antisym_conv2)
    then have "bit (k * 2) 0" by simp
    then show False by (simp add: bit_0)
  qed
qed

end
