(* ===== verification/Rtp_Crypto.thy ===== *)
theory Rtp_Crypto
  imports Rtp_Prelude
begin

text \<open>
  The suite constants of \<open>rtp2-core/src/crypto.rs\<close>, and the cryptographic primitives the core calls
  from other crates, gathered in one record that the definitions take as an argument. What the development
  relies on of them is stated as named predicates: the output lengths, and that opening
  an AEAD inverts sealing.
\<close>

definition SUITE_ID :: u16 where "SUITE_ID = 0x0001"
definition PROTOCOL_MAJOR :: u16 where "PROTOCOL_MAJOR = 2"
definition PROTOCOL_MINOR :: u16 where "PROTOCOL_MINOR = 0"
definition ALPN :: bytes where "ALPN = ascii ''reyta-transfer/2''"
definition HASH_LEN :: nat where "HASH_LEN = 48"
definition AEAD_TAG_LEN :: nat where "AEAD_TAG_LEN = 16"

record prims =
  blake3 :: "bytes \<Rightarrow> bytes"
  blake3_derive_key :: "bytes \<Rightarrow> bytes \<Rightarrow> bytes"
  blake3_keyed :: "bytes \<Rightarrow> bytes \<Rightarrow> bytes"
  prim_sha384 :: "bytes \<Rightarrow> bytes"
  prim_extract :: "bytes \<Rightarrow> bytes \<Rightarrow> bytes"
  prim_expand :: "bytes \<Rightarrow> bytes \<Rightarrow> nat \<Rightarrow> bytes"
  prim_hmac :: "bytes \<Rightarrow> bytes \<Rightarrow> bytes"
  aead_encrypt :: "bytes \<Rightarrow> bytes \<Rightarrow> bytes \<Rightarrow> bytes \<Rightarrow> bytes option"
  aead_decrypt :: "bytes \<Rightarrow> bytes \<Rightarrow> bytes \<Rightarrow> bytes \<Rightarrow> bytes option"

text \<open>The wrappers of \<open>crypto.rs\<close>.\<close>

definition sha384 :: "prims \<Rightarrow> bytes list \<Rightarrow> bytes" where
  "sha384 C parts = prim_sha384 C (concat parts)"

definition hkdf_extract :: "prims \<Rightarrow> bytes \<Rightarrow> bytes \<Rightarrow> bytes" where
  "hkdf_extract C salt ikm = prim_extract C salt ikm"

definition hkdf_expand :: "prims \<Rightarrow> nat \<Rightarrow> bytes \<Rightarrow> bytes list \<Rightarrow> bytes" where
  "hkdf_expand C N prk info = prim_expand C prk (concat info) N"

definition hmac_sha384 :: "prims \<Rightarrow> bytes \<Rightarrow> bytes \<Rightarrow> bytes" where
  "hmac_sha384 C key data = prim_hmac C key data"

definition ct_eq :: "bytes \<Rightarrow> bytes \<Rightarrow> bool" where
  "ct_eq a b \<longleftrightarrow> length a = length b \<and> list_all (\<lambda>(x, y). x = y) (zip a b)"

text \<open>
  \<open>aead_ok\<close>: XChaCha20-Poly1305 with a key of 32 and a nonce of 24 bytes encrypts every message, adds a 16-byte tag, and
  decrypts what it encrypted under the same key, nonce and associated data.
  \<open>aead_auth\<close>: it decrypts nothing else (the authenticity idealisation).
  \<open>kdf_lens\<close>: the derivations return as many bytes as they are asked for.
\<close>

definition aead_ok :: "prims \<Rightarrow> bool" where
  "aead_ok C \<longleftrightarrow> (\<forall>key nonce aad msg. length key = 32 \<and> length nonce = 24 \<longrightarrow>
    (\<exists>ct. aead_encrypt C key nonce aad msg = Some ct \<and> length ct = length msg + AEAD_TAG_LEN \<and>
      aead_decrypt C key nonce aad ct = Some msg))"

definition aead_auth :: "prims \<Rightarrow> bool" where
  "aead_auth C \<longleftrightarrow> (\<forall>key nonce aad msg ct. aead_decrypt C key nonce aad ct = Some msg \<longrightarrow>
    aead_encrypt C key nonce aad msg = Some ct)"

definition kdf_lens :: "prims \<Rightarrow> bool" where
  "kdf_lens C \<longleftrightarrow> (\<forall>prk info n. length (prim_expand C prk info n) = n) \<and>
    (\<forall>c m. length (blake3_derive_key C c m) = 32) \<and> (\<forall>m. length (blake3 C m) = 32) \<and>
    (\<forall>k m. length (blake3_keyed C k m) = 32) \<and> (\<forall>m. length (prim_sha384 C m) = HASH_LEN) \<and>
    (\<forall>s i. length (prim_extract C s i) = HASH_LEN) \<and> (\<forall>k m. length (prim_hmac C k m) = HASH_LEN)"

lemma ct_eq_iff [simp]: "ct_eq a b \<longleftrightarrow> a = b"
proof -
  have "length a = length b \<Longrightarrow> list_all (\<lambda>(x, y). x = y) (zip a b) \<longleftrightarrow> a = b"
    by (induction a b rule: list_induct2) auto
  then show ?thesis by (auto simp: ct_eq_def)
qed

lemma aead_okD:
  assumes "aead_ok C" and "length key = 32" and "length nonce = 24"
  obtains ct where "aead_encrypt C key nonce aad msg = Some ct" "length ct = length msg + 16"
    "aead_decrypt C key nonce aad ct = Some msg"
  using assms unfolding aead_ok_def AEAD_TAG_LEN_def by blast

lemma aead_iff:
  assumes "aead_ok C" and "aead_auth C" and "length key = 32" and "length nonce = 24"
  shows "aead_decrypt C key nonce aad ct = Some msg \<longleftrightarrow> aead_encrypt C key nonce aad msg = Some ct"
proof
  assume "aead_decrypt C key nonce aad ct = Some msg"
  then show "aead_encrypt C key nonce aad msg = Some ct"
    using assms(2) by (simp add: aead_auth_def)
next
  assume enc: "aead_encrypt C key nonce aad msg = Some ct"
  obtain ct' where "aead_encrypt C key nonce aad msg = Some ct'" "aead_decrypt C key nonce aad ct' = Some msg"
    using aead_okD [OF assms(1,3,4)] by metis
  with enc show "aead_decrypt C key nonce aad ct = Some msg" by simp
qed

lemma kdf_lensD:
  assumes "kdf_lens C"
  shows "length (hkdf_expand C n prk info) = n" "length (blake3_derive_key C c m) = 32"
    "length (blake3 C m) = 32" "length (blake3_keyed C k m) = 32" "length (sha384 C ps) = 48"
    "length (hkdf_extract C s i) = 48" "length (hmac_sha384 C k m) = 48"
  using assms by (simp_all add: kdf_lens_def hkdf_expand_def sha384_def hkdf_extract_def
      hmac_sha384_def HASH_LEN_def)

text \<open>Corresponding inputs of two computations do not collide.\<close>

definition no_collision :: "(bytes \<Rightarrow> bytes) \<Rightarrow> bytes list \<Rightarrow> bytes list \<Rightarrow> bool" where
  "no_collision H xs ys \<longleftrightarrow> list_all2 (\<lambda>x y. H x = H y \<longrightarrow> x = y) xs ys"

lemma no_collision_refl: "no_collision H xs xs"
  by (simp add: no_collision_def list_all2_same)

text \<open>
  Concrete primitives for examples: derivations pad a checksum to the length asked for, and the
  cipher appends a checksum of everything as its tag. They satisfy all three predicates.
\<close>

definition sample_kdf :: "nat \<Rightarrow> bytes \<Rightarrow> bytes" where
  "sample_kdf n x = take n (sample_hash x @ replicate n 0)"

definition sample_tag :: "bytes \<Rightarrow> bytes \<Rightarrow> bytes \<Rightarrow> bytes \<Rightarrow> bytes" where
  "sample_tag key nonce aad msg = drop 16 (sample_hash (key @ nonce @ aad @ msg))"

definition sample_encrypt :: "bytes \<Rightarrow> bytes \<Rightarrow> bytes \<Rightarrow> bytes \<Rightarrow> bytes option" where
  "sample_encrypt key nonce aad msg = Some (msg @ sample_tag key nonce aad msg)"

definition sample_decrypt :: "bytes \<Rightarrow> bytes \<Rightarrow> bytes \<Rightarrow> bytes \<Rightarrow> bytes option" where
  "sample_decrypt key nonce aad ct =
    (let msg = take (length ct - 16) ct in
     if ct = msg @ sample_tag key nonce aad msg then Some msg else None)"

definition sample_prims :: prims where
  "sample_prims = \<lparr>blake3 = sample_hash, blake3_derive_key = (\<lambda>c m. sample_hash (c @ m)),
     blake3_keyed = (\<lambda>k m. sample_hash (k @ m)), prim_sha384 = sample_kdf 48,
     prim_extract = (\<lambda>s i. sample_kdf 48 (s @ i)), prim_expand = (\<lambda>prk info n. sample_kdf n (prk @ info)),
     prim_hmac = (\<lambda>k m. sample_kdf 48 (k @ m)),
     aead_encrypt = sample_encrypt, aead_decrypt = sample_decrypt\<rparr>"

lemma length_sample_kdf [simp]: "length (sample_kdf n x) = n"
  by (simp add: sample_kdf_def min_def)

lemma length_sample_tag [simp]: "length (sample_tag key nonce aad msg) = 16"
  by (simp add: sample_tag_def)

lemma sample_prims_ok: "aead_ok sample_prims" "aead_auth sample_prims" "kdf_lens sample_prims"
proof -
  show "aead_ok sample_prims"
    by (simp add: aead_ok_def sample_prims_def sample_encrypt_def sample_decrypt_def AEAD_TAG_LEN_def)
  show "aead_auth sample_prims"
    by (auto simp: aead_auth_def sample_prims_def sample_encrypt_def sample_decrypt_def Let_def
        split: if_splits)
  show "kdf_lens sample_prims"
    by (simp add: kdf_lens_def sample_prims_def HASH_LEN_def)
qed

end
