(* ===== verification/Rtp_Keys.thy ===== *)
theory Rtp_Keys
  imports Rtp_Cbor Rtp_Crypto
begin

text \<open>
  The file key hierarchy and the key envelope, \<open>rtp2-core/src/keys.rs\<close>. The random draws of
  \<open>generate\<close> and of the envelope nonce are arguments. Zeroing memory has no counterpart.

  \<open>env_body\<close> is the plaintext of an envelope; the lemmas show that opening accepts exactly what sealing
  with this suite produces.
\<close>

section \<open>Definitions\<close>

definition CHUNK_NONCE_CONTEXT :: bytes where
  "CHUNK_NONCE_CONTEXT = ascii ''Reyta RTP2 2026-08-01 chunk nonce v1''"

datatype key_error = KeyError

record file_secrets =
  fs_transfer_id :: bytes
  fs_object_id :: bytes
  file_master_key :: bytes
  fs_nonce_seed :: bytes

record file_key_schedule =
  ks_transfer_id :: bytes
  ks_object_id :: bytes
  ks_nonce_seed :: bytes
  ks_manifest_key :: bytes
  chunk_key_base :: bytes

text \<open>\<open>generate\<close>, with the four values drawn from the operating system as arguments.\<close>

definition fs_generate :: "bytes \<Rightarrow> bytes \<Rightarrow> bytes \<Rightarrow> bytes \<Rightarrow> file_secrets" where
  "fs_generate r1 r2 r3 r4 =
    \<lparr>fs_transfer_id = r1, fs_object_id = r2, file_master_key = r3, fs_nonce_seed = r4\<rparr>"

definition fs_from_parts :: "bytes \<Rightarrow> bytes \<Rightarrow> bytes \<Rightarrow> bytes \<Rightarrow> file_secrets" where
  "fs_from_parts transfer_id object_id master seed =
    \<lparr>fs_transfer_id = transfer_id, fs_object_id = object_id, file_master_key = master, fs_nonce_seed = seed\<rparr>"

definition key_schedule :: "prims \<Rightarrow> file_secrets \<Rightarrow> file_key_schedule" where
  "key_schedule C s =
    (let salt = sha384 C [ascii ''RTP2-FILE-SALT-v1'', fs_transfer_id s, fs_object_id s];
         file_prk = hkdf_extract C salt (file_master_key s);
         manifest_key = hkdf_expand C 32 file_prk [ascii ''RTP2 private manifest key v1''];
         base = hkdf_expand C 48 file_prk [ascii ''RTP2 chunk key base v1''] in
     \<lparr>ks_transfer_id = fs_transfer_id s, ks_object_id = fs_object_id s, ks_nonce_seed = fs_nonce_seed s,
      ks_manifest_key = manifest_key, chunk_key_base = base\<rparr>)"

definition chunk_key :: "prims \<Rightarrow> file_key_schedule \<Rightarrow> u64 \<Rightarrow> bytes" where
  "chunk_key C ks index =
    hkdf_expand C 32 (chunk_key_base ks) [ascii ''RTP2-CHUNK-KEY-v1'', ks_object_id ks, to_be index]"

definition chunk_nonce :: "prims \<Rightarrow> file_key_schedule \<Rightarrow> u64 \<Rightarrow> bytes" where
  "chunk_nonce C ks index =
    (let material = ks_nonce_seed ks @ ks_transfer_id ks @ ks_object_id ks @ to_be index;
         derived = blake3_derive_key C CHUNK_NONCE_CONTEXT material in
     take 24 derived)"

definition ENVELOPE_AAD :: bytes where
  "ENVELOPE_AAD = ascii ''RTP2-ENVELOPE-AAD-v1''"

definition envelope_key :: "prims \<Rightarrow> bytes \<Rightarrow> bytes" where
  "envelope_key C transfer_wrap_key =
    (let prk = hkdf_extract C (ascii ''RTP2-ENVELOPE-SALT-v1'') transfer_wrap_key in
     hkdf_expand C 32 prk [ascii ''RTP2 envelope key v1''])"

record sealed_envelope =
  se_nonce :: bytes
  se_ciphertext :: bytes

text \<open>The plaintext map of an envelope.\<close>

definition env_body :: "file_secrets \<Rightarrow> u64 \<Rightarrow> u64 \<Rightarrow> bytes \<Rightarrow> bytes \<Rightarrow> u16 \<Rightarrow> bytes option" where
  "env_body secrets created_at expires_at sender_device_id recipient_device_id suite_id = do {
     let m = mw_begin [] 9;
     m \<leftarrow> mw_bytes m 0 (fs_transfer_id secrets);
     m \<leftarrow> mw_bytes m 1 (fs_object_id secrets);
     m \<leftarrow> mw_bytes m 2 (file_master_key secrets);
     m \<leftarrow> mw_bytes m 3 (fs_nonce_seed secrets);
     m \<leftarrow> mw_uint m 4 (ucast suite_id);
     m \<leftarrow> mw_uint m 5 created_at;
     m \<leftarrow> mw_uint m 6 expires_at;
     m \<leftarrow> mw_bytes m 7 sender_device_id;
     m \<leftarrow> mw_bytes m 8 recipient_device_id;
     mw_end m }"

text \<open>\<open>None\<close> is a panic of the encoder; \<open>nonce\<close> is the fresh random value.\<close>

definition seal_envelope_with_suite ::
  "prims \<Rightarrow> bytes \<Rightarrow> file_secrets \<Rightarrow> bytes \<Rightarrow> u64 \<Rightarrow> u64 \<Rightarrow> bytes \<Rightarrow> bytes \<Rightarrow> u16 \<Rightarrow>
   (key_error + sealed_envelope) option" where
  "seal_envelope_with_suite C nonce secrets transfer_wrap_key created_at expires_at sender recipient suite_id = do {
     plaintext \<leftarrow> env_body secrets created_at expires_at sender recipient suite_id;
     let key = envelope_key C transfer_wrap_key;
     Some (qm id (ok_or KeyError (aead_encrypt C key nonce ENVELOPE_AAD plaintext)) (\<lambda>ciphertext.
       Inr \<lparr>se_nonce = nonce, se_ciphertext = ciphertext\<rparr>)) }"

definition seal_envelope ::
  "prims \<Rightarrow> bytes \<Rightarrow> file_secrets \<Rightarrow> bytes \<Rightarrow> u64 \<Rightarrow> u64 \<Rightarrow> bytes \<Rightarrow> bytes \<Rightarrow> (key_error + sealed_envelope) option" where
  "seal_envelope C nonce secrets transfer_wrap_key created_at expires_at sender recipient =
    seal_envelope_with_suite C nonce secrets transfer_wrap_key created_at expires_at sender recipient SUITE_ID"

record opened_envelope =
  oe_secrets :: file_secrets
  oe_suite_id :: u16
  oe_created_at :: u64
  oe_expires_at :: u64
  oe_sender_device_id :: bytes
  oe_recipient_device_id :: bytes

definition key_err :: "cbor_error \<Rightarrow> key_error" where
  "key_err e = KeyError"

definition open_body :: "bytes \<Rightarrow> key_error + opened_envelope" where
  "open_body plaintext =
    qm key_err (r_new plaintext) (\<lambda>r.
    qm key_err (r_map r) (\<lambda>m.
    qm id (mr_field key_err 0 (r_bytes_exact 32) m) (\<lambda>(transfer_id, m).
    qm id (mr_field key_err 1 (r_bytes_exact 32) m) (\<lambda>(object_id, m).
    qm id (mr_field key_err 2 (r_bytes_exact 32) m) (\<lambda>(master, m).
    qm id (mr_field key_err 3 (r_bytes_exact 32) m) (\<lambda>(seed, m).
    qm id (mr_field key_err 4 r_uint m) (\<lambda>(suite_id, m).
    qm id (mr_field key_err 5 r_uint m) (\<lambda>(created_at, m).
    qm id (mr_field key_err 6 r_uint m) (\<lambda>(expires_at, m).
    qm id (mr_field key_err 7 (r_bytes_exact 32) m) (\<lambda>(sender, m).
    qm id (mr_field key_err 8 (r_bytes_exact 32) m) (\<lambda>(recipient, m).
    qm id (mr_no_more key_err KeyError m) (\<lambda>m.
    qm key_err (r_finish (mr_reader m)) (\<lambda>_.
    if suite_id \<noteq> ucast SUITE_ID then Inl KeyError
    else Inr \<lparr>oe_secrets = fs_from_parts transfer_id object_id master seed, oe_suite_id = ucast suite_id,
      oe_created_at = created_at, oe_expires_at = expires_at, oe_sender_device_id = sender,
      oe_recipient_device_id = recipient\<rparr>)))))))))))))"

definition open_envelope :: "prims \<Rightarrow> sealed_envelope \<Rightarrow> bytes \<Rightarrow> key_error + opened_envelope" where
  "open_envelope C envelope transfer_wrap_key =
    (let key = envelope_key C transfer_wrap_key in
     qm id (ok_or KeyError (aead_decrypt C key (se_nonce envelope) ENVELOPE_AAD (se_ciphertext envelope)))
       open_body)"

definition open_envelope_at :: "prims \<Rightarrow> sealed_envelope \<Rightarrow> bytes \<Rightarrow> u64 \<Rightarrow> key_error + opened_envelope" where
  "open_envelope_at C envelope transfer_wrap_key now =
    qm id (open_envelope C envelope transfer_wrap_key) (\<lambda>opened.
      if now \<ge> oe_expires_at opened then Inl KeyError
      else if oe_created_at opened > sat_add now 300 then Inl KeyError
      else Inr opened)"

section \<open>The envelope body\<close>

definition env_bytes :: "opened_envelope \<Rightarrow> bytes" where
  "env_bytes e = enc_map 9 @
     enc_uint 0 @ enc_bytes (fs_transfer_id (oe_secrets e)) @
     enc_uint 1 @ enc_bytes (fs_object_id (oe_secrets e)) @
     enc_uint 2 @ enc_bytes (file_master_key (oe_secrets e)) @
     enc_uint 3 @ enc_bytes (fs_nonce_seed (oe_secrets e)) @
     enc_uint 4 @ enc_uint (ucast (oe_suite_id e)) @
     enc_uint 5 @ enc_uint (oe_created_at e) @
     enc_uint 6 @ enc_uint (oe_expires_at e) @
     enc_uint 7 @ enc_bytes (oe_sender_device_id e) @
     enc_uint 8 @ enc_bytes (oe_recipient_device_id e)"

definition fs_ok :: "file_secrets \<Rightarrow> bool" where
  "fs_ok s \<longleftrightarrow> length (fs_transfer_id s) = 32 \<and> length (fs_object_id s) = 32 \<and>
    length (file_master_key s) = 32 \<and> length (fs_nonce_seed s) = 32"

definition oe_ok :: "opened_envelope \<Rightarrow> bool" where
  "oe_ok e \<longleftrightarrow> fs_ok (oe_secrets e) \<and> length (oe_sender_device_id e) = 32 \<and>
    length (oe_recipient_device_id e) = 32 \<and> oe_suite_id e = SUITE_ID"

lemma env_body_eq: "env_body s c x sd rc su =
    Some (env_bytes \<lparr>oe_secrets = s, oe_suite_id = su, oe_created_at = c, oe_expires_at = x,
      oe_sender_device_id = sd, oe_recipient_device_id = rc\<rparr>)"
  by (simp add: env_body_def mw_simps env_bytes_def)

lemma open_body_fwd:
  assumes "oe_ok e" and "length (env_bytes e) \<le> MAX_CONTROL_SIZE"
  shows "open_body (env_bytes e) = Inr e"
  using assms
  by (cases e; cases "oe_secrets e")
    (simp add: open_body_def oe_ok_def fs_ok_def env_bytes_def fs_from_parts_def r_new_eq cbor_fwd
      MAX_DEPTH_def SUITE_ID_def)

lemma open_body_inv:
  assumes "open_body bs = Inr e"
  shows "oe_ok e \<and> bs = env_bytes e \<and> length bs \<le> MAX_CONTROL_SIZE"
  using assms
  by (auto simp: open_body_def res_iff cbor_iff oe_ok_def env_bytes_def fs_ok_def fs_from_parts_def
      SUITE_ID_def)

lemma length_env_bytes:
  assumes "oe_ok e"
  shows "length (env_bytes e) \<le> MAX_CONTROL_SIZE"
proof -
  have "length (enc_bytes b) \<le> 41" if "length b = 32" for b
    using length_enc(4) [of b] that by simp
  then have b: "length (enc_bytes (fs_transfer_id (oe_secrets e))) \<le> 41"
    "length (enc_bytes (fs_object_id (oe_secrets e))) \<le> 41"
    "length (enc_bytes (file_master_key (oe_secrets e))) \<le> 41"
    "length (enc_bytes (fs_nonce_seed (oe_secrets e))) \<le> 41"
    "length (enc_bytes (oe_sender_device_id e)) \<le> 41" "length (enc_bytes (oe_recipient_device_id e)) \<le> 41"
    using assms by (simp_all add: oe_ok_def fs_ok_def)
  show ?thesis
    unfolding env_bytes_def length_append MAX_CONTROL_SIZE_def
    using b length_enc(1) [of 0] length_enc(1) [of 1] length_enc(1) [of 2] length_enc(1) [of 3]
      length_enc(1) [of 4] length_enc(1) [of 5] length_enc(1) [of 6] length_enc(1) [of 7]
      length_enc(1) [of 8] length_enc(1) [of "ucast (oe_suite_id e)"] length_enc(1) [of "oe_created_at e"]
      length_enc(1) [of "oe_expires_at e"] length_enc(2) [of 9]
    by linarith
qed

lemma open_body_iff: "open_body bs = Inr e \<longleftrightarrow> oe_ok e \<and> bs = env_bytes e"
  using open_body_fwd open_body_inv length_env_bytes by blast

section \<open>Properties\<close>

text \<open>C23: An envelope opens at a given time exactly when it is what sealing its contents under the same
  wrap key and nonce produces with this suite, it has not expired, and it is not dated more than 300 seconds
  ahead. In particular sealing then opening gives the file secrets back, and no other ciphertext opens.\<close>

theorem envelope_open_exact:
  assumes "aead_ok C" and "aead_auth C" and "kdf_lens C" and "length (se_nonce env) = 24"
  shows "open_envelope_at C env wrap now = Inr e \<longleftrightarrow>
    oe_ok e \<and>
    seal_envelope C (se_nonce env) (oe_secrets e) wrap (oe_created_at e) (oe_expires_at e)
      (oe_sender_device_id e) (oe_recipient_device_id e) = Some (Inr env) \<and>
    now < oe_expires_at e \<and> oe_created_at e \<le> sat_add now 300"
proof -
  let ?k = "envelope_key C wrap" and ?n = "se_nonce env" and ?ct = "se_ciphertext env"
  have k: "length ?k = 32"
    using assms(3) by (simp add: envelope_key_def Let_def kdf_lensD)
  note iff = aead_iff [OF assms(1,2) k assms(4), of ENVELOPE_AAD ?ct]
  have "open_envelope C env wrap = Inr e \<longleftrightarrow>
      oe_ok e \<and> aead_encrypt C ?k ?n ENVELOPE_AAD (env_bytes e) = Some ?ct"
    by (auto simp: open_envelope_def Let_def res_iff open_body_iff iff)
  moreover have "seal_envelope C ?n (oe_secrets e) wrap (oe_created_at e) (oe_expires_at e)
      (oe_sender_device_id e) (oe_recipient_device_id e) = Some (Inr env) \<longleftrightarrow>
      aead_encrypt C ?k ?n ENVELOPE_AAD (env_bytes e) = Some ?ct" if "oe_ok e"
    using that
    by (cases env; cases e) (auto simp: seal_envelope_def seal_envelope_with_suite_def env_body_eq
        Let_def res_iff oe_ok_def)
  ultimately show ?thesis
    by (auto simp: open_envelope_at_def res_iff)
qed

definition sample_secrets :: file_secrets where
  "sample_secrets = \<lparr>fs_transfer_id = replicate 32 1, fs_object_id = replicate 32 2,
     file_master_key = replicate 32 3, fs_nonce_seed = replicate 32 4\<rparr>"

definition sample_opened :: opened_envelope where
  "sample_opened = \<lparr>oe_secrets = sample_secrets, oe_suite_id = SUITE_ID, oe_created_at = 100,
     oe_expires_at = 2000, oe_sender_device_id = replicate 32 5, oe_recipient_device_id = replicate 32 6\<rparr>"

theorem envelope_open_exact_witness:
  "\<exists>env. seal_envelope sample_prims (replicate 24 9) sample_secrets (replicate 32 7) 100 2000
      (replicate 32 5) (replicate 32 6) = Some (Inr env) \<and>
    open_envelope_at sample_prims env (replicate 32 7) 150 = Inr sample_opened"
proof -
  obtain env where env: "seal_envelope sample_prims (replicate 24 9) sample_secrets (replicate 32 7) 100 2000
      (replicate 32 5) (replicate 32 6) = Some (Inr env)" "se_nonce env = replicate 24 9"
    by (simp add: seal_envelope_def seal_envelope_with_suite_def env_body_eq Let_def
        sample_prims_def sample_encrypt_def)
  have "oe_ok sample_opened"
    by (simp add: oe_ok_def sample_opened_def fs_ok_def sample_secrets_def)
  moreover have "100 \<le> sat_add 150 300"
    by (simp add: sat_add_def)
  ultimately show ?thesis
    using env envelope_open_exact [OF sample_prims_ok, of env "replicate 32 7" 150 sample_opened]
    by (auto simp: sample_opened_def)
qed

end
