(* ===== verification/Rtp_Object.thy ===== *)
theory Rtp_Object
  imports Rtp_Keys
begin

text \<open>
  Object geometry and chunk encryption, \<open>rtp2-core/src/object.rs\<close>. Arithmetic on sizes is on
  64-bit words and wraps, as in a release build; the lemmas show that it does not wrap for a
  context made by \<open>for_file\<close>.
\<close>

section \<open>Definitions\<close>

definition ALLOWED_CHUNK_SIZES :: "u32 list" where
  "ALLOWED_CHUNK_SIZES = [64 * 1024, 128 * 1024, 256 * 1024, 512 * 1024, 1024 * 1024, 2 * 1024 * 1024,
     4 * 1024 * 1024]"

definition OBJ_MAX_CHUNK_COUNT :: u64 where
  "OBJ_MAX_CHUNK_COUNT = push_bit 32 1"

definition PADDING_NONE :: u8 where "PADDING_NONE = 0"
definition ROLE_PRIMARY :: u8 where "ROLE_PRIMARY = 0"

datatype object_error = ObjectError

record object_context =
  oc_transfer_id :: bytes
  oc_object_id :: bytes
  logical_plaintext_size :: u64
  encoded_plaintext_size :: u64
  chunk_plaintext_size :: u32
  oc_chunk_count :: u64
  padding_policy :: u8
  object_role :: u8

definition for_file :: "bytes \<Rightarrow> bytes \<Rightarrow> u64 \<Rightarrow> u32 \<Rightarrow> object_error + object_context" where
  "for_file transfer_id object_id file_size chunk_size =
    (if chunk_size \<notin> set ALLOWED_CHUNK_SIZES then Inl ObjectError
     else
       let n = (if file_size = 0 then 0 else div_ceil file_size (ucast chunk_size)) in
       if n > OBJ_MAX_CHUNK_COUNT then Inl ObjectError
       else Inr \<lparr>oc_transfer_id = transfer_id, oc_object_id = object_id,
         logical_plaintext_size = file_size, encoded_plaintext_size = file_size,
         chunk_plaintext_size = chunk_size, oc_chunk_count = n,
         padding_policy = PADDING_NONE, object_role = ROLE_PRIMARY\<rparr>)"

definition oc_encode :: "object_context \<Rightarrow> bytes option" where
  "oc_encode c = do {
     let m = mw_begin [] 10;
     m \<leftarrow> mw_uint m 0 (ucast PROTOCOL_MAJOR);
     m \<leftarrow> mw_uint m 1 (ucast SUITE_ID);
     m \<leftarrow> mw_bytes m 2 (oc_transfer_id c);
     m \<leftarrow> mw_bytes m 3 (oc_object_id c);
     m \<leftarrow> mw_uint m 4 (logical_plaintext_size c);
     m \<leftarrow> mw_uint m 5 (encoded_plaintext_size c);
     m \<leftarrow> mw_uint m 6 (ucast (chunk_plaintext_size c));
     m \<leftarrow> mw_uint m 7 (oc_chunk_count c);
     m \<leftarrow> mw_uint m 8 (ucast (padding_policy c));
     m \<leftarrow> mw_uint m 9 (ucast (object_role c));
     mw_end m }"

definition context_hash :: "prims \<Rightarrow> object_context \<Rightarrow> bytes option" where
  "context_hash C c = do {
     e \<leftarrow> oc_encode c;
     Some (blake3 C (ascii ''RTP2-OBJECT-CONTEXT-v1'' @ e)) }"

definition chunk_ciphertext_size :: "object_context \<Rightarrow> u64" where
  "chunk_ciphertext_size c = ucast (chunk_plaintext_size c) + of_nat AEAD_TAG_LEN"

definition ciphertext_size :: "object_context \<Rightarrow> u64" where
  "ciphertext_size c =
    (if oc_chunk_count c = 0 then 0
     else encoded_plaintext_size c + oc_chunk_count c * of_nat AEAD_TAG_LEN)"

definition chunk_len :: "object_context \<Rightarrow> u64 \<Rightarrow> object_error + u32" where
  "chunk_len c index =
    (if index \<ge> oc_chunk_count c then Inl ObjectError
     else
       let start = index * ucast (chunk_plaintext_size c);
           remaining = encoded_plaintext_size c - start in
       Inr (ucast (min remaining (ucast (chunk_plaintext_size c)))))"

definition chunk_ciphertext_len :: "object_context \<Rightarrow> u64 \<Rightarrow> object_error + nat" where
  "chunk_ciphertext_len c index = qm id (chunk_len c index) (\<lambda>l. Inr (unat l + AEAD_TAG_LEN))"

definition chunk_plaintext_size_from_ciphertext :: "u64 \<Rightarrow> object_error + u32" where
  "chunk_plaintext_size_from_ciphertext ciphertext =
    ok_or ObjectError
      (case checked_sub ciphertext (of_nat AEAD_TAG_LEN) of
         None \<Rightarrow> None
       | Some v \<Rightarrow> if v \<le> 0xFFFFFFFF then Some (ucast v) else None)"

definition chunk_aad :: "object_context \<Rightarrow> bytes \<Rightarrow> u64 \<Rightarrow> u64 \<Rightarrow> u32 \<Rightarrow> u32 \<Rightarrow> bytes" where
  "chunk_aad ctx object_context_hash chunk_index plaintext_offset actual_plaintext_len chunk_flags =
    ascii ''RTP2CHNK'' @ to_be PROTOCOL_MAJOR @ to_be SUITE_ID @ oc_transfer_id ctx @ oc_object_id ctx @
    object_context_hash @ to_be chunk_index @ to_be plaintext_offset @ to_be actual_plaintext_len @
    to_be chunk_flags"

definition encrypt_chunk ::
  "prims \<Rightarrow> file_key_schedule \<Rightarrow> object_context \<Rightarrow> bytes \<Rightarrow> u64 \<Rightarrow> bytes \<Rightarrow> object_error + bytes" where
  "encrypt_chunk C schedule ctx object_context_hash index plaintext =
    qm id (chunk_len ctx index) (\<lambda>expected.
      if length plaintext \<noteq> unat expected then Inl ObjectError
      else
        let key = chunk_key C schedule index;
            nonce = chunk_nonce C schedule index;
            aad = chunk_aad ctx object_context_hash index (index * ucast (chunk_plaintext_size ctx)) expected 0 in
        ok_or ObjectError (aead_encrypt C key nonce aad plaintext))"

definition decrypt_chunk ::
  "prims \<Rightarrow> file_key_schedule \<Rightarrow> object_context \<Rightarrow> bytes \<Rightarrow> u64 \<Rightarrow> bytes \<Rightarrow> object_error + bytes" where
  "decrypt_chunk C schedule ctx object_context_hash index ciphertext =
    qm id (chunk_len ctx index) (\<lambda>expected.
      if length ciphertext \<noteq> unat expected + AEAD_TAG_LEN then Inl ObjectError
      else
        let key = chunk_key C schedule index;
            nonce = chunk_nonce C schedule index;
            aad = chunk_aad ctx object_context_hash index (index * ucast (chunk_plaintext_size ctx)) expected 0 in
        qm id (ok_or ObjectError (aead_decrypt C key nonce aad ciphertext)) (\<lambda>plaintext.
          if length plaintext \<noteq> unat expected then Inl ObjectError else Inr plaintext))"

section \<open>Geometry of a file\<close>

text \<open>What \<open>for_file\<close> establishes, in natural numbers.\<close>

definition oc_ok :: "object_context \<Rightarrow> bool" where
  "oc_ok c \<longleftrightarrow> chunk_plaintext_size c \<in> set ALLOWED_CHUNK_SIZES \<and>
    logical_plaintext_size c = encoded_plaintext_size c \<and> unat (oc_chunk_count c) \<le> 2 ^ 32 \<and>
    unat (oc_chunk_count c) =
      (unat (encoded_plaintext_size c) + unat (chunk_plaintext_size c) - 1) div unat (chunk_plaintext_size c) \<and>
    padding_policy c = PADDING_NONE \<and> object_role c = ROLE_PRIMARY"

lemma allowed_sizes: "s \<in> set ALLOWED_CHUNK_SIZES \<Longrightarrow> 65536 \<le> unat s \<and> unat s \<le> 4194304"
  by (auto simp: ALLOWED_CHUNK_SIZES_def)

lemma unat_ucast_u32: "unat (ucast (s :: u32) :: u64) = unat s"
  using unat_u32_less [of s] by (simp add: unsigned_ucast_eq take_bit_nat_eq_self)

lemma nat_div_ceil:
  fixes m s :: nat
  assumes "0 < s"
  shows "(m + s - 1) div s = (if m mod s = 0 then m div s else Suc (m div s))"
proof -
  define q r where "q = m div s" and "r = m mod s"
  then have m: "m = s * q + r" "r < s" using assms by simp_all
  have "(m + s - 1) div s = (if r = 0 then q else Suc q)"
    using m assms by (auto intro!: div_nat_eqI)
  then show ?thesis by (simp add: q_def r_def)
qed

lemma unat_div_ceil:
  assumes "0 < unat b"
  shows "unat (div_ceil a b) = (unat a + unat b - 1) div unat b"
proof -
  have le: "unat a div unat b \<le> unat a" by simp
  have "unat (a div b + 1) = Suc (unat a div unat b)" if "0 < unat a mod unat b"
  proof -
    have "unat a div unat b + 1 < 2 ^ 64"
    proof (cases "unat b = 1")
      case False
      with assms have "2 \<le> unat b" by simp
      then have "unat a div unat b \<le> unat a div 2" by (rule div_le_mono2 [rotated]) simp
      then show ?thesis using unat_u64_less [of a] by simp
    qed (use that in simp)
    then show ?thesis by (simp add: unat_add unat_div)
  qed
  then show ?thesis
    by (simp add: div_ceil_def Let_def word_less_nat_alt unat_div unat_mod nat_div_ceil [OF assms, unfolded One_nat_def])
qed

lemma for_file_ok:
  assumes "for_file t ob sz cs = Inr c"
  shows "oc_ok c \<and> oc_transfer_id c = t \<and> oc_object_id c = ob \<and> encoded_plaintext_size c = sz \<and>
    chunk_plaintext_size c = cs"
proof -
  have cs: "cs \<in> set ALLOWED_CHUNK_SIZES"
    using assms by (auto simp: for_file_def split: if_splits)
  then have pos: "0 < unat (ucast cs :: u64)"
    using allowed_sizes [OF cs] by (simp add: unat_ucast_u32)
  have "unat (OBJ_MAX_CHUNK_COUNT) = 2 ^ 32"
    by (simp add: OBJ_MAX_CHUNK_COUNT_def)
  then show ?thesis
    using assms cs unat_div_ceil [OF pos, of sz] allowed_sizes [OF cs]
    by (auto simp: for_file_def Let_def oc_ok_def word_less_nat_alt not_less unat_ucast_u32
        split: if_splits)
qed

lemma oc_count_bounds:
  assumes "oc_ok c" and "unat i < unat (oc_chunk_count c)"
  shows "unat i * unat (chunk_plaintext_size c) < unat (encoded_plaintext_size c)"
proof -
  let ?s = "unat (chunk_plaintext_size c)" and ?e = "unat (encoded_plaintext_size c)"
  have s: "0 < ?s" using assms(1) allowed_sizes by (force simp: oc_ok_def)
  have "unat i + 1 \<le> (?e + ?s - 1) div ?s"
    using assms by (simp add: oc_ok_def)
  then have "(unat i + 1) * ?s \<le> ?e + ?s - 1"
    using s by (metis div_times_less_eq_dividend le_trans mult_le_mono1)
  then show ?thesis using s by (simp add: algebra_simps)
qed

lemma chunk_len_eq:
  assumes "oc_ok c" and "i < oc_chunk_count c"
  shows "\<exists>l. chunk_len c i = Inr l \<and> unat l =
    min (unat (encoded_plaintext_size c) - unat i * unat (chunk_plaintext_size c)) (unat (chunk_plaintext_size c))"
proof -
  let ?s = "chunk_plaintext_size c"
  have lt: "unat i * unat ?s < unat (encoded_plaintext_size c)"
    using oc_count_bounds assms by (simp add: word_less_nat_alt)
  then have "unat i * unat (ucast ?s :: u64) < 2 ^ 64"
    using unat_u64_less [of "encoded_plaintext_size c"] by (simp add: unat_ucast_u32)
  then have m: "unat (i * ucast ?s) = unat i * unat ?s"
    by (simp add: unat_mult unat_ucast_u32)
  then have r: "unat (encoded_plaintext_size c - i * ucast ?s) = unat (encoded_plaintext_size c) - unat i * unat ?s"
    using lt by (simp add: unat_sub word_le_nat_alt)
  have "unat (ucast (min (encoded_plaintext_size c - i * ucast ?s) (ucast ?s)) :: u32) =
      min (unat (encoded_plaintext_size c) - unat i * unat ?s) (unat ?s)"
    using unat_u32_less [of ?s]
    by (simp add: unsigned_ucast_eq r min_def word_le_nat_alt unat_ucast_u32 take_bit_nat_eq_self)
  then show ?thesis
    using assms(2) by (simp add: chunk_len_def Let_def)
qed

lemma sum_chunks: "(\<Sum>i < n. min (e - i * s) s) = min e (n * s)" for e s n :: nat
  by (induction n) (auto simp: min_def)

lemma oc_total:
  assumes "oc_ok c"
  shows "unat (encoded_plaintext_size c) \<le> unat (oc_chunk_count c) * unat (chunk_plaintext_size c)"
proof -
  let ?s = "unat (chunk_plaintext_size c)" and ?e = "unat (encoded_plaintext_size c)"
  have s: "0 < ?s" using assms allowed_sizes by (force simp: oc_ok_def)
  have "?e + ?s - 1 < ((?e + ?s - 1) div ?s + 1) * ?s"
    using s dividend_less_div_times by (metis add.commute mult_Suc plus_1_eq_Suc)
  then show ?thesis
    using s assms by (simp add: oc_ok_def algebra_simps)
qed

definition clen :: "object_context \<Rightarrow> nat \<Rightarrow> nat" where
  "clen c i = (case chunk_len c (of_nat i) of Inr l \<Rightarrow> unat l | Inl _ \<Rightarrow> 0)"

lemma clen_eq:
  assumes "oc_ok c" and "i < unat (oc_chunk_count c)"
  shows "clen c i = min (unat (encoded_plaintext_size c) - i * unat (chunk_plaintext_size c))
    (unat (chunk_plaintext_size c))"
proof -
  have "unat (of_nat i :: u64) = i"
    using assms(2) unat_u64_less [of "oc_chunk_count c"] by simp
  with chunk_len_eq [OF assms(1), of "of_nat i"] assms(2) show ?thesis
    by (auto simp: clen_def word_less_nat_alt)
qed

lemma sum_clen:
  assumes "oc_ok c"
  shows "(\<Sum>i < unat (oc_chunk_count c). clen c i) = unat (encoded_plaintext_size c)"
  using oc_total [OF assms] by (simp add: clen_eq [OF assms] sum_chunks)

lemma unat_ciphertext_size:
  assumes "oc_ok c"
  shows "unat (ciphertext_size c) = unat (encoded_plaintext_size c) + 16 * unat (oc_chunk_count c)"
proof -
  let ?n = "unat (oc_chunk_count c)" and ?s = "unat (chunk_plaintext_size c)"
  have "?n \<le> 2 ^ 32" "?s \<le> 4194304"
    using assms allowed_sizes by (auto simp: oc_ok_def)
  then have "?n * ?s \<le> 2 ^ 32 * 4194304" by (rule mult_le_mono)
  then have e: "unat (encoded_plaintext_size c) \<le> 18014398509481984"
    using oc_total [OF assms] by simp
  then have m: "unat (oc_chunk_count c * 16) = ?n * 16"
    using \<open>?n \<le> 2 ^ 32\<close> by (subst unat_mult) simp_all
  have "?n = 0 \<Longrightarrow> unat (encoded_plaintext_size c) = 0"
    using oc_total [OF assms] by simp
  moreover have "unat (encoded_plaintext_size c + oc_chunk_count c * 16) =
      unat (encoded_plaintext_size c) + ?n * 16"
    using e m \<open>?n \<le> 2 ^ 32\<close> by (subst unat_add) simp_all
  ultimately show ?thesis
    by (simp add: ciphertext_size_def AEAD_TAG_LEN_def word_unat_eq_iff)
qed

lemma chunk_size_back:
  assumes "oc_ok c"
  shows "chunk_plaintext_size_from_ciphertext (chunk_ciphertext_size c) = Inr (chunk_plaintext_size c)"
proof -
  have "unat (ucast (chunk_plaintext_size c) + 16 :: u64) = unat (chunk_plaintext_size c) + 16"
    using assms allowed_sizes [of "chunk_plaintext_size c"] by (subst unat_add) (simp_all add: unat_ucast_u32 oc_ok_def)
  then have "16 \<le> (ucast (chunk_plaintext_size c) + 16 :: u64)" by (simp add: word_le_nat_alt)
  then show ?thesis
    by (simp add: chunk_plaintext_size_from_ciphertext_def chunk_ciphertext_size_def AEAD_TAG_LEN_def
        checked_sub_def ucast_up_le ucast_up_u64)
qed

section \<open>Properties\<close>

text \<open>C24: The chunks of a file made by \<open>for_file\<close> partition it: their lengths add up to the file size, all
  but the last are full, none is empty, the wire size is the sum of the chunk sizes with their tags (without
  overflow), and the receiver recovers the chunk size from the ciphertext chunk size.\<close>

theorem file_geometry:
  assumes "for_file transfer_id object_id file_size chunk_size = Inr c"
  shows "(\<Sum>i < unat (oc_chunk_count c). clen c i) = unat file_size \<and>
    (\<forall>i < unat (oc_chunk_count c). 0 < clen c i \<and> clen c i \<le> unat chunk_size \<and>
      (i + 1 < unat (oc_chunk_count c) \<longrightarrow> clen c i = unat chunk_size)) \<and>
    unat (ciphertext_size c) = (\<Sum>i < unat (oc_chunk_count c). clen c i + AEAD_TAG_LEN) \<and>
    chunk_plaintext_size_from_ciphertext (chunk_ciphertext_size c) = Inr chunk_size"
proof -
  have ok: "oc_ok c" and e: "encoded_plaintext_size c = file_size" "chunk_plaintext_size c = chunk_size"
    using for_file_ok [OF assms] by auto
  let ?n = "unat (oc_chunk_count c)" and ?s = "unat chunk_size"
  have s: "65536 \<le> ?s \<and> ?s \<le> 4194304"
    using ok allowed_sizes e by (auto simp: oc_ok_def)
  have lt: "i * ?s < unat file_size" if "i < ?n" for i
  proof -
    have "i < 2 ^ 64" using that unat_u64_less [of "oc_chunk_count c"] by simp
    then show ?thesis using oc_count_bounds [OF ok, of "of_nat i :: u64"] that e by simp
  qed
  have "0 < clen c i \<and> clen c i \<le> ?s \<and> (i + 1 < ?n \<longrightarrow> clen c i = ?s)" if "i < ?n" for i
    using lt [OF that] lt [of "i + 1"] s by (auto simp: clen_eq [OF ok that] e)
  moreover have "chunk_plaintext_size_from_ciphertext (chunk_ciphertext_size c) = Inr chunk_size"
    using chunk_size_back [OF ok] by (simp add: e)
  ultimately show ?thesis
    using sum_clen [OF ok] unat_ciphertext_size [OF ok]
    by (simp add: e AEAD_TAG_LEN_def sum.distrib)
qed

theorem file_geometry_witness:
  "\<exists>c. for_file (replicate 32 1) (replicate 32 2) 100000 65536 = Inr c \<and>
    (\<Sum>i < unat (oc_chunk_count c). clen c i) = 100000 \<and> oc_chunk_count c = 2"
proof -
  have "for_file (replicate 32 1) (replicate 32 2) 100000 65536 =
      Inr \<lparr>oc_transfer_id = replicate 32 1, oc_object_id = replicate 32 2, logical_plaintext_size = 100000,
        encoded_plaintext_size = 100000, chunk_plaintext_size = 65536, oc_chunk_count = 2,
        padding_policy = 0, object_role = 0\<rparr>"
    by (simp add: for_file_def ALLOWED_CHUNK_SIZES_def div_ceil_def OBJ_MAX_CHUNK_COUNT_def
        PADDING_NONE_def ROLE_PRIMARY_def)
  from this file_geometry [OF this] show ?thesis by auto
qed

text \<open>C25: A chunk decrypts to a plaintext exactly when encrypting that plaintext at the same index under
  the same schedule and context gives the chunk.\<close>

theorem chunk_decrypt_exact:
  assumes "aead_ok C" and "aead_auth C" and "kdf_lens C"
  shows "decrypt_chunk C schedule ctx h index ct = Inr pt \<longleftrightarrow> encrypt_chunk C schedule ctx h index pt = Inr ct"
proof (cases "chunk_len ctx index")
  case (Inr l)
  let ?k = "chunk_key C schedule index" and ?n = "chunk_nonce C schedule index"
    and ?a = "chunk_aad ctx h index (index * ucast (chunk_plaintext_size ctx)) l 0"
  have "length ?k = 32" "length ?n = 24"
    using assms(3) by (simp_all add: chunk_key_def chunk_nonce_def Let_def kdf_lensD)
  note iff = aead_iff [OF assms(1,2) this, of ?a ct pt]
  obtain ct' where "aead_encrypt C ?k ?n ?a pt = Some ct'" "length ct' = length pt + 16"
    using aead_okD [OF assms(1) \<open>length ?k = 32\<close> \<open>length ?n = 24\<close>] by metis
  with iff show ?thesis
    by (auto simp: decrypt_chunk_def encrypt_chunk_def Inr Let_def res_iff AEAD_TAG_LEN_def)
qed (simp add: decrypt_chunk_def encrypt_chunk_def)

theorem chunk_decrypt_exact_witness:
  "\<exists>ctx ct. for_file (replicate 32 1) (replicate 32 2) 3 65536 = Inr ctx \<and>
    encrypt_chunk sample_prims (key_schedule sample_prims sample_secrets) ctx (replicate 32 3) 0 [7, 8, 9] = Inr ct \<and>
    decrypt_chunk sample_prims (key_schedule sample_prims sample_secrets) ctx (replicate 32 3) 0 ct = Inr [7, 8, 9]"
proof -
  define ctx where "ctx = \<lparr>oc_transfer_id = replicate 32 1, oc_object_id = replicate 32 2, logical_plaintext_size = 3,
        encoded_plaintext_size = 3, chunk_plaintext_size = 65536, oc_chunk_count = 1,
        padding_policy = 0, object_role = 0\<rparr>"
  have f: "for_file (replicate 32 1) (replicate 32 2) 3 65536 = Inr ctx"
    by (simp add: for_file_def ALLOWED_CHUNK_SIZES_def div_ceil_def OBJ_MAX_CHUNK_COUNT_def
        PADDING_NONE_def ROLE_PRIMARY_def ctx_def)
  have "chunk_len ctx 0 = Inr 3"
    by (simp add: chunk_len_def ctx_def)
  then obtain ct where "encrypt_chunk sample_prims (key_schedule sample_prims sample_secrets) ctx
      (replicate 32 3) 0 [7, 8, 9] = Inr ct"
    by (simp add: encrypt_chunk_def Let_def sample_prims_def sample_encrypt_def)
  with f chunk_decrypt_exact [OF sample_prims_ok] show ?thesis by blast
qed

text \<open>The encoding of an object context never panics and determines the context, and the associated
  data of a chunk determines the identifiers, the context hash, the index, the offset and the length: a
  chunk ciphertext cannot be replayed under another position or object.\<close>

theorem object_binding:
  assumes "length (oc_transfer_id c) = 32" and "length (oc_transfer_id c') = 32"
    and "length (oc_object_id c) = 32" and "length (oc_object_id c') = 32"
    and "length h = 32" and "length h' = 32"
  shows "oc_encode c \<noteq> None \<and> (oc_encode c = oc_encode c' \<longrightarrow> c = c') \<and>
    (chunk_aad c h i off l f = chunk_aad c' h' i' off' l' f' \<longrightarrow>
      oc_transfer_id c = oc_transfer_id c' \<and> oc_object_id c = oc_object_id c' \<and> h = h' \<and> i = i' \<and>
      off = off' \<and> l = l' \<and> f = f')"
proof (intro conjI impI)
  show "oc_encode c \<noteq> None"
    by (simp add: oc_encode_def mw_simps)
  show "c = c'" if "oc_encode c = oc_encode c'"
    using that assms
    by (cases c; cases c') (simp add: oc_encode_def mw_simps enc_bytes_app)
qed (use assms in \<open>simp_all add: chunk_aad_def\<close>)

theorem object_binding_witness:
  "chunk_aad \<lparr>oc_transfer_id = replicate 32 1, oc_object_id = replicate 32 2, logical_plaintext_size = 3,
      encoded_plaintext_size = 3, chunk_plaintext_size = 65536, oc_chunk_count = 1,
      padding_policy = 0, object_role = 0\<rparr> (replicate 32 3) 0 0 3 0 \<noteq>
   chunk_aad \<lparr>oc_transfer_id = replicate 32 1, oc_object_id = replicate 32 2, logical_plaintext_size = 3,
      encoded_plaintext_size = 3, chunk_plaintext_size = 65536, oc_chunk_count = 1,
      padding_policy = 0, object_role = 0\<rparr> (replicate 32 3) 1 0 3 0"
  using object_binding [where h = "replicate 32 3" and h' = "replicate 32 3" and i = 0 and i' = 1
      and off = 0 and off' = 0 and l = 3 and l' = 3 and f = 0 and f' = 0 and
      c = "\<lparr>oc_transfer_id = replicate 32 1, oc_object_id = replicate 32 2, logical_plaintext_size = 3,
      encoded_plaintext_size = 3, chunk_plaintext_size = 65536, oc_chunk_count = 1,
      padding_policy = 0, object_role = 0\<rparr>" and
      c' = "\<lparr>oc_transfer_id = replicate 32 1, oc_object_id = replicate 32 2, logical_plaintext_size = 3,
      encoded_plaintext_size = 3, chunk_plaintext_size = 65536, oc_chunk_count = 1,
      padding_policy = 0, object_role = 0\<rparr>"] by simp

end
