(* ===== verification/Rtp_Scheduler.thy ===== *)
theory Rtp_Scheduler
  imports Rtp_Cbor Rtp_Bitmap "HOL-Library.Product_Lexorder"
begin

text \<open>
  The range scheduler, \<open>rtp2-core/src/scheduler.rs\<close>: the range request with its wire format and its
  validity check, the link-quality tables, and the choice of the next request.

  What the scheduler relies on of the bitmap is the locale \<open>gap_source\<close>: the missing ranges it is given
  are valid and name missing chunks only. It is interpreted on the bitmaps of \<open>Rtp_Bitmap\<close>.
\<close>

section \<open>Priorities\<close>

datatype priority = CriticalMetadata | FirstRender | UserVisibleNext | Sequential | Background | Repair

fun priority_u64 :: "priority \<Rightarrow> u64" where
  "priority_u64 CriticalMetadata = 0"
| "priority_u64 FirstRender = 1"
| "priority_u64 UserVisibleNext = 2"
| "priority_u64 Sequential = 3"
| "priority_u64 Background = 4"
| "priority_u64 Repair = 5"

definition priority_from_u64 :: "u64 \<Rightarrow> priority option" where
  "priority_from_u64 v =
    (if v = 0 then Some CriticalMetadata else if v = 1 then Some FirstRender
     else if v = 2 then Some UserVisibleNext else if v = 3 then Some Sequential
     else if v = 4 then Some Background else if v = 5 then Some Repair else None)"

lemma priority_u64_inj: "priority_u64 a = priority_u64 b \<Longrightarrow> a = b"
  by (cases a; cases b) simp_all

instantiation priority :: linorder
begin

definition less_eq_priority :: "priority \<Rightarrow> priority \<Rightarrow> bool" where
  "less_eq_priority a b \<longleftrightarrow> priority_u64 a \<le> priority_u64 b"

definition less_priority :: "priority \<Rightarrow> priority \<Rightarrow> bool" where
  "less_priority a b \<longleftrightarrow> priority_u64 a < priority_u64 b"

instance
  by standard (auto simp: less_eq_priority_def less_priority_def dest: priority_u64_inj)

end

datatype chunk_order = OrderSequential | OrderScattered

fun order_u64 :: "chunk_order \<Rightarrow> u64" where
  "order_u64 OrderSequential = 0"
| "order_u64 OrderScattered = 1"

datatype scheduler_error = Encoding | TooManyRanges | UnsortedOrOverlapping | EmptyRange | OutOfRange

definition sched_err :: "cbor_error \<Rightarrow> scheduler_error" where
  "sched_err e = Encoding"

section \<open>Range requests\<close>

type_synonym ranges = "(u64 \<times> u64) list"

record range_request =
  rr_transfer_id :: bytes
  rr_object_id :: bytes
  priority_class :: u64
  rr_ranges :: ranges
  max_bytes :: u64
  preferred_chunk_order :: u64
  durable_ack_generation :: u64

text \<open>The loop of \<open>validate\<close>; the flag is \<open>i > 0\<close>.\<close>

fun validate_loop :: "u64 \<Rightarrow> bool \<Rightarrow> u64 \<Rightarrow> ranges \<Rightarrow> scheduler_error + unit" where
  "validate_loop n later previous_end [] = Inr ()"
| "validate_loop n later previous_end ((start, fin) # rs) =
    (if fin \<le> start then Inl EmptyRange
     else if fin > n then Inl OutOfRange
     else if later \<and> start \<le> previous_end then Inl UnsortedOrOverlapping
     else validate_loop n True fin rs)"

definition rr_validate :: "range_request \<Rightarrow> u64 \<Rightarrow> scheduler_error + unit" where
  "rr_validate q n =
    (if length (rr_ranges q) > MAX_RANGES_PER_REQUEST then Inl TooManyRanges
     else validate_loop n False 0 (rr_ranges q))"

definition w_ranges :: "ranges \<Rightarrow> writer \<Rightarrow> writer" where
  "w_ranges rs w = fold (\<lambda>(s, e) w. w_uint (w_uint (w_array w 2) s) e) rs (w_array w (of_nat (length rs)))"

definition rr_encode :: "range_request \<Rightarrow> bytes option" where
  "rr_encode q = do {
     let m = mw_begin [] 7;
     m \<leftarrow> mw_bytes m 0 (rr_transfer_id q);
     m \<leftarrow> mw_bytes m 1 (rr_object_id q);
     m \<leftarrow> mw_uint m 2 (priority_class q);
     m \<leftarrow> mw_nested m 3 (\<lambda>w. Some (w_ranges (rr_ranges q) w));
     m \<leftarrow> mw_uint m 4 (max_bytes q);
     m \<leftarrow> mw_uint m 5 (preferred_chunk_order q);
     m \<leftarrow> mw_uint m 6 (durable_ack_generation q);
     mw_end m }"

definition r_range :: "reader \<Rightarrow> scheduler_error + (u64 \<times> u64) \<times> reader" where
  "r_range r =
    qm sched_err (r_array r) (\<lambda>(n, r).
      if n \<noteq> 2 then Inl Encoding
      else qm sched_err (r_uint r) (\<lambda>(start, r).
           qm sched_err (r_uint r) (\<lambda>(fin, r). Inr ((start, fin), r_leave r))))"

definition r_ranges :: "reader \<Rightarrow> scheduler_error + ranges \<times> reader" where
  "r_ranges r =
    qm sched_err (r_array r) (\<lambda>(count, r).
      if unat count > MAX_RANGES_PER_REQUEST then Inl TooManyRanges
      else qm id (read_n r_range (unat count) r) (\<lambda>(rs, r). Inr (rs, r_leave r)))"

definition rr_decode :: "bytes \<Rightarrow> u64 \<Rightarrow> scheduler_error + range_request" where
  "rr_decode bs n =
    qm sched_err (r_new bs) (\<lambda>r.
    qm sched_err (r_map r) (\<lambda>m.
    qm id (mr_field sched_err 0 (r_bytes_exact 32) m) (\<lambda>(transfer_id, m).
    qm id (mr_field sched_err 1 (r_bytes_exact 32) m) (\<lambda>(object_id, m).
    qm id (mr_field sched_err 2 r_uint m) (\<lambda>(prio, m).
    qm sched_err (mr_expect_key 3 m) (\<lambda>m.
    qm id (mr_on r_ranges m) (\<lambda>(rs, m).
    qm id (mr_field sched_err 4 r_uint m) (\<lambda>(mb, m).
    qm id (mr_field sched_err 5 r_uint m) (\<lambda>(ord, m).
    qm id (mr_field sched_err 6 r_uint m) (\<lambda>(gen, m).
    qm id (mr_no_more sched_err Encoding m) (\<lambda>m.
    qm sched_err (r_finish (mr_reader m)) (\<lambda>_.
    let request = \<lparr>rr_transfer_id = transfer_id, rr_object_id = object_id, priority_class = prio,
          rr_ranges = rs, max_bytes = mb, preferred_chunk_order = ord, durable_ack_generation = gen\<rparr> in
    qm id (rr_validate request n) (\<lambda>_. Inr request)))))))))))))"

definition chunk_total :: "range_request \<Rightarrow> u64" where
  "chunk_total q = sum_list (map (\<lambda>(s, e). e - s) (rr_ranges q))"

section \<open>Link quality\<close>

record network_quality =
  rtt_ms :: u32
  rtt_variance_ms :: u32
  loss_permille :: u32
  storage_is_bottleneck :: bool
  thermal_pressure :: bool

definition default_quality :: network_quality where
  "default_quality = \<lparr>rtt_ms = 80, rtt_variance_ms = 10, loss_permille = 0,
     storage_is_bottleneck = False, thermal_pressure = False\<rparr>"

definition div_ceil_2 :: "u32 \<Rightarrow> u32" where
  "div_ceil_2 a = (let d = a div 2; r = a mod 2 in if 0 < r then d + 1 else d)"

definition recommended_streams :: "network_quality \<Rightarrow> u32" where
  "recommended_streams quality =
    (let streams = (if loss_permille quality \<ge> 20 \<or> rtt_ms quality \<ge> 400 then 1
           else if rtt_ms quality \<ge> 150 then 2
           else if rtt_ms quality \<ge> 40 then 4
           else 8);
         streams = (if rtt_variance_ms quality * 2 \<ge> max (rtt_ms quality) 1 then div_ceil_2 streams else streams);
         streams = (if thermal_pressure quality then div_ceil_2 streams else streams);
         streams = (if storage_is_bottleneck quality then div_ceil_2 streams else streams) in
     max streams 1)"

definition recommended_chunk_size :: "network_quality \<Rightarrow> u32" where
  "recommended_chunk_size quality =
    (if loss_permille quality \<ge> 20 \<or> rtt_ms quality \<ge> 400 then 64 * 1024
     else if rtt_ms quality \<ge> 150 then 256 * 1024
     else if rtt_ms quality \<ge> 40 then 1024 * 1024
     else 4 * 1024 * 1024)"

section \<open>Scheduler\<close>

record interest_region =
  ir_priority :: priority
  ir_range :: "u64 \<times> u64"

record scheduler =
  sc_transfer_id :: bytes
  sc_object_id :: bytes
  sc_chunk_count :: u64
  sc_chunk_ciphertext_size :: u64
  interests :: "interest_region list"
  sc_order :: chunk_order
  generation :: u64

definition sc_new :: "bytes \<Rightarrow> bytes \<Rightarrow> u64 \<Rightarrow> u64 \<Rightarrow> scheduler" where
  "sc_new transfer_id object_id n ct_size =
    \<lparr>sc_transfer_id = transfer_id, sc_object_id = object_id, sc_chunk_count = n,
     sc_chunk_ciphertext_size = ct_size, interests = [], sc_order = OrderSequential, generation = 0\<rparr>"

definition add_interest :: "scheduler \<Rightarrow> priority \<Rightarrow> u64 \<times> u64 \<Rightarrow> scheduler" where
  "add_interest s prio rng =
    (if snd rng > fst rng then
       s\<lparr>interests := sort_key (\<lambda>i. (ir_priority i, fst (ir_range i)))
          (interests s @ [\<lparr>ir_priority = prio, ir_range = rng\<rparr>])\<rparr>
     else s)"

definition set_order :: "scheduler \<Rightarrow> chunk_order \<Rightarrow> scheduler" where
  "set_order s ord = s\<lparr>sc_order := ord\<rparr>"

definition set_generation :: "scheduler \<Rightarrow> u64 \<Rightarrow> scheduler" where
  "set_generation s gen = s\<lparr>generation := gen\<rparr>"

definition intersect :: "ranges \<Rightarrow> u64 \<times> u64 \<Rightarrow> ranges" where
  "intersect rs window = List.map_filter (\<lambda>(start, fin).
     let s = max start (fst window); e = min fin (snd window) in
     if s < e then Some (s, e) else None) rs"

fun take_chunks :: "ranges \<Rightarrow> u64 \<Rightarrow> ranges" where
  "take_chunks [] budget = []"
| "take_chunks ((start, fin) # rs) budget =
    (if budget = 0 then []
     else
       let span = fin - start in
       if span \<le> budget then (start, fin) # take_chunks rs (budget - span)
       else (start, start + budget) # take_chunks rs 0)"

fun scatter_loop :: "u64 \<Rightarrow> ranges \<Rightarrow> u64 \<Rightarrow> ranges" where
  "scatter_loop per_range [] budget = []"
| "scatter_loop per_range ((start, fin) # rs) budget =
    (if budget = 0 then []
     else
       let span = min (min (fin - start) per_range) budget in
       (start, start + span) # scatter_loop per_range rs (budget - span))"

definition take_scattered :: "ranges \<Rightarrow> u64 \<Rightarrow> ranges" where
  "take_scattered rs max_chunks =
    (if rs = [] \<or> max_chunks = 0 then []
     else
       let per_range = max (max_chunks div of_nat (length rs)) 1 in
       scatter_loop per_range rs max_chunks)"

text \<open>\<open>find_map\<close> over the interests: the first one that still has gaps.\<close>

fun first_interest :: "ranges \<Rightarrow> interest_region list \<Rightarrow> (priority \<times> ranges) option" where
  "first_interest missing [] = None"
| "first_interest missing (i # is) =
    (let clipped = intersect missing (ir_range i) in
     if clipped = [] then first_interest missing is else Some (ir_priority i, clipped))"

text \<open>\<open>next_request\<close> once the missing ranges are known.\<close>

definition plan_max_bytes :: "scheduler \<Rightarrow> network_quality \<Rightarrow> u64" where
  "plan_max_bytes s quality =
    (let streams = ucast (recommended_streams quality) in
     max (sc_chunk_ciphertext_size s * 8 * streams) (sc_chunk_ciphertext_size s))"

definition plan_max_chunks :: "scheduler \<Rightarrow> network_quality \<Rightarrow> u64" where
  "plan_max_chunks s quality = max (plan_max_bytes s quality div max (sc_chunk_ciphertext_size s) 1) 1"

definition plan_request :: "scheduler \<Rightarrow> ranges \<Rightarrow> network_quality \<Rightarrow> range_request option" where
  "plan_request s missing quality =
    (if missing = [] then None
     else
       let (prio, candidate) = (case first_interest missing (interests s) of
             Some r \<Rightarrow> r | None \<Rightarrow> (Sequential, missing));
           mb = plan_max_bytes s quality;
           max_chunks = plan_max_chunks s quality;
           rs = (case sc_order s of OrderSequential \<Rightarrow> take_chunks candidate max_chunks
                 | OrderScattered \<Rightarrow> take_scattered candidate max_chunks) in
       if rs = [] then None
       else Some \<lparr>rr_transfer_id = sc_transfer_id s, rr_object_id = sc_object_id s,
         priority_class = priority_u64 prio, rr_ranges = rs, max_bytes = mb,
         preferred_chunk_order = order_u64 (sc_order s), durable_ack_generation = generation s\<rparr>)"

definition next_request :: "scheduler \<Rightarrow> chunk_bitmap \<Rightarrow> network_quality \<Rightarrow> range_request option" where
  "next_request s have_bm quality =
    plan_request s (missing_ranges have_bm MAX_RANGES_PER_REQUEST) quality"

definition full_request :: "scheduler \<Rightarrow> chunk_bitmap \<Rightarrow> range_request" where
  "full_request s have_bm =
    (let rs = missing_ranges have_bm MAX_RANGES_PER_REQUEST;
         total = sum_list (map (\<lambda>(s, e). e - s) rs) in
     \<lparr>rr_transfer_id = sc_transfer_id s, rr_object_id = sc_object_id s,
      priority_class = priority_u64 Sequential, rr_ranges = rs,
      max_bytes = sat_mul total (sc_chunk_ciphertext_size s),
      preferred_chunk_order = order_u64 (sc_order s), durable_ack_generation = generation s\<rparr>)"

section \<open>Wire format\<close>

definition enc_range :: "u64 \<times> u64 \<Rightarrow> bytes" where
  "enc_range p = enc_array 2 @ enc_uint (fst p) @ enc_uint (snd p)"

definition enc_ranges :: "ranges \<Rightarrow> bytes" where
  "enc_ranges rs = enc_array (of_nat (length rs)) @ concat (map enc_range rs)"

definition rr_bytes :: "range_request \<Rightarrow> bytes" where
  "rr_bytes q = enc_map 7 @
     enc_uint 0 @ enc_bytes (rr_transfer_id q) @ enc_uint 1 @ enc_bytes (rr_object_id q) @
     enc_uint 2 @ enc_uint (priority_class q) @ enc_uint 3 @ enc_ranges (rr_ranges q) @
     enc_uint 4 @ enc_uint (max_bytes q) @ enc_uint 5 @ enc_uint (preferred_chunk_order q) @
     enc_uint 6 @ enc_uint (durable_ack_generation q)"

definition rr_ok :: "range_request \<Rightarrow> bool" where
  "rr_ok q \<longleftrightarrow> length (rr_transfer_id q) = 32 \<and> length (rr_object_id q) = 32"

interpretation range_codec: codec enc_range r_range "\<lambda>_. True" 1
proof
  fix d pre bs x r'
  assume d: "d + 1 \<le> MAX_DEPTH"
  show "r_range (rdr pre bs d) = Inr (x, r') \<longleftrightarrow>
      True \<and> (\<exists>rest. bs = enc_range x @ rest \<and> r' = rdr (pre @ enc_range x) rest d)"
  proof
    assume "r_range (rdr pre bs d) = Inr (x, r')"
    then show "True \<and> (\<exists>rest. bs = enc_range x @ rest \<and> r' = rdr (pre @ enc_range x) rest d)"
      by (auto simp: r_range_def res_iff cbor_iff enc_range_def)
  next
    assume "True \<and> (\<exists>rest. bs = enc_range x @ rest \<and> r' = rdr (pre @ enc_range x) rest d)"
    then show "r_range (rdr pre bs d) = Inr (x, r')"
      using d by (auto simp: r_range_def cbor_fwd enc_range_def)
  qed
qed (simp add: MAX_DEPTH_def)

lemma w_ranges_eq: "w_ranges rs w = w @ enc_ranges rs"
proof -
  have "fold (\<lambda>(s, e) w. w_uint (w_uint (w_array w 2) s) e) rs w = w @ concat (map enc_range rs)" for w
    by (induction rs arbitrary: w) (auto simp: enc_range_def)
  then show ?thesis by (simp add: w_ranges_def enc_ranges_def)
qed

lemma rr_encode_eq: "rr_encode q = Some (rr_bytes q)"
  by (simp add: rr_encode_def mw_simps w_ranges_eq rr_bytes_def)

lemma r_ranges_iff:
  assumes "d + 2 \<le> MAX_DEPTH"
  shows "r_ranges (rdr pre bs d) = Inr (rs, r') \<longleftrightarrow>
    length rs \<le> MAX_RANGES_PER_REQUEST \<and> (\<exists>rest. bs = enc_ranges rs @ rest \<and> r' = rdr (pre @ enc_ranges rs) rest d)"
proof
  have d: "Suc d + 1 \<le> MAX_DEPTH" using assms by simp
  assume "r_ranges (rdr pre bs d) = Inr (rs, r')"
  then show "length rs \<le> MAX_RANGES_PER_REQUEST \<and>
      (\<exists>rest. bs = enc_ranges rs @ rest \<and> r' = rdr (pre @ enc_ranges rs) rest d)"
    by (auto simp: r_ranges_def res_iff cbor_iff range_codec.read_n_iff [OF d] enc_ranges_def)
next
  have d: "Suc d + 1 \<le> MAX_DEPTH" using assms by simp
  assume r: "length rs \<le> MAX_RANGES_PER_REQUEST \<and>
      (\<exists>rest. bs = enc_ranges rs @ rest \<and> r' = rdr (pre @ enc_ranges rs) rest d)"
  then have "unat (of_nat (length rs) :: u64) = length rs"
    by (simp add: MAX_RANGES_PER_REQUEST_def)
  with r d show "r_ranges (rdr pre bs d) = Inr (rs, r')"
    by (auto simp: r_ranges_def cbor_fwd enc_ranges_def range_codec.read_n_fwd [OF d] list_all_iff)
qed

lemma rr_decode_inv:
  assumes "rr_decode bs n = Inr q"
  shows "rr_ok q \<and> rr_validate q n = Inr () \<and> bs = rr_bytes q \<and> length bs \<le> MAX_CONTROL_SIZE"
proof -
  have d: "Suc 0 + 2 \<le> MAX_DEPTH" by (simp add: MAX_DEPTH_def)
  show ?thesis
    using assms
    by (auto simp: rr_decode_def Let_def res_iff cbor_iff r_ranges_iff [OF d] rr_ok_def rr_bytes_def)
qed

lemma rr_decode_fwd:
  assumes "rr_ok q" and "rr_validate q n = Inr ()" and "length (rr_bytes q) \<le> MAX_CONTROL_SIZE"
  shows "rr_decode (rr_bytes q) n = Inr q"
proof -
  have d: "Suc 0 + 2 \<le> MAX_DEPTH" by (simp add: MAX_DEPTH_def)
  have "length (rr_ranges q) \<le> MAX_RANGES_PER_REQUEST"
    using assms(2) by (auto simp: rr_validate_def split: if_splits)
  then have fwd: "r_ranges (rdr pre (enc_ranges (rr_ranges q) @ rest) (Suc 0)) =
      Inr (rr_ranges q, rdr (pre @ enc_ranges (rr_ranges q)) rest (Suc 0))" for pre rest
    by (simp add: r_ranges_iff [OF d])
  show ?thesis
    using assms fwd by (cases q) (simp add: rr_decode_def rr_bytes_def rr_ok_def r_new_eq cbor_fwd MAX_DEPTH_def)
qed

section \<open>Validity of range lists\<close>

definition ranges_wf :: "u64 \<Rightarrow> ranges \<Rightarrow> bool" where
  "ranges_wf n rs \<longleftrightarrow> sorted_wrt (\<lambda>(_, b) (c, _). b < c) rs \<and> (\<forall>(s, e) \<in> set rs. s < e \<and> e \<le> n)"

lemma ranges_wf_Cons: "ranges_wf n ((s, e) # rs) \<longleftrightarrow>
    s < e \<and> e \<le> n \<and> (\<forall>(c, _) \<in> set rs. e < c) \<and> ranges_wf n rs"
  by (auto simp: ranges_wf_def)

lemma ranges_wf_Nil [simp]: "ranges_wf n []"
  by (simp add: ranges_wf_def)

lemma validate_loop_iff: "validate_loop n later p rs = Inr () \<longleftrightarrow>
    ranges_wf n rs \<and> (later \<longrightarrow> (\<forall>(c, _) \<in> set rs. p < c))"
proof (induction n later p rs rule: validate_loop.induct)
  case (2 n later p s e rs)
  have "(\<forall>(c, _) \<in> set rs. p < c)" if "s < e" "p < s" "\<forall>(c, _) \<in> set rs. e < c"
    using that by force
  with 2 show ?case
    by (auto simp: ranges_wf_Cons res_iff not_le not_less)
qed simp

lemma rr_validate_iff: "rr_validate q n = Inr () \<longleftrightarrow>
    length (rr_ranges q) \<le> MAX_RANGES_PER_REQUEST \<and> ranges_wf n (rr_ranges q)"
  by (auto simp: rr_validate_def validate_loop_iff)

lemma length_rr_bytes_le:
  assumes "rr_ok q" and "length (rr_ranges q) \<le> MAX_RANGES_PER_REQUEST"
  shows "length (rr_bytes q) \<le> 60000"
proof -
  have "length (enc_range p) \<le> 27" for p
    using length_enc(3) [of 2] length_enc(1) [of "fst p"] length_enc(1) [of "snd p"]
    by (simp add: enc_range_def)
  then have c: "length (concat (map enc_range rs)) \<le> 27 * length rs" for rs
    by (induction rs) (simp_all add: add_mono)
  have "length (enc_ranges (rr_ranges q)) \<le> 9 + 27 * 1024"
    using assms(2) c [of "rr_ranges q"] length_enc(3) [of "of_nat (length (rr_ranges q))"]
    unfolding enc_ranges_def MAX_RANGES_PER_REQUEST_def length_append by linarith
  moreover have "length (enc_bytes (rr_transfer_id q)) \<le> 41" "length (enc_bytes (rr_object_id q)) \<le> 41"
    using assms(1) length_enc(4) [of "rr_transfer_id q"] length_enc(4) [of "rr_object_id q"]
    by (simp_all add: rr_ok_def)
  ultimately show ?thesis
    unfolding rr_bytes_def length_append
    using length_enc(2) [of 7] length_enc(1) [of 0] length_enc(1) [of 1] length_enc(1) [of 2]
      length_enc(1) [of 3] length_enc(1) [of 4] length_enc(1) [of 5] length_enc(1) [of 6]
      length_enc(1) [of "priority_class q"] length_enc(1) [of "max_bytes q"]
      length_enc(1) [of "preferred_chunk_order q"] length_enc(1) [of "durable_ack_generation q"]
    by linarith
qed

lemma length_rr_bytes:
  assumes "rr_ok q" and "length (rr_ranges q) \<le> MAX_RANGES_PER_REQUEST"
  shows "length (rr_bytes q) \<le> MAX_CONTROL_SIZE"
  using length_rr_bytes_le [OF assms] by (simp add: MAX_CONTROL_SIZE_def)

lemma rr_decode_iff: "rr_decode bs n = Inr q \<longleftrightarrow>
    rr_ok q \<and> rr_validate q n = Inr () \<and> rr_encode q = Some bs"
  using rr_decode_inv rr_decode_fwd length_rr_bytes
  by (auto simp: rr_encode_eq rr_validate_iff)

section \<open>Cutting range lists\<close>

text \<open>\<open>trimmed out rs\<close>: \<open>out\<close> is made of non-empty prefixes of the first ranges of \<open>rs\<close>.\<close>

fun trimmed :: "ranges \<Rightarrow> ranges \<Rightarrow> bool" where
  "trimmed [] rs = True"
| "trimmed ((s, e) # os) ((s', e') # rs) \<longleftrightarrow> s = s' \<and> s < e \<and> e \<le> e' \<and> trimmed os rs"
| "trimmed (p # os) [] = False"

lemma trimmed_in: "trimmed out rs \<Longrightarrow> in_ranges out i \<Longrightarrow> in_ranges rs i"
  by (induction out rs rule: trimmed.induct) auto

lemma trimmed_starts: "trimmed out rs \<Longrightarrow> fst ` set out \<subseteq> fst ` set rs"
  by (induction out rs rule: trimmed.induct) auto

lemma trimmed_length: "trimmed out rs \<Longrightarrow> length out \<le> length rs"
  by (induction out rs rule: trimmed.induct) auto

lemma trimmed_wf: "trimmed out rs \<Longrightarrow> ranges_wf n rs \<Longrightarrow> ranges_wf n out"
proof (induction out rs rule: trimmed.induct)
  case (2 s e os s' e' rs)
  have "\<forall>(c, _) \<in> set os. e < c"
  proof safe
    fix c d assume "(c, d) \<in> set os"
    then have "c \<in> fst ` set rs"
      using 2 trimmed_starts [of os rs] by (force simp: image_iff)
    then have "e' < c" using 2 by (auto simp: ranges_wf_Cons)
    then show "e < c" using 2 by auto
  qed
  with 2 show ?case by (auto simp: ranges_wf_Cons)
qed auto

definition total_len :: "ranges \<Rightarrow> nat" where
  "total_len rs = sum_list (map (\<lambda>(s, e). unat (e - s)) rs)"

lemma total_len_simps [simp]: "total_len [] = 0" "total_len ((s, e) # rs) = unat (e - s) + total_len rs"
  by (simp_all add: total_len_def)

lemma unat_range_less:
  fixes s e b :: u64
  assumes "s < e" and "b < e - s"
  shows "unat (s + b) = unat s + unat b" "s + b < e" "s < s + b \<longleftrightarrow> 0 < b"
proof -
  have d: "unat (e - s) = unat e - unat s"
    using assms(1) by (simp add: unat_sub)
  have "unat s + unat b < unat e"
    using assms d by (simp add: word_less_nat_alt)
  moreover from this show "unat (s + b) = unat s + unat b"
    using unat_u64_less [of e] by (subst unat_add) simp_all
  ultimately show "s + b < e" "s < s + b \<longleftrightarrow> 0 < b"
    by (simp_all add: word_less_nat_alt)
qed

lemma take_chunks_trimmed: "ranges_wf n rs \<Longrightarrow> trimmed (take_chunks rs b) rs"
proof (induction rs b rule: take_chunks.induct)
  case (2 s e rs b)
  then show ?case
    using unat_range_less [of s e b] by (auto simp: ranges_wf_Cons Let_def not_le word_neq_0_conv)
qed simp

lemma take_chunks_total: "ranges_wf n rs \<Longrightarrow> total_len (take_chunks rs b) \<le> unat b"
proof (induction rs b rule: take_chunks.induct)
  case (2 s e rs b)
  then show ?case
    by (auto simp: ranges_wf_Cons Let_def not_le unat_sub word_le_nat_alt)
qed simp

lemma take_chunks_nonempty: "rs \<noteq> [] \<Longrightarrow> b \<noteq> 0 \<Longrightarrow> take_chunks rs b \<noteq> []"
  by (cases rs) (auto simp: Let_def split: if_splits)

lemma scatter_trimmed: "ranges_wf n rs \<Longrightarrow> 0 < p \<Longrightarrow> trimmed (scatter_loop p rs b) rs"
proof (induction p rs b rule: scatter_loop.induct)
  case (2 p s e rs b)
  show ?case
  proof (cases "b = 0")
    case False
    define span where "span = min (min (e - s) p) b"
    have se: "s < e" using 2 by (simp add: ranges_wf_Cons)
    then have "0 < e - s" by (simp add: word_greater_zero_iff)
    with False 2 have "0 < span" by (auto simp: span_def word_greater_zero_iff min_def)
    moreover have "span \<le> e - s" by (simp add: span_def min_le_iff_disj)
    ultimately have "s < s + span \<and> s + span \<le> e"
      using unat_range_less [of s e span] se by (cases "span = e - s") (auto simp: less_le)
    with 2 False show ?thesis by (simp add: Let_def ranges_wf_Cons span_def)
  qed simp
qed simp

lemma scatter_total: "total_len (scatter_loop p rs b) \<le> unat b"
proof (induction p rs b rule: scatter_loop.induct)
  case (2 p s e rs b)
  define span where "span = min (min (e - s) p) b"
  have "unat (b - span) = unat b - unat span" "unat span \<le> unat b"
    by (simp_all add: unat_sub span_def word_le_nat_alt [symmetric])
  with "2.IH" [OF _ span_def] show ?case by (auto simp: Let_def simp flip: span_def)
qed simp

lemma intersect_Cons: "intersect ((s, e) # rs) w =
    (if max s (fst w) < min e (snd w) then (max s (fst w), min e (snd w)) # intersect rs w else intersect rs w)"
  by (simp add: intersect_def map_filter_def Let_def)

lemma intersect_Nil [simp]: "intersect [] w = []"
  by (simp add: intersect_def map_filter_def)

lemma intersect_in: "in_ranges (intersect rs w) i \<longleftrightarrow> in_ranges rs i \<and> fst w \<le> i \<and> i < snd w"
proof (induction rs)
  case (Cons p rs)
  then show ?case
    by (cases p) (auto simp: intersect_Cons max_def min_def split: if_splits)
qed simp

lemma intersect_starts: "(c, d) \<in> set (intersect rs w) \<Longrightarrow> \<exists>p \<in> set rs. fst p \<le> c"
  by (induction rs) (auto simp: intersect_Cons split: if_splits)

lemma intersect_wf: "ranges_wf n rs \<Longrightarrow> ranges_wf n (intersect rs w)"
proof (induction rs)
  case (Cons p rs)
  obtain s e where p: "p = (s, e)" by (cases p)
  have "min e (snd w) < c" if m: "(c, d) \<in> set (intersect rs w)" for c d
  proof -
    from intersect_starts [OF m] obtain q where "q \<in> set rs" "fst q \<le> c" by blast
    then have "e < c" using Cons.prems by (auto simp: p ranges_wf_Cons)
    then show ?thesis by (simp add: min_less_iff_disj)
  qed
  with Cons show ?case
    by (auto simp: p intersect_Cons ranges_wf_Cons min_le_iff_disj)
qed simp

lemma intersect_length: "length (intersect rs w) \<le> length rs"
  by (induction rs) (auto simp: intersect_Cons)

lemma first_interest_Some:
  "first_interest missing is = Some (p, c) \<Longrightarrow>
    \<exists>i \<in> set is. p = ir_priority i \<and> c = intersect missing (ir_range i) \<and> c \<noteq> []"
  by (induction "is") (auto simp: Let_def split: if_splits)

lemma first_interest_None: "first_interest missing is = None \<longleftrightarrow> (\<forall>i \<in> set is. intersect missing (ir_range i) = [])"
  by (induction "is") (auto simp: Let_def)

section \<open>Planning over a source of gaps\<close>

locale gap_source =
  fixes gaps_in :: "'b \<Rightarrow> nat \<Rightarrow> ranges"
    and count :: "'b \<Rightarrow> u64"
    and lacks :: "'b \<Rightarrow> u64 \<Rightarrow> bool"
    and inv :: "'b \<Rightarrow> bool"
  assumes gaps_wf: "inv b \<Longrightarrow> ranges_wf (count b) (gaps_in b m)"
    and gaps_length: "inv b \<Longrightarrow> length (gaps_in b m) \<le> m"
    and gaps_lack: "inv b \<Longrightarrow> in_ranges (gaps_in b m) i \<Longrightarrow> lacks b i"
    and gaps_none: "inv b \<Longrightarrow> 0 < m \<Longrightarrow> gaps_in b m = [] \<longleftrightarrow> (\<forall>i. \<not> lacks b i)"
begin

lemma plan_candidate:
  assumes "inv b" and "gaps_in b m \<noteq> []"
    and "(prio, cand) = (case first_interest (gaps_in b m) is of
      Some r \<Rightarrow> r | None \<Rightarrow> (Sequential, gaps_in b m))"
  shows "ranges_wf (count b) cand" "cand \<noteq> []" "length cand \<le> m" "in_ranges cand i \<Longrightarrow> lacks b i"
proof -
  have "cand = gaps_in b m \<or> cand \<noteq> [] \<and> (\<exists>w. cand = intersect (gaps_in b m) w)"
  proof (cases "first_interest (gaps_in b m) is")
    case (Some r)
    with assms(3) have "first_interest (gaps_in b m) is = Some (prio, cand)" by simp
    from first_interest_Some [OF this] show ?thesis by blast
  qed (use assms(3) in simp)
  then consider "cand = gaps_in b m" | w where "cand = intersect (gaps_in b m) w" "cand \<noteq> []"
    by blast
  then have "ranges_wf (count b) cand \<and> cand \<noteq> [] \<and> length cand \<le> m \<and>
      (\<forall>i. in_ranges cand i \<longrightarrow> in_ranges (gaps_in b m) i)"
  proof cases
    case 1
    then show ?thesis using assms(1,2) gaps_wf gaps_length by simp
  next
    case 2
    then show ?thesis
      using assms(1) gaps_wf gaps_length [OF assms(1), of m] intersect_length [of "gaps_in b m" w]
      by (auto simp: intersect_wf intersect_in)
  qed
  then show "ranges_wf (count b) cand" "cand \<noteq> []" "length cand \<le> m" "in_ranges cand i \<Longrightarrow> lacks b i"
    using gaps_lack [OF assms(1)] by blast+
qed

lemma plan_Some:
  assumes "inv b" and "plan_request s (gaps_in b MAX_RANGES_PER_REQUEST) q = Some r"
  shows "rr_validate r (count b) = Inr ()" "rr_ranges r \<noteq> []"
    "in_ranges (rr_ranges r) i \<Longrightarrow> lacks b i" "total_len (rr_ranges r) \<le> unat (plan_max_chunks s q)"
proof -
  let ?g = "gaps_in b MAX_RANGES_PER_REQUEST" and ?k = "plan_max_chunks s q"
  obtain prio cand where pc: "(prio, cand) = (case first_interest ?g (interests s) of
      Some r \<Rightarrow> r | None \<Rightarrow> (Sequential, ?g))"
    by (metis surj_pair)
  have g: "?g \<noteq> []" and ne: "rr_ranges r \<noteq> []"
    and r: "rr_ranges r = take_chunks cand ?k \<or> rr_ranges r = take_scattered cand ?k"
    using assms(2) pc [symmetric]
    by (auto simp: plan_request_def Let_def split: if_splits chunk_order.splits)
  note c = plan_candidate [OF assms(1) g pc]
  have "trimmed (rr_ranges r) cand \<and> total_len (rr_ranges r) \<le> unat ?k"
    using r take_chunks_trimmed [OF c(1)] take_chunks_total [OF c(1)] scatter_trimmed [OF c(1)] scatter_total
    by (auto simp: take_scattered_def Let_def less_max_iff_disj)
  then show "rr_validate r (count b) = Inr ()" "in_ranges (rr_ranges r) i \<Longrightarrow> lacks b i"
    "total_len (rr_ranges r) \<le> unat ?k"
    using c trimmed_wf trimmed_in trimmed_length [of "rr_ranges r" cand] by (auto simp: rr_validate_iff)
  show "rr_ranges r \<noteq> []" by (rule ne)
qed

lemma plan_None:
  assumes "inv b"
  shows "plan_request s (gaps_in b MAX_RANGES_PER_REQUEST) q = None \<longleftrightarrow> (\<forall>i. \<not> lacks b i)"
proof (cases "gaps_in b MAX_RANGES_PER_REQUEST = []")
  case True
  then show ?thesis
    using gaps_none [OF assms, of MAX_RANGES_PER_REQUEST]
    by (simp add: plan_request_def MAX_RANGES_PER_REQUEST_def)
next
  case False
  let ?g = "gaps_in b MAX_RANGES_PER_REQUEST"
  obtain prio cand where pc: "(prio, cand) = (case first_interest ?g (interests s) of
      Some r \<Rightarrow> r | None \<Rightarrow> (Sequential, ?g))"
    by (metis surj_pair)
  have k: "plan_max_chunks s q \<noteq> 0"
    by (metis plan_max_chunks_def max.cobounded2 word_le_0_iff zero_neq_one)
  have "plan_request s ?g q \<noteq> None"
    using plan_candidate(2) [OF assms False pc] False k pc [symmetric] take_chunks_nonempty [of cand]
    by (cases "hd cand"; cases cand)
      (auto simp: plan_request_def Let_def take_scattered_def split: chunk_order.splits)
  then show ?thesis
    using False gaps_none [OF assms, of MAX_RANGES_PER_REQUEST] by (auto simp: MAX_RANGES_PER_REQUEST_def)
qed

end

interpretation bitmap_gaps: gap_source missing_ranges chunk_count "\<lambda>bm i. bm_get bm i = Inr False" bm_ok
proof
  fix bm m i
  assume ok: "bm_ok bm"
  show "ranges_wf (chunk_count bm) (missing_ranges bm m)"
    using gaps_sorted [of bm m 0] gaps_bounds [of _ _ bm m 0] by (auto simp: ranges_wf_def missing_ranges_gaps)
  show "length (missing_ranges bm m) \<le> m"
    by (simp add: missing_ranges_gaps length_gaps)
  have lack: "bm_get bm i = Inr False" if "in_ranges (missing_ranges bm m) i" for i
  proof -
    have "i < chunk_count bm"
      using that gaps_bounds [of _ _ bm m 0] by (force simp: in_ranges_def missing_ranges_gaps)
    then show ?thesis
      using that gaps_missing [of bm m 0 i] ok by (simp add: missing_ranges_gaps present_eq bm_get_eq)
  qed
  then show "in_ranges (missing_ranges bm m) i \<Longrightarrow> bm_get bm i = Inr False" .
  assume m: "0 < m"
  show "missing_ranges bm m = [] \<longleftrightarrow> (\<forall>i. bm_get bm i \<noteq> Inr False)"
  proof
    assume g: "missing_ranges bm m = []"
    show "\<forall>i. bm_get bm i \<noteq> Inr False"
    proof (intro allI notI)
      fix i assume "bm_get bm i = Inr False"
      then have "i < chunk_count bm" "\<not> present bm i"
        using ok by (auto simp: bm_get_eq present_eq split: if_splits)
      then have "in_ranges (gaps bm m 0) i"
        using g m by (intro gaps_cover) (auto simp: missing_ranges_gaps)
      with g show False by (simp add: missing_ranges_gaps)
    qed
  next
    assume none: "\<forall>i. bm_get bm i \<noteq> Inr False"
    show "missing_ranges bm m = []"
    proof (rule ccontr)
      assume "missing_ranges bm m \<noteq> []"
      then obtain s e where se: "(s, e) \<in> set (missing_ranges bm m)" by (cases "missing_ranges bm m") auto
      then have "s < e" using gaps_bounds [of s e bm m 0] by (simp add: missing_ranges_gaps)
      then have "in_ranges (missing_ranges bm m) s" using se by (auto simp: in_ranges_def)
      with lack none show False by blast
    qed
  qed
qed

lemma full_request_props:
  assumes "bm_ok bm" and "q = full_request s bm"
  shows "rr_validate q (chunk_count bm) = Inr ()"
    and "in_ranges (rr_ranges q) i \<Longrightarrow> bm_get bm i = Inr False"
    and "(\<forall>i. bm_get bm i = Inr False \<longrightarrow> in_ranges (rr_ranges q) i) \<longleftrightarrow> card (gap_starts bm) \<le> MAX_RANGES_PER_REQUEST"
    and "bm_get bm i = Inr False \<Longrightarrow> \<not> in_ranges (rr_ranges q) i \<Longrightarrow>
      length (rr_ranges q) = MAX_RANGES_PER_REQUEST \<and> snd (last (rr_ranges q)) \<le> i"
    and "rr_ranges q = [] \<longleftrightarrow> is_complete bm"
proof -
  have q: "rr_ranges q = missing_ranges bm MAX_RANGES_PER_REQUEST"
    by (simp add: assms(2) full_request_def Let_def)
  show "rr_validate q (chunk_count bm) = Inr ()"
    using bitmap_gaps.gaps_wf [OF assms(1)] bitmap_gaps.gaps_length [OF assms(1)] by (auto simp: rr_validate_iff q)
  show "in_ranges (rr_ranges q) i \<Longrightarrow> bm_get bm i = Inr False"
    using bitmap_gaps.gaps_lack [OF assms(1)] by (auto simp: q)
  show "(\<forall>i. bm_get bm i = Inr False \<longrightarrow> in_ranges (rr_ranges q) i) \<longleftrightarrow> card (gap_starts bm) \<le> MAX_RANGES_PER_REQUEST"
    unfolding q by (rule missing_ranges_all [OF assms(1)])
  show "length (rr_ranges q) = MAX_RANGES_PER_REQUEST \<and> snd (last (rr_ranges q)) \<le> i"
    if "bm_get bm i = Inr False" "\<not> in_ranges (rr_ranges q) i"
    using that assms(1) gaps_cover [of 0 i bm MAX_RANGES_PER_REQUEST] length_gaps [of bm MAX_RANGES_PER_REQUEST 0]
    by (fastforce simp: q missing_ranges_gaps bm_get_eq present_eq MAX_RANGES_PER_REQUEST_def split: if_splits)
  show "rr_ranges q = [] \<longleftrightarrow> is_complete bm"
    using bitmap_gaps.gaps_none [OF assms(1), of MAX_RANGES_PER_REQUEST] is_complete_get [OF assms(1)]
    by (auto simp: q MAX_RANGES_PER_REQUEST_def bm_get_eq [OF assms(1)] split: if_splits)
qed

section \<open>Properties\<close>

text \<open>A range request decodes for an object of \<open>n\<close> chunks exactly when the bytes are the encoding
  of a valid request: encoding never panics, decoding inverts it, and no other byte string is accepted.\<close>

theorem range_request_exact:
  "rr_decode bs n = Inr q \<longleftrightarrow>
    rr_ok q \<and> length (rr_ranges q) \<le> MAX_RANGES_PER_REQUEST \<and> ranges_wf n (rr_ranges q) \<and>
    rr_encode q = Some bs"
  by (auto simp: rr_decode_iff rr_validate_iff)

text \<open>C26: The next request is absent exactly when no chunk is missing. Otherwise it is valid for the
  object, not empty, asks for missing chunks only and for at most as many as the link quality budget
  allows, in both chunk orders and with any interests registered.\<close>

theorem next_request_correct:
  assumes "bm_ok bm"
  shows "case next_request s bm quality of
      None \<Rightarrow> \<forall>i. bm_get bm i \<noteq> Inr False
    | Some q \<Rightarrow> rr_validate q (chunk_count bm) = Inr () \<and> rr_ranges q \<noteq> [] \<and>
        (\<forall>i. in_ranges (rr_ranges q) i \<longrightarrow> bm_get bm i = Inr False) \<and>
        total_len (rr_ranges q) \<le> unat (plan_max_chunks s quality)"
  using bitmap_gaps.plan_None [OF assms, of s quality] bitmap_gaps.plan_Some [OF assms, of s quality]
  by (auto simp: next_request_def split: option.splits)

theorem next_request_correct_witness:
  "\<exists>q. next_request (sc_new (replicate 32 1) (replicate 32 2) 10 65552)
      \<lparr>chunk_count = 10, bits = [0xA7, 0x00], set_count = 5\<rparr> default_quality = Some q \<and>
    rr_ranges q = [(1, 2), (3, 5), (8, 10)] \<and> rr_validate q 10 = Inr ()"
proof -
  let ?bm = "\<lparr>chunk_count = 10, bits = [0xA7, 0x00], set_count = 5\<rparr>"
  let ?s = "sc_new (replicate 32 1) (replicate 32 2) 10 65552"
  have ok: "bm_ok ?bm" by code_simp
  have g: "missing_ranges ?bm MAX_RANGES_PER_REQUEST = [(1, 2), (3, 5), (8, 10)]"
    by code_simp
  have "\<exists>q. next_request ?s ?bm default_quality = Some q \<and> rr_ranges q = [(1, 2), (3, 5), (8, 10)]"
    by (simp add: next_request_def plan_request_def g sc_new_def plan_max_chunks_def plan_max_bytes_def
        recommended_streams_def default_quality_def)
  with next_request_correct [OF ok, of ?s default_quality] show ?thesis by auto
qed

text \<open>C27: The full request reaches the sender as it was made: its encoding decodes, for an object of that many chunks, to the same request. It asks for
  missing chunks only, and for every missing chunk exactly when the object has at most 1024 gaps. With more gaps than that, it has 1024
  ranges and what it leaves out lies behind the last of them. It is empty exactly when the object is complete.\<close>

theorem full_request_correct:
  assumes "bm_ok bm" and "length (sc_transfer_id s) = 32" and "length (sc_object_id s) = 32" and "q = full_request s bm"
  shows "(\<exists>bs. rr_encode q = Some bs \<and> rr_decode bs (chunk_count bm) = Inr q) \<and>
    (\<forall>i. in_ranges (rr_ranges q) i \<longrightarrow> bm_get bm i = Inr False) \<and>
    ((\<forall>i. bm_get bm i = Inr False \<longrightarrow> in_ranges (rr_ranges q) i) \<longleftrightarrow> card (gap_starts bm) \<le> MAX_RANGES_PER_REQUEST) \<and>
    (\<forall>i. bm_get bm i = Inr False \<and> \<not> in_ranges (rr_ranges q) i \<longrightarrow>
      length (rr_ranges q) = MAX_RANGES_PER_REQUEST \<and> snd (last (rr_ranges q)) \<le> i) \<and>
    (rr_ranges q = [] \<longleftrightarrow> is_complete bm)"
proof -
  have ok: "rr_ok q" using assms(2-4) by (simp add: rr_ok_def full_request_def Let_def)
  note props = full_request_props [OF assms(1,4)]
  from ok props(1) have "rr_decode (rr_bytes q) (chunk_count bm) = Inr q" 
    by (auto simp: rr_decode_iff rr_encode_eq)
  with props(2-) show ?thesis unfolding rr_encode_eq by blast
qed

theorem full_request_correct_witness:
  "in_ranges (rr_ranges (full_request (sc_new (replicate 32 1) (replicate 32 2) 10 65552)
      \<lparr>chunk_count = 10, bits = [0xA7, 0x00], set_count = 5\<rparr>)) 4 \<and>
   card (gap_starts \<lparr>chunk_count = 10, bits = [0xA7, 0x00], set_count = 5\<rparr>) \<le> MAX_RANGES_PER_REQUEST"
proof -
  let ?bm = "\<lparr>chunk_count = 10, bits = [0xA7, 0x00], set_count = 5\<rparr>"
  let ?s = "sc_new (replicate 32 1) (replicate 32 2) 10 65552"
  have ok: "bm_ok ?bm" by code_simp
  have g: "rr_ranges (full_request ?s ?bm) = [(1, 2), (3, 5), (8, 10)]"
    by (simp add: full_request_def Let_def) code_simp
  then have short: "length (rr_ranges (full_request ?s ?bm)) \<noteq> MAX_RANGES_PER_REQUEST" by (simp add: MAX_RANGES_PER_REQUEST_def)
  have "length (sc_transfer_id ?s) = 32" "length (sc_object_id ?s) = 32" by (simp_all add: sc_new_def)
  from full_request_correct [OF ok this refl] short
  have "\<forall>i. bm_get ?bm i = Inr False \<longrightarrow> in_ranges (rr_ranges (full_request ?s ?bm)) i"
    "card (gap_starts ?bm) \<le> MAX_RANGES_PER_REQUEST" by blast+
  moreover have "bm_get ?bm 4 = Inr False" by code_simp
  ultimately show ?thesis by blast
qed

text \<open>For every reading of the link, the number of streams is between 1 and 8 and the recommended
  chunk size is one of the allowed sizes.\<close>

theorem link_tables_bounds:
  "1 \<le> recommended_streams quality \<and> recommended_streams quality \<le> 8 \<and>
   recommended_chunk_size quality \<in> {65536, 262144, 1048576, 4194304}"
  by (simp add: recommended_streams_def recommended_chunk_size_def Let_def div_ceil_2_def)

end
