(* ===== verification/Rtp_Control.thy ===== *)
theory Rtp_Control
  imports Rtp_Crypto
begin

text \<open>
  \<open>rtp2-core/src/control.rs\<close>: the protection of control frames, the chain of key epochs, and the
  counters. An operation that takes \<open>&mut self\<close> returns its result together with the channel as it leaves it. Epoch
  arithmetic wraps, as in a release build.
\<close>

section \<open>The channel\<close>

definition CONTROL_NONCE_CONTEXT :: bytes where
  "CONTROL_NONCE_CONTEXT = ascii ''Reyta RTP2 2026-08-01 control nonce v1''"

definition EPOCH_SALT_DOMAIN :: bytes where
  "EPOCH_SALT_DOMAIN = ascii ''RTP2-EPOCH-SALT-v1''"

definition CONTROL_AAD_MAGIC :: bytes where
  "CONTROL_AAD_MAGIC = ascii ''RTP2CTRL''"

definition MAX_FRAMES_PER_EPOCH :: u64 where
  "MAX_FRAMES_PER_EPOCH = push_bit 32 1"

datatype flow = ClientToServer | ServerToClient

primrec flow_byte :: "flow \<Rightarrow> u8" where
  "flow_byte ClientToServer = 0"
| "flow_byte ServerToClient = 1"

primrec opposite :: "flow \<Rightarrow> flow" where
  "opposite ClientToServer = ServerToClient"
| "opposite ServerToClient = ClientToServer"

datatype control_error = Decrypt | Replay | StaleEpoch | EpochGap | CounterExhausted | MalformedFrame

record epoch_keys =
  ek_epoch :: u64
  ek_c2s :: bytes
  ek_s2c :: bytes

fun key_for :: "epoch_keys \<Rightarrow> flow \<Rightarrow> bytes" where
  "key_for ks ClientToServer = ek_c2s ks"
| "key_for ks ServerToClient = ek_s2c ks"

record control_channel =
  cc_send_direction :: flow
  cc_epoch_prk :: bytes
  cc_th2 :: bytes
  cc_keys :: epoch_keys
  cc_send_counter :: u64
  cc_receive_watermark :: u64

record sealed_frame =
  sf_epoch :: u64
  sf_counter :: u64
  sf_ciphertext :: bytes

section \<open>Derivations\<close>

definition advance_prk :: "prims \<Rightarrow> bytes \<Rightarrow> u64 \<Rightarrow> bytes" where
  "advance_prk C current next_epoch = hkdf_extract C (EPOCH_SALT_DOMAIN @ to_be next_epoch) current"

definition derive_epoch :: "prims \<Rightarrow> bytes \<Rightarrow> bytes \<Rightarrow> u64 \<Rightarrow> epoch_keys" where
  "derive_epoch C prk th2 epoch =
    \<lparr>ek_epoch = epoch, ek_c2s = hkdf_expand C 32 prk [ascii ''RTP2 control c2s v1'', th2],
     ek_s2c = hkdf_expand C 32 prk [ascii ''RTP2 control s2c v1'', th2]\<rparr>"

definition control_nonce :: "prims \<Rightarrow> flow \<Rightarrow> u64 \<Rightarrow> u64 \<Rightarrow> bytes" where
  "control_nonce C direction epoch counter =
    take 24 (blake3_derive_key C CONTROL_NONCE_CONTEXT
      ([flow_byte direction] @ to_be epoch @ to_be counter))"

definition control_aad :: "flow \<Rightarrow> u64 \<Rightarrow> u64 \<Rightarrow> u8 \<Rightarrow> u8 \<Rightarrow> u64 \<Rightarrow> bytes" where
  "control_aad direction epoch counter frame_type frame_flags request_id =
    CONTROL_AAD_MAGIC @ to_be PROTOCOL_MAJOR @ to_be SUITE_ID @ [flow_byte direction] @
    to_be epoch @ to_be counter @ [frame_type] @ [frame_flags] @ to_be request_id"

definition seal_with ::
  "prims \<Rightarrow> bytes \<Rightarrow> flow \<Rightarrow> u64 \<Rightarrow> u64 \<Rightarrow> bytes \<Rightarrow> bytes \<Rightarrow> control_error + bytes" where
  "seal_with C key direction epoch counter aad plaintext =
    ok_or Decrypt (aead_encrypt C key (control_nonce C direction epoch counter) aad plaintext)"

definition open_with ::
  "prims \<Rightarrow> bytes \<Rightarrow> flow \<Rightarrow> u64 \<Rightarrow> u64 \<Rightarrow> bytes \<Rightarrow> bytes \<Rightarrow> control_error + bytes" where
  "open_with C key direction epoch counter aad ciphertext =
    ok_or Decrypt (aead_decrypt C key (control_nonce C direction epoch counter) aad ciphertext)"

section \<open>Operations\<close>

definition cc_new :: "prims \<Rightarrow> bytes \<Rightarrow> bytes \<Rightarrow> flow \<Rightarrow> control_channel" where
  "cc_new C handshake_prk th2 send_direction =
    \<lparr>cc_send_direction = send_direction, cc_epoch_prk = handshake_prk, cc_th2 = th2,
     cc_keys = derive_epoch C handshake_prk th2 0, cc_send_counter = 0, cc_receive_watermark = 0\<rparr>"

definition cc_epoch :: "control_channel \<Rightarrow> u64" where
  "cc_epoch ch = ek_epoch (cc_keys ch)"

definition cc_seal ::
  "prims \<Rightarrow> control_channel \<Rightarrow> u8 \<Rightarrow> u8 \<Rightarrow> u64 \<Rightarrow> bytes \<Rightarrow>
    (control_error + sealed_frame) \<times> control_channel" where
  "cc_seal C ch frame_type frame_flags request_id plaintext =
    (if cc_send_counter ch \<ge> MAX_FRAMES_PER_EPOCH then (Inl CounterExhausted, ch)
     else
       let epoch = cc_epoch ch; counter = cc_send_counter ch; dir = cc_send_direction ch;
           aad = control_aad dir epoch counter frame_type frame_flags request_id
       in case seal_with C (key_for (cc_keys ch) dir) dir epoch counter aad plaintext of
            Inl e \<Rightarrow> (Inl e, ch)
          | Inr ct \<Rightarrow> (Inr \<lparr>sf_epoch = epoch, sf_counter = counter, sf_ciphertext = ct\<rparr>,
                       ch\<lparr>cc_send_counter := cc_send_counter ch + 1\<rparr>))"

definition cc_open ::
  "prims \<Rightarrow> control_channel \<Rightarrow> u64 \<Rightarrow> u64 \<Rightarrow> u8 \<Rightarrow> u8 \<Rightarrow> u64 \<Rightarrow> bytes \<Rightarrow>
    (control_error + bytes) \<times> control_channel" where
  "cc_open C ch epoch counter frame_type frame_flags request_id ciphertext =
    (let dir = opposite (cc_send_direction ch) in
     if epoch < cc_epoch ch then (Inl StaleEpoch, ch)
     else if epoch > cc_epoch ch + 1 then (Inl EpochGap, ch)
     else
       let candidate =
             (if epoch = cc_epoch ch then None
              else let next_prk = advance_prk C (cc_epoch_prk ch) epoch
                   in Some (derive_epoch C next_prk (cc_th2 ch) epoch, next_prk))
       in if candidate = None \<and> counter < cc_receive_watermark ch then (Inl Replay, ch)
          else if counter \<ge> MAX_FRAMES_PER_EPOCH then (Inl MalformedFrame, ch)
          else
            let key = (case candidate of Some (ks, _) \<Rightarrow> key_for ks dir | None \<Rightarrow> key_for (cc_keys ch) dir);
                aad = control_aad dir epoch counter frame_type frame_flags request_id
            in case open_with C key dir epoch counter aad ciphertext of
                 Inl e \<Rightarrow> (Inl e, ch)
               | Inr pt \<Rightarrow>
                   let ch' = (case candidate of None \<Rightarrow> ch
                              | Some (ks, prk) \<Rightarrow> ch\<lparr>cc_keys := ks, cc_epoch_prk := prk,
                                  cc_send_counter := 0, cc_receive_watermark := 0\<rparr>)
                   in (Inr pt, ch'\<lparr>cc_receive_watermark := counter + 1\<rparr>))"

definition begin_next_epoch :: "prims \<Rightarrow> control_channel \<Rightarrow> control_channel" where
  "begin_next_epoch C ch =
    (let next_epoch = cc_epoch ch + 1; prk = advance_prk C (cc_epoch_prk ch) next_epoch
     in ch\<lparr>cc_keys := derive_epoch C prk (cc_th2 ch) next_epoch, cc_epoch_prk := prk,
           cc_send_counter := 0, cc_receive_watermark := 0\<rparr>)"

definition rekey_due :: "control_channel \<Rightarrow> bool" where
  "rekey_due ch \<longleftrightarrow> cc_send_counter ch + 1024 \<ge> MAX_FRAMES_PER_EPOCH"
section \<open>The channel one step at a time\<close>

definition cc_ok :: "control_channel \<Rightarrow> bool" where
  "cc_ok ch \<longleftrightarrow> length (ek_c2s (cc_keys ch)) = 32 \<and> length (ek_s2c (cc_keys ch)) = 32 \<and>
    cc_send_counter ch \<le> MAX_FRAMES_PER_EPOCH \<and> cc_receive_watermark ch \<le> MAX_FRAMES_PER_EPOCH"

lemma max_frames: "unat MAX_FRAMES_PER_EPOCH = 2 ^ 32"
  by (simp add: MAX_FRAMES_PER_EPOCH_def)

lemma counter_succ:
  assumes "c < MAX_FRAMES_PER_EPOCH"
  shows "unat (c + 1) = unat c + 1" and "c < c + 1" and "c + 1 \<le> MAX_FRAMES_PER_EPOCH"
proof -
  have "unat c < 2 ^ 32" using assms by (simp add: word_less_nat_alt max_frames)
  have u': "unat (c + 1) = Suc (unat c)" using assms by (rule unat_succ)
  then show "unat (c + 1) = unat c + 1" by simp
  from u' show "c < c + 1" "c + 1 \<le> MAX_FRAMES_PER_EPOCH"
    using \<open>unat c < 2 ^ 32\<close> by (simp_all add: word_less_nat_alt word_le_nat_alt max_frames)
qed

lemma length_key_for: "cc_ok ch \<Longrightarrow> length (key_for (cc_keys ch) d) = 32"
  by (cases d) (simp_all add: cc_ok_def)

lemma length_control_nonce: "kdf_lens C \<Longrightarrow> length (control_nonce C d e c) = 24"
  by (simp add: control_nonce_def kdf_lensD)

lemma cc_new_ok: "kdf_lens C \<Longrightarrow> cc_ok (cc_new C prk th2 d)"
  by (simp add: cc_ok_def cc_new_def derive_epoch_def kdf_lensD)

lemma begin_next_epoch_simps [simp]:
  "cc_epoch (begin_next_epoch C ch) = cc_epoch ch + 1"
  "cc_send_direction (begin_next_epoch C ch) = cc_send_direction ch"
  "cc_th2 (begin_next_epoch C ch) = cc_th2 ch"
  "cc_send_counter (begin_next_epoch C ch) = 0" "cc_receive_watermark (begin_next_epoch C ch) = 0"
  by (simp_all add: begin_next_epoch_def cc_epoch_def derive_epoch_def Let_def)

lemma begin_next_epoch_ok: "kdf_lens C \<Longrightarrow> cc_ok (begin_next_epoch C ch)"
  by (simp add: cc_ok_def begin_next_epoch_def derive_epoch_def kdf_lensD Let_def)

lemma opposite_opposite [simp]: "opposite (opposite d) = d"
  by (cases d) simp_all

text \<open>The channel in which a frame of a given epoch is opened: the present one, or the one after it.\<close>

definition at_epoch :: "prims \<Rightarrow> control_channel \<Rightarrow> u64 \<Rightarrow> control_channel" where
  "at_epoch C ch epoch = (if epoch = cc_epoch ch then ch else begin_next_epoch C ch)"

definition admissible :: "control_channel \<Rightarrow> u64 \<Rightarrow> u64 \<Rightarrow> bool" where
  "admissible ch epoch counter \<longleftrightarrow> counter < MAX_FRAMES_PER_EPOCH \<and>
    (epoch = cc_epoch ch \<and> cc_receive_watermark ch \<le> counter \<or>
     cc_epoch ch < epoch \<and> epoch = cc_epoch ch + 1)"

lemma epoch_window:
  fixes e :: u64
  shows "\<not> e' < e \<and> \<not> e + 1 < e' \<longleftrightarrow> e' = e \<and> e \<noteq> - 1 \<or> e < e' \<and> e' = e + 1"
proof (cases "e = - 1")
  case False
  then have "e < - 1" by (simp add: word_order.not_eq_extremum)
  then have "unat (e + 1) = Suc (unat e)" by (rule unat_succ)
  then show ?thesis
    using False by (auto simp: word_less_nat_alt word_unat_eq_iff)
next
  case True
  then show ?thesis
    using unat_u64_less [of e'] by (auto simp: word_less_nat_alt unat_u64_max)
qed

lemma cc_open_eq:
  assumes "cc_epoch ch \<noteq> - 1"
  shows "cc_open C ch epoch counter ft ff rid ct =
    (if admissible ch epoch counter then
       let dir = opposite (cc_send_direction ch); at = at_epoch C ch epoch in
       case open_with C (key_for (cc_keys at) dir) dir epoch counter
              (control_aad dir epoch counter ft ff rid) ct of
         Inl e \<Rightarrow> (Inl e, ch)
       | Inr pt \<Rightarrow> (Inr pt, at\<lparr>cc_receive_watermark := counter + 1\<rparr>)
     else (Inl (if epoch < cc_epoch ch then StaleEpoch else if epoch > cc_epoch ch + 1 then EpochGap
                else if epoch = cc_epoch ch \<and> counter < cc_receive_watermark ch then Replay
                else MalformedFrame), ch))"
proof (cases "epoch < cc_epoch ch \<or> epoch > cc_epoch ch + 1")
  case True
  then have "\<not> admissible ch epoch counter"
    using epoch_window [of epoch "cc_epoch ch"] assms by (auto simp: admissible_def)
  with True show ?thesis
    by (auto simp: cc_open_def Let_def)
next
  case False
  then consider (same) "epoch = cc_epoch ch" | (next_epoch) "cc_epoch ch < epoch" "epoch = cc_epoch ch + 1"
    using epoch_window [of epoch "cc_epoch ch"] assms by blast
  then show ?thesis
  proof cases
    case same
    with False show ?thesis
      by (auto simp: cc_open_def admissible_def at_epoch_def Let_def split: sum.splits)
  next
    case next_epoch
    then have "epoch \<noteq> cc_epoch ch" by simp
    with next_epoch False show ?thesis
      by (auto simp: cc_open_def admissible_def at_epoch_def begin_next_epoch_def Let_def split: sum.splits)
  qed
qed

lemma cc_open_last_epoch:
  assumes "cc_epoch ch = - 1"
  shows "cc_open C ch epoch counter ft ff rid ct = (Inl (if epoch < - 1 then StaleEpoch else EpochGap), ch)"
proof (cases "epoch = - 1")
  case True
  have "(0 :: u64) < - 1" by (simp add: word_less_nat_alt unat_u64_max)
  with True assms show ?thesis by (simp add: cc_open_def Let_def)
next
  case False
  then have "epoch < - 1" by (simp add: word_order.not_eq_extremum)
  with assms show ?thesis by (simp add: cc_open_def Let_def)
qed

lemma cc_open_state:
  assumes op: "cc_open C ch epoch counter ft ff rid ct = (r, ch')"
  obtains (refused) e where "r = Inl e" "ch' = ch"
  | (accepted) pt where "r = Inr pt" "admissible ch epoch counter"
      "ch' = (at_epoch C ch epoch)\<lparr>cc_receive_watermark := counter + 1\<rparr>"
proof (cases "cc_epoch ch = - 1")
  case True
  then have "r = Inl (projl r) \<and> ch' = ch"
    using op by (auto simp: cc_open_last_epoch)
  then show thesis using refused by blast
next
  case False
  show thesis
  proof (cases "admissible ch epoch counter")
    case True
    let ?dir = "opposite (cc_send_direction ch)"
    let ?o = "open_with C (key_for (cc_keys (at_epoch C ch epoch)) ?dir) ?dir epoch counter
        (control_aad ?dir epoch counter ft ff rid) ct"
    show thesis
    proof (cases ?o)
      case (Inl e)
      with op False True show thesis by (intro refused [of e]) (simp_all add: cc_open_eq Let_def)
    next
      case (Inr pt)
      with op False True show thesis by (intro accepted [of pt]) (simp_all add: cc_open_eq Let_def)
    qed
  next
    case False
    then have "r = Inl (projl r) \<and> ch' = ch"
      using op \<open>cc_epoch ch \<noteq> - 1\<close> by (auto simp: cc_open_eq)
    then show thesis using refused by blast
  qed
qed

lemma cc_seal_state:
  assumes "cc_seal C ch ft ff rid pt = (r, ch')"
  obtains (refused) e where "r = Inl e" "ch' = ch"
  | (sealed) sf where "r = Inr sf" "sf_epoch sf = cc_epoch ch" "sf_counter sf = cc_send_counter ch"
      "cc_send_counter ch < MAX_FRAMES_PER_EPOCH" "ch' = ch\<lparr>cc_send_counter := cc_send_counter ch + 1\<rparr>"
proof (cases "MAX_FRAMES_PER_EPOCH \<le> cc_send_counter ch")
  case True
  with assms show thesis by (intro refused [of CounterExhausted]) (simp_all add: cc_seal_def)
next
  case False
  let ?dir = "cc_send_direction ch"
  show thesis
  proof (cases "seal_with C (key_for (cc_keys ch) ?dir) ?dir (cc_epoch ch) (cc_send_counter ch)
      (control_aad ?dir (cc_epoch ch) (cc_send_counter ch) ft ff rid) pt")
    case (Inl e)
    with assms False show thesis by (intro refused [of e]) (simp_all add: cc_seal_def Let_def)
  next
    case (Inr ct)
    with assms False show thesis
      by (intro sealed [of "\<lparr>sf_epoch = cc_epoch ch, sf_counter = cc_send_counter ch, sf_ciphertext = ct\<rparr>"])
        (simp_all add: cc_seal_def Let_def not_le)
  qed
qed

section \<open>Runs of one channel\<close>

text \<open>
  A run of a channel from its creation: any interleaving of frames sealed, frames presented (by an
  adversary, in any order) and epochs begun. It records the epoch and counter of every frame sealed and of every
  frame accepted, and the number of steps.
\<close>

definition sealed_id :: "control_error + sealed_frame \<Rightarrow> (u64 \<times> u64) list" where
  "sealed_id r = (case r of Inl _ \<Rightarrow> [] | Inr sf \<Rightarrow> [(sf_epoch sf, sf_counter sf)])"

inductive channel_run ::
  "prims \<Rightarrow> control_channel \<Rightarrow> control_channel \<Rightarrow> (u64 \<times> u64) list \<Rightarrow> (u64 \<times> u64) list \<Rightarrow> nat \<Rightarrow> bool"
  for C ch0 where
  start: "channel_run C ch0 ch0 [] [] 0"
| seal: "channel_run C ch0 ch sent accepted n \<Longrightarrow> cc_seal C ch ft ff rid pt = (r, ch') \<Longrightarrow>
    channel_run C ch0 ch' (sent @ sealed_id r) accepted (Suc n)"
| receive: "channel_run C ch0 ch sent accepted n \<Longrightarrow> cc_open C ch epoch counter ft ff rid ct = (r, ch') \<Longrightarrow>
    channel_run C ch0 ch' sent (accepted @ (if is_ok r then [(epoch, counter)] else [])) (Suc n)"
| rekey: "channel_run C ch0 ch sent accepted n \<Longrightarrow>
    channel_run C ch0 (begin_next_epoch C ch) sent accepted (Suc n)"

definition before :: "u64 \<times> u64 \<Rightarrow> u64 \<times> u64 \<Rightarrow> bool" where
  "before p q \<longleftrightarrow> fst p < fst q \<or> fst p = fst q \<and> snd p < snd q"

definition log_ok :: "(u64 \<times> u64) list \<Rightarrow> u64 \<Rightarrow> u64 \<Rightarrow> bool" where
  "log_ok ids epoch counter \<longleftrightarrow> sorted_wrt before ids \<and> (\<forall>p \<in> set ids. before p (epoch, counter))"

lemma log_ok_mono: "log_ok ids e c \<Longrightarrow> e < e' \<or> e = e' \<and> c \<le> c' \<Longrightarrow> log_ok ids e' c'"
  by (fastforce simp: log_ok_def before_def)

lemma log_ok_later: "log_ok ids e c \<Longrightarrow> e < e' \<Longrightarrow> log_ok ids e' c'"
  by (rule log_ok_mono, assumption) simp

lemma log_ok_snoc: "log_ok ids e c \<Longrightarrow> c < c' \<Longrightarrow> log_ok (ids @ [(e, c)]) e c'"
  by (fastforce simp: log_ok_def before_def sorted_wrt_append)

lemma sorted_before_distinct: "sorted_wrt before ids \<Longrightarrow> distinct ids"
  by (induction ids) (auto simp: before_def)

lemma epoch_succ:
  fixes e :: u64
  shows "unat e + 1 < 2 ^ 64 \<Longrightarrow> e < e + 1 \<and> unat (e + 1) = unat e + 1"
  using unat_succ [of e "- 1"] by (simp add: word_less_nat_alt unat_u64_max)

definition run_inv :: "control_channel \<Rightarrow> (u64 \<times> u64) list \<Rightarrow> (u64 \<times> u64) list \<Rightarrow> nat \<Rightarrow> bool" where
  "run_inv ch sent accepted n \<longleftrightarrow> unat (cc_epoch ch) \<le> n \<and>
    log_ok sent (cc_epoch ch) (cc_send_counter ch) \<and> log_ok accepted (cc_epoch ch) (cc_receive_watermark ch)"

lemma run_inv_rekey:
  assumes "run_inv ch sent accepted n" and "Suc n < 2 ^ 64"
  shows "run_inv (begin_next_epoch C ch) sent accepted (Suc n)"
proof -
  have "cc_epoch ch < cc_epoch ch + 1" "unat (cc_epoch ch + 1) = unat (cc_epoch ch) + 1"
    using assms epoch_succ [of "cc_epoch ch"] by (simp_all add: run_inv_def)
  then show ?thesis
    using assms(1) by (auto simp: run_inv_def intro: log_ok_later)
qed

lemma run_inv_receive:
  assumes inv: "run_inv ch sent accepted n" and n: "Suc n < 2 ^ 64" and adm: "admissible ch epoch counter"
  shows "run_inv ((at_epoch C ch epoch)\<lparr>cc_receive_watermark := counter + 1\<rparr>) sent (accepted @ [(epoch, counter)]) (Suc n)"
proof -
  have c: "counter < counter + 1" using adm counter_succ by (simp add: admissible_def)
  show ?thesis
  proof (cases "epoch = cc_epoch ch")
    case True
    then have "log_ok accepted epoch counter"
      using inv adm log_ok_mono [of accepted "cc_epoch ch" "cc_receive_watermark ch" epoch counter]
      by (auto simp: run_inv_def admissible_def)
    with True inv c show ?thesis
      by (simp add: run_inv_def at_epoch_def cc_epoch_def log_ok_snoc)
  next
    case False
    then have e: "epoch = cc_epoch ch + 1" "cc_epoch ch < epoch"
      using adm by (auto simp: admissible_def)
    have "run_inv (begin_next_epoch C ch) sent accepted (Suc n)"
      using run_inv_rekey inv n by blast
    moreover have "log_ok accepted epoch counter"
      using inv e log_ok_mono [of accepted "cc_epoch ch" "cc_receive_watermark ch" epoch counter]
      by (simp add: run_inv_def)
    moreover have "cc_epoch ((begin_next_epoch C ch)\<lparr>cc_receive_watermark := counter + 1\<rparr>) = epoch"
      using e begin_next_epoch_simps(1) by (simp add: cc_epoch_def)
    ultimately show ?thesis
      using False c e by (simp add: run_inv_def at_epoch_def log_ok_snoc)
  qed
qed

lemma channel_run_inv:
  assumes "channel_run C (cc_new C prk th2 d) ch sent accepted n" and "n < 2 ^ 64"
  shows "run_inv ch sent accepted n"
  using assms
proof (induction rule: channel_run.induct)
  case start
  then show ?case by (simp add: run_inv_def log_ok_def cc_epoch_def cc_new_def derive_epoch_def)
next
  case (seal ch sent accepted n ft ff rid pt r ch')
  then have inv: "run_inv ch sent accepted n" by simp
  from seal.hyps(2) show ?case
  proof (cases rule: cc_seal_state)
    case refused
    with inv show ?thesis by (simp add: run_inv_def sealed_id_def)
  next
    case (sealed sf)
    with inv show ?thesis
      by (simp add: run_inv_def sealed_id_def cc_epoch_def log_ok_snoc counter_succ)
  qed
next
  case (receive ch sent accepted n epoch counter ft ff rid ct r ch')
  then have inv: "run_inv ch sent accepted n" by simp
  from receive.hyps(2) show ?case
  proof (cases rule: cc_open_state)
    case refused
    with inv show ?thesis by (simp add: run_inv_def)
  next
    case accepted
    with inv receive.prems show ?thesis by (simp add: run_inv_receive)
  qed
next
  case (rekey ch sent accepted n)
  then show ?case by (simp add: run_inv_rekey)
qed
section \<open>Two ends of a session\<close>

record frame =
  fr_type :: u8
  fr_flags :: u8
  fr_request :: u64
  fr_body :: bytes

definition linked :: "control_channel \<Rightarrow> control_channel \<Rightarrow> bool" where
  "linked a b \<longleftrightarrow> cc_send_direction b = opposite (cc_send_direction a) \<and> cc_th2 b = cc_th2 a \<and>
    cc_epoch_prk b = cc_epoch_prk a \<and> cc_keys b = cc_keys a \<and>
    cc_receive_watermark b \<le> cc_send_counter a \<and> cc_receive_watermark a \<le> cc_send_counter b \<and>
    cc_ok a \<and> cc_ok b"

definition transmit ::
  "prims \<Rightarrow> control_channel \<Rightarrow> control_channel \<Rightarrow> frame \<Rightarrow> (bytes \<times> control_channel \<times> control_channel) option" where
  "transmit C s r m =
    (case cc_seal C s (fr_type m) (fr_flags m) (fr_request m) (fr_body m) of
       (Inl _, _) \<Rightarrow> None
     | (Inr sf, s') \<Rightarrow>
         (case cc_open C r (sf_epoch sf) (sf_counter sf) (fr_type m) (fr_flags m) (fr_request m)
                 (sf_ciphertext sf) of
            (Inl _, _) \<Rightarrow> None
          | (Inr pt, r') \<Rightarrow> Some (pt, s', r')))"

text \<open>
  A dialogue: each exchange says which end sends, and whether it begins a new epoch first. It yields the bodies
  the receiving ends obtain, or None as soon as a frame is refused.
\<close>

fun dialogue :: "prims \<Rightarrow> control_channel \<Rightarrow> control_channel \<Rightarrow> (bool \<times> bool \<times> frame) list \<Rightarrow> bytes list option" where
  "dialogue C a b [] = Some []"
| "dialogue C a b ((from_a, rekey, m) # xs) =
    (let s = (if from_a then a else b); r = (if from_a then b else a);
         s = (if rekey then begin_next_epoch C s else s)
     in case transmit C s r m of
          None \<Rightarrow> None
        | Some (pt, s, r) \<Rightarrow>
            map_option ((#) pt) (if from_a then dialogue C s r xs else dialogue C r s xs))"

lemma linked_sym: "linked a b \<longleftrightarrow> linked b a"
  by (auto simp: linked_def)

lemma linked_new: "kdf_lens C \<Longrightarrow> linked (cc_new C prk th2 d) (cc_new C prk th2 (opposite d))"
  using cc_new_ok [of C prk th2] by (simp add: linked_def) (simp add: cc_new_def)

lemma transmit_at:
  assumes C: "aead_ok C" "kdf_lens C"
    and ep: "cc_epoch r \<noteq> - 1"
    and dirs: "cc_send_direction r = opposite (cc_send_direction s)"
    and keys: "cc_keys (at_epoch C r (cc_epoch s)) = cc_keys s"
    and ok: "cc_ok s" and room: "cc_send_counter s < MAX_FRAMES_PER_EPOCH"
    and adm: "admissible r (cc_epoch s) (cc_send_counter s)"
  shows "transmit C s r m = Some (fr_body m, s\<lparr>cc_send_counter := cc_send_counter s + 1\<rparr>,
    (at_epoch C r (cc_epoch s))\<lparr>cc_receive_watermark := cc_send_counter s + 1\<rparr>)"
proof -
  let ?d = "cc_send_direction s" and ?e = "cc_epoch s" and ?n = "cc_send_counter s"
  let ?aad = "control_aad ?d ?e ?n (fr_type m) (fr_flags m) (fr_request m)"
  obtain ct where ct: "aead_encrypt C (key_for (cc_keys s) ?d) (control_nonce C ?d ?e ?n) ?aad (fr_body m) = Some ct"
    "aead_decrypt C (key_for (cc_keys s) ?d) (control_nonce C ?d ?e ?n) ?aad ct = Some (fr_body m)"
    using aead_okD [OF C(1) length_key_for [OF ok] length_control_nonce [OF C(2)]] by metis
  have seal: "cc_seal C s (fr_type m) (fr_flags m) (fr_request m) (fr_body m) =
      (Inr \<lparr>sf_epoch = ?e, sf_counter = ?n, sf_ciphertext = ct\<rparr>, s\<lparr>cc_send_counter := ?n + 1\<rparr>)"
    using room ct(1) by (simp add: cc_seal_def Let_def seal_with_def not_le [symmetric])
  have "cc_open C r ?e ?n (fr_type m) (fr_flags m) (fr_request m) ct =
      (Inr (fr_body m), (at_epoch C r ?e)\<lparr>cc_receive_watermark := ?n + 1\<rparr>)"
    using adm ct(2) by (simp add: cc_open_eq [OF ep] dirs keys open_with_def)
  with seal show ?thesis by (simp add: transmit_def)
qed

lemma transmit_linked:
  assumes C: "aead_ok C" "kdf_lens C" and lk: "linked s r"
    and room: "unat (cc_send_counter s) < 2 ^ 32" and ep: "unat (cc_epoch s) < 2 ^ 64 - 1"
  shows "\<exists>s' r'. transmit C s r m = Some (fr_body m, s', r') \<and> linked s' r' \<and> cc_epoch s' = cc_epoch s \<and>
    unat (cc_send_counter s') = unat (cc_send_counter s) + 1 \<and> cc_send_counter r' = cc_send_counter r"
proof -
  have n: "cc_send_counter s < MAX_FRAMES_PER_EPOCH"
    using room by (simp add: word_less_nat_alt max_frames)
  have e: "cc_epoch r = cc_epoch s" using lk by (simp add: linked_def cc_epoch_def)
  have "cc_epoch r \<noteq> - 1" using ep e by (auto simp: unat_u64_max)
  moreover have "admissible r (cc_epoch s) (cc_send_counter s)"
    using lk n e by (simp add: admissible_def linked_def)
  moreover have "at_epoch C r (cc_epoch s) = r" by (simp add: at_epoch_def e)
  ultimately have "transmit C s r m = Some (fr_body m, s\<lparr>cc_send_counter := cc_send_counter s + 1\<rparr>,
      r\<lparr>cc_receive_watermark := cc_send_counter s + 1\<rparr>)"
    using transmit_at [OF C, of r s m] lk n by (simp add: linked_def)
  moreover have "linked (s\<lparr>cc_send_counter := cc_send_counter s + 1\<rparr>)
      (r\<lparr>cc_receive_watermark := cc_send_counter s + 1\<rparr>)"
    using lk counter_succ [OF n] by (simp add: linked_def cc_ok_def)
  ultimately show ?thesis
    using counter_succ [OF n] by (simp add: cc_epoch_def)
qed

lemma transmit_rekey:
  assumes C: "aead_ok C" "kdf_lens C" and lk: "linked s r" and ep: "unat (cc_epoch s) < 2 ^ 64 - 1"
  shows "\<exists>s' r'. transmit C (begin_next_epoch C s) r m = Some (fr_body m, s', r') \<and> linked s' r' \<and>
    unat (cc_epoch s') = unat (cc_epoch s) + 1 \<and> unat (cc_send_counter s') = 1 \<and> cc_send_counter r' = 0"
proof -
  let ?s = "begin_next_epoch C s" and ?r = "begin_next_epoch C r"
  have e: "cc_epoch r = cc_epoch s" using lk by (simp add: linked_def cc_epoch_def)
  have lt: "cc_epoch s < cc_epoch s + 1" "unat (cc_epoch s + 1) = unat (cc_epoch s) + 1"
    using ep epoch_succ [of "cc_epoch s"] by simp_all
  have ne: "cc_epoch s + 1 \<noteq> cc_epoch s" using lt(1) by auto
  have "cc_epoch r \<noteq> - 1" using ep e by (auto simp: unat_u64_max)
  moreover have zero: "0 < MAX_FRAMES_PER_EPOCH" by (simp add: word_less_nat_alt max_frames)
  moreover have "at_epoch C r (cc_epoch ?s) = ?r"
    using ne e by (simp add: at_epoch_def)
  moreover have keys: "cc_keys ?r = cc_keys ?s" "cc_epoch_prk ?r = cc_epoch_prk ?s"
    using lk e by (simp_all add: begin_next_epoch_def linked_def cc_epoch_def Let_def)
  ultimately have "transmit C ?s r m = Some (fr_body m, ?s\<lparr>cc_send_counter := 1\<rparr>, ?r\<lparr>cc_receive_watermark := 1\<rparr>)"
    using transmit_at [OF C, of r ?s m] lk lt e begin_next_epoch_ok [OF C(2), of s]
    by (simp add: admissible_def linked_def)
  moreover have "linked (?s\<lparr>cc_send_counter := 1\<rparr>) (?r\<lparr>cc_receive_watermark := 1\<rparr>)"
    using lk keys begin_next_epoch_ok [OF C(2), of s] begin_next_epoch_ok [OF C(2), of r]
    by (simp add: linked_def cc_ok_def word_le_nat_alt max_frames)
  moreover have "cc_epoch (?s\<lparr>cc_send_counter := 1\<rparr>) = cc_epoch s + 1"
    using begin_next_epoch_simps(1) [of C s] by (simp add: cc_epoch_def)
  ultimately show ?thesis using lt(2) by simp
qed

lemma dialogue_step:
  assumes C: "aead_ok C" "kdf_lens C" and lk: "linked s r"
    and room: "unat (cc_send_counter s) < 2 ^ 32" and ep: "unat (cc_epoch s) < 2 ^ 64 - 1"
  shows "\<exists>s' r'. transmit C (if rekey then begin_next_epoch C s else s) r m = Some (fr_body m, s', r') \<and>
    linked s' r' \<and> unat (cc_epoch s') \<le> unat (cc_epoch s) + 1 \<and>
    unat (cc_send_counter s') \<le> unat (cc_send_counter s) + 1 \<and>
    unat (cc_send_counter r') \<le> unat (cc_send_counter r)"
proof (cases rekey)
  case True
  with transmit_rekey [OF C lk ep, of m] show ?thesis by force
next
  case False
  with transmit_linked [OF C lk room ep, of m] show ?thesis by force
qed

lemma linked_epoch: "linked a b \<Longrightarrow> cc_epoch b = cc_epoch a"
  by (simp add: linked_def cc_epoch_def)

lemma dialogue_delivers:
  assumes C: "aead_ok C" "kdf_lens C"
  shows "linked a b \<Longrightarrow> unat (cc_send_counter a) + length xs \<le> 2 ^ 32 \<Longrightarrow>
    unat (cc_send_counter b) + length xs \<le> 2 ^ 32 \<Longrightarrow> unat (cc_epoch a) + length xs < 2 ^ 64 \<Longrightarrow>
    dialogue C a b xs = Some (map (\<lambda>(_, _, m). fr_body m) xs)"
proof (induction xs arbitrary: a b)
  case (Cons x xs)
  obtain from_a rekey m where x: "x = (from_a, rekey, m)" by (cases x)
  show ?case
  proof (cases from_a)
    case True
    obtain a' b' where t: "transmit C (if rekey then begin_next_epoch C a else a) b m = Some (fr_body m, a', b')"
        "linked a' b'" "unat (cc_epoch a') \<le> unat (cc_epoch a) + 1"
        "unat (cc_send_counter a') \<le> unat (cc_send_counter a) + 1" "unat (cc_send_counter b') \<le> unat (cc_send_counter b)"
      using dialogue_step [OF C, of a b rekey m] Cons.prems by auto
    then have "dialogue C a' b' xs = Some (map (\<lambda>(_, _, m). fr_body m) xs)"
      using Cons.prems by (intro Cons.IH) simp_all
    with t(1) True x show ?thesis by (simp add: Let_def)
  next
    case False
    obtain b' a' where t: "transmit C (if rekey then begin_next_epoch C b else b) a m = Some (fr_body m, b', a')"
        "linked b' a'" "unat (cc_epoch b') \<le> unat (cc_epoch b) + 1"
        "unat (cc_send_counter b') \<le> unat (cc_send_counter b) + 1" "unat (cc_send_counter a') \<le> unat (cc_send_counter a)"
      using dialogue_step [OF C, of b a rekey m] Cons.prems linked_epoch [of a b] by (auto simp: linked_sym [of b a])
    then have "dialogue C a' b' xs = Some (map (\<lambda>(_, _, m). fr_body m) xs)"
      using Cons.prems linked_epoch [of a b] linked_epoch [of a' b'] linked_sym [of a' b']
      by (intro Cons.IH) simp_all
    with t(1) False x show ?thesis by (simp add: Let_def)
  qed
qed simp

lemma control_aad_inj: "control_aad d e c t f q = control_aad d' e' c' t' f' q' \<longleftrightarrow>
    d = d' \<and> e = e' \<and> c = c' \<and> t = t' \<and> f = f' \<and> q = q'"
proof -
  have "flow_byte d = flow_byte d' \<longleftrightarrow> d = d'" by (cases d; cases d') simp_all
  then show ?thesis by (auto simp: control_aad_def)
qed

section \<open>Properties\<close>

text \<open>C17: A frame is accepted exactly when its epoch is the current one with a counter not yet passed, or the next
  epoch, its counter is below 2^32, and its ciphertext is what sealing the returned plaintext under that epoch's key and
  the very same header gives; the associated data pins every header field. A refused frame leaves the channel
  as it was.\<close>

theorem control_open_exact:
  assumes "aead_ok C" "aead_auth C" "kdf_lens C" "cc_ok ch" "cc_epoch ch \<noteq> - 1"
  shows "(fst (cc_open C ch epoch counter ft ff rid ct) = Inr pt \<longleftrightarrow>
      admissible ch epoch counter \<and>
      (let dir = opposite (cc_send_direction ch) in
       seal_with C (key_for (cc_keys (at_epoch C ch epoch)) dir) dir epoch counter
         (control_aad dir epoch counter ft ff rid) pt = Inr ct)) \<and>
    (is_ok (fst (cc_open C ch epoch counter ft ff rid ct)) \<or> snd (cc_open C ch epoch counter ft ff rid ct) = ch) \<and>
    (control_aad d e c t f q = control_aad d' e' c' t' f' q' \<longleftrightarrow>
      d = d' \<and> e = e' \<and> c = c' \<and> t = t' \<and> f = f' \<and> q = q')"
proof -
  let ?dir = "opposite (cc_send_direction ch)"
  have "length (key_for (cc_keys (at_epoch C ch epoch)) ?dir) = 32"
    using assms length_key_for begin_next_epoch_ok by (simp add: at_epoch_def)
  note ae = aead_iff [OF assms(1,2) this length_control_nonce [OF assms(3)]]
  have "seal_with C (key_for (cc_keys (at_epoch C ch epoch)) ?dir) ?dir epoch counter
        (control_aad ?dir epoch counter ft ff rid) pt = Inr ct \<longleftrightarrow>
      open_with C (key_for (cc_keys (at_epoch C ch epoch)) ?dir) ?dir epoch counter
        (control_aad ?dir epoch counter ft ff rid) ct = Inr pt"
    by (simp add: seal_with_def open_with_def ok_or_eq_Inr ae)
  then have "fst (cc_open C ch epoch counter ft ff rid ct) = Inr pt \<longleftrightarrow> admissible ch epoch counter \<and>
      seal_with C (key_for (cc_keys (at_epoch C ch epoch)) ?dir) ?dir epoch counter
        (control_aad ?dir epoch counter ft ff rid) pt = Inr ct"
    by (auto simp: cc_open_eq [OF assms(5)] Let_def split: sum.splits)
  moreover have "is_ok (fst (cc_open C ch epoch counter ft ff rid ct)) \<or> snd (cc_open C ch epoch counter ft ff rid ct) = ch"
    using cc_open_state [of C ch epoch counter ft ff rid ct] by (metis is_ok_simps(1) prod.collapse)
  ultimately show ?thesis by (simp add: Let_def control_aad_inj)
qed

theorem control_open_exact_witness:
  "let ch = cc_new sample_prims [] [] ServerToClient; a = cc_new sample_prims [] [] ClientToServer in
   \<exists>ct. sf_ciphertext (projr (fst (cc_seal sample_prims a 1 0 7 [42]))) = ct \<and>
     fst (cc_open sample_prims ch 0 0 1 0 7 ct) = Inr [42] \<and>
     snd (cc_open sample_prims ch 5 0 1 0 7 ct) = ch"
proof -
  let ?ch = "cc_new sample_prims [] [] ServerToClient"
  have e: "cc_epoch ?ch = 0" by (simp add: cc_new_def cc_epoch_def derive_epoch_def)
  then have ne: "cc_epoch ?ch \<noteq> - 1" by simp
  note ex = control_open_exact [OF sample_prims_ok cc_new_ok [OF sample_prims_ok(3)] ne]
  show ?thesis
    using ex [of 0 0 1 0 7 "sf_ciphertext (projr (fst (cc_seal sample_prims (cc_new sample_prims [] [] ClientToServer) 1 0 7 [42])))" "[42]"]
      ex [of 5 0 1 0 7 "sf_ciphertext (projr (fst (cc_seal sample_prims (cc_new sample_prims [] [] ClientToServer) 1 0 7 [42])))" "[42]"]
    by (auto simp: Let_def e cc_seal_def at_epoch_def admissible_def seal_with_def cc_open_def
        sample_prims_def sample_encrypt_def cc_new_def cc_epoch_def derive_epoch_def MAX_FRAMES_PER_EPOCH_def)
qed

text \<open>C6: In every run of a channel of fewer than 2^64 steps, whatever frames an adversary presents, the (epoch, counter) pairs of the
  frames sealed strictly increase, and so do those of the frames accepted. So no nonce is used twice and no frame
  is accepted twice.\<close>

theorem control_single_use:
  assumes "channel_run C (cc_new C prk th2 d) ch sent accepted n" and "n < 2 ^ 64"
  shows "sorted_wrt before sent \<and> distinct sent \<and> sorted_wrt before accepted \<and> distinct accepted"
  using channel_run_inv [OF assms] sorted_before_distinct by (auto simp: run_inv_def log_ok_def)

theorem control_single_use_witness:
  "\<exists>ch sent. channel_run sample_prims (cc_new sample_prims [] [] ClientToServer) ch sent [] 2 \<and>
    sent = [(0, 0), (0, 1)] \<and> distinct sent"
proof -
  let ?C = sample_prims and ?a = "cc_new sample_prims [] [] ClientToServer"
  define r1 where "r1 = cc_seal ?C ?a 0 0 0 []"
  define r2 where "r2 = cc_seal ?C (snd r1) 0 0 0 []"
  have run: "channel_run ?C ?a (snd r2) (([] @ sealed_id (fst r1)) @ sealed_id (fst r2)) [] (Suc (Suc 0))"
    using channel_run.seal [OF channel_run.seal [OF channel_run.start], of ?C ?a 0 0 0 "[]" "fst r1" "snd r1" 0 0 0 "[]"
        "fst r2" "snd r2"]
    by (simp add: r1_def r2_def)
  have ids: "([] @ sealed_id (fst r1)) @ sealed_id (fst r2) = [(0, 0), (0, 1)]"
    by (simp add: r1_def r2_def cc_seal_def seal_with_def sample_prims_def sample_encrypt_def Let_def sealed_id_def
        cc_new_def cc_epoch_def derive_epoch_def MAX_FRAMES_PER_EPOCH_def word_le_nat_alt)
  show ?thesis
    using control_single_use [OF run] run ids by (auto simp: numeral_2_eq_2)
qed

text \<open>C13: Two channels made from one handshake understand each other: in any dialogue of up to 2^32 frames, in which
  either end sends and may begin a new epoch before sending, every frame is accepted and yields its body.\<close>

theorem control_delivery:
  assumes "aead_ok C" "kdf_lens C" "length xs \<le> 2 ^ 32"
  shows "dialogue C (cc_new C prk th2 d) (cc_new C prk th2 (opposite d)) xs =
    Some (map (\<lambda>(_, _, m). fr_body m) xs)"
  using assms
  by (intro dialogue_delivers linked_new) (simp_all add: cc_new_def cc_epoch_def derive_epoch_def)

theorem control_delivery_witness:
  "let m = (\<lambda>b. \<lparr>fr_type = 1, fr_flags = 0, fr_request = 3, fr_body = b\<rparr>) in
   dialogue sample_prims (cc_new sample_prims [1] [2] ClientToServer) (cc_new sample_prims [1] [2] ServerToClient)
     [(True, False, m [10]), (False, True, m [11, 12]), (True, False, m [])] = Some [[10], [11, 12], []]"
  using control_delivery [OF sample_prims_ok(1,3), of "[(True, False, \<lparr>fr_type = 1, fr_flags = 0, fr_request = 3, fr_body = [10]\<rparr>),
      (False, True, \<lparr>fr_type = 1, fr_flags = 0, fr_request = 3, fr_body = [11, 12]\<rparr>),
      (True, False, \<lparr>fr_type = 1, fr_flags = 0, fr_request = 3, fr_body = []\<rparr>)]" "[1]" "[2]" ClientToServer]
  by (simp add: Let_def del: dialogue.simps)

end
