(* ===== verification/Rtp_Events.thy ===== *)
theory Rtp_Events
  imports Rtp_Cbor "HOL-Library.Sublist"
begin

text \<open>
  \<open>rtp2-core/src/events.rs\<close>: the events, their encoding, and the bounded queue between the transfers
  and the application, with its mutex and its condition variable. The mutex makes a push and each turn of \<open>poll\<close> atomic, so threads interleave
  between them.
\<close>

section \<open>Events\<close>

definition MAX_EVENTS :: nat where
  "MAX_EVENTS = 1024"

datatype progress_role = Receiving | Sending

datatype event =
  TransferStarted (ev_transfer_id: bytes) (ev_objects: u64) (ev_total_bytes: u64)
| TransferProgress (ev_transfer_id: bytes) (ev_role: progress_role) (ev_bytes: u64) (ev_total_bytes: u64)
    (ev_chunks: u64) (ev_total_chunks: u64)
| ObjectCompleted (ev_transfer_id: bytes) (ev_object_id: bytes) (ev_plaintext_digest: bytes)
| TransferCompleted (ev_transfer_id: bytes) (ev_objects: u64)
| TransferFailed (ev_transfer_id: bytes) (ev_code: u64)
| TransferCancelled (ev_transfer_id: bytes)
| EventsDropped (ev_lost: u64)
| TransferRoute (ev_transfer_id: bytes) (ev_route: u64) (ev_address_class: "u64 option")

fun role_u64 :: "progress_role \<Rightarrow> u64" where
  "role_u64 Receiving = 0"
| "role_u64 Sending = 1"

fun type_code :: "event \<Rightarrow> u64" where
  "type_code (TransferStarted _ _ _) = 1"
| "type_code (TransferProgress _ _ _ _ _ _) = 2"
| "type_code (ObjectCompleted _ _ _) = 3"
| "type_code (TransferCompleted _ _) = 4"
| "type_code (TransferFailed _ _) = 5"
| "type_code (TransferCancelled _) = 6"
| "type_code (EventsDropped _) = 7"
| "type_code (TransferRoute _ _ _) = 8"

fun is_terminal :: "event \<Rightarrow> bool" where
  "is_terminal (ObjectCompleted _ _ _) = True"
| "is_terminal (TransferCompleted _ _) = True"
| "is_terminal (TransferFailed _ _) = True"
| "is_terminal (TransferCancelled _) = True"
| "is_terminal _ = False"

fun progress_key :: "event \<Rightarrow> (bytes \<times> progress_role) option" where
  "progress_key (TransferProgress transfer_id role _ _ _ _) = Some (transfer_id, role)"
| "progress_key _ = None"

fun ev_encode :: "event \<Rightarrow> bytes option" where
  "ev_encode (TransferStarted transfer_id objects total_bytes) =
    do {
      m \<leftarrow> Some (mw_begin [] 4);
      m \<leftarrow> mw_uint m 0 1;
      m \<leftarrow> mw_bytes m 1 transfer_id;
      m \<leftarrow> mw_uint m 2 objects;
      m \<leftarrow> mw_uint m 3 total_bytes;
      mw_end m
    }"
| "ev_encode (TransferProgress transfer_id role bytes total_bytes chunks total_chunks) =
    do {
      m \<leftarrow> Some (mw_begin [] 7);
      m \<leftarrow> mw_uint m 0 2;
      m \<leftarrow> mw_bytes m 1 transfer_id;
      m \<leftarrow> mw_uint m 2 bytes;
      m \<leftarrow> mw_uint m 3 total_bytes;
      m \<leftarrow> mw_uint m 4 chunks;
      m \<leftarrow> mw_uint m 5 total_chunks;
      m \<leftarrow> mw_uint m 6 (role_u64 role);
      mw_end m
    }"
| "ev_encode (ObjectCompleted transfer_id object_id plaintext_digest) =
    do {
      m \<leftarrow> Some (mw_begin [] 4);
      m \<leftarrow> mw_uint m 0 3;
      m \<leftarrow> mw_bytes m 1 transfer_id;
      m \<leftarrow> mw_bytes m 2 object_id;
      m \<leftarrow> mw_bytes m 3 plaintext_digest;
      mw_end m
    }"
| "ev_encode (TransferCompleted transfer_id objects) =
    do {
      m \<leftarrow> Some (mw_begin [] 3);
      m \<leftarrow> mw_uint m 0 4;
      m \<leftarrow> mw_bytes m 1 transfer_id;
      m \<leftarrow> mw_uint m 2 objects;
      mw_end m
    }"
| "ev_encode (TransferFailed transfer_id code) =
    do {
      m \<leftarrow> Some (mw_begin [] 3);
      m \<leftarrow> mw_uint m 0 5;
      m \<leftarrow> mw_bytes m 1 transfer_id;
      m \<leftarrow> mw_uint m 2 code;
      mw_end m
    }"
| "ev_encode (TransferCancelled transfer_id) =
    do {
      m \<leftarrow> Some (mw_begin [] 2);
      m \<leftarrow> mw_uint m 0 6;
      m \<leftarrow> mw_bytes m 1 transfer_id;
      mw_end m
    }"
| "ev_encode (EventsDropped lost) =
    do {
      m \<leftarrow> Some (mw_begin [] 2);
      m \<leftarrow> mw_uint m 0 7;
      m \<leftarrow> mw_uint m 1 lost;
      mw_end m
    }"
| "ev_encode (TransferRoute transfer_id route address_class) =
    do {
      m \<leftarrow> Some (mw_begin [] (if address_class \<noteq> None then 4 else 3));
      m \<leftarrow> mw_uint m 0 8;
      m \<leftarrow> mw_bytes m 1 transfer_id;
      m \<leftarrow> mw_uint m 2 route;
      m \<leftarrow> (case address_class of Some cls \<Rightarrow> mw_uint m 3 cls | None \<Rightarrow> Some m);
      mw_end m
    }"

section \<open>The queue\<close>

record event_queue =
  eq_queue :: "event list"
  eq_unreported_drops :: u64

definition eq_new :: event_queue where
  "eq_new = \<lparr>eq_queue = [], eq_unreported_drops = 0\<rparr>"

text \<open>\<open>position\<close> and \<open>remove\<close> of the first event that is not terminal.\<close>

fun remove_first :: "('a \<Rightarrow> bool) \<Rightarrow> 'a list \<Rightarrow> 'a list option" where
  "remove_first P [] = None"
| "remove_first P (x # xs) = (if P x then Some xs else map_option ((#) x) (remove_first P xs))"

definition evict_one :: "event_queue \<Rightarrow> event_queue" where
  "evict_one q =
    (let queue = (case remove_first (\<lambda>e. \<not> is_terminal e) (eq_queue q) of
                    Some rest \<Rightarrow> rest
                  | None \<Rightarrow> tl (eq_queue q))
     in q\<lparr>eq_queue := queue, eq_unreported_drops := sat_add (eq_unreported_drops q) 1\<rparr>)"

definition back_key :: "event list \<Rightarrow> (bytes \<times> progress_role) option" where
  "back_key xs = (if xs = [] then None else progress_key (last xs))"

definition eq_push :: "event_queue \<Rightarrow> event \<Rightarrow> event_queue" where
  "eq_push q event =
    (let q = (if progress_key event \<noteq> None \<and> back_key (eq_queue q) = progress_key event
              then q\<lparr>eq_queue := butlast (eq_queue q)\<rparr> else q);
         q = (if length (eq_queue q) \<ge> MAX_EVENTS then evict_one q else q)
     in q\<lparr>eq_queue := eq_queue q @ [event]\<rparr>)"

text \<open>What one pass of \<open>poll\<close> takes from the queue.\<close>

definition poll_take :: "event_queue \<Rightarrow> (event \<times> event_queue) option" where
  "poll_take q =
    (if eq_unreported_drops q > 0
     then Some (EventsDropped (eq_unreported_drops q), q\<lparr>eq_unreported_drops := 0\<rparr>)
     else case eq_queue q of
       event # rest \<Rightarrow> Some (event, q\<lparr>eq_queue := rest\<rparr>)
     | [] \<Rightarrow> None)"

section \<open>The monitor\<close>

text \<open>
  \<open>EventQueue\<close> is a mutex around the queue and a condition variable. The threads blocked in \<open>wait_for\<close> are in \<open>mn_asleep\<close>; those the
  condition variable has released, which run again once they get the mutex, are in \<open>mn_woken\<close>. Which of several sleeping threads
  \<open>notify_one\<close> releases is up to the library, so the choice is an argument.
\<close>

record 't monitor =
  mn_inner :: event_queue
  mn_asleep :: "'t list"
  mn_woken :: "'t list"

definition wake :: "'t \<Rightarrow> 't monitor \<Rightarrow> 't monitor" where
  "wake t m = m\<lparr>mn_asleep := remove1 t (mn_asleep m), mn_woken := mn_woken m @ [t]\<rparr>"

definition notify_one :: "nat \<Rightarrow> 't monitor \<Rightarrow> 't monitor" where
  "notify_one choice m = (if mn_asleep m = [] then m else wake (mn_asleep m ! (choice mod length (mn_asleep m))) m)"

definition push_event :: "nat \<Rightarrow> event \<Rightarrow> 't monitor \<Rightarrow> 't monitor" where
  "push_event choice event m = notify_one choice (m\<lparr>mn_inner := eq_push (mn_inner m) event\<rparr>)"

text \<open>
  One turn of the loop of \<open>poll\<close>, from getting the mutex to giving it up: the thread returns an event, or nothing if it has no
  deadline or the deadline has passed, or goes to sleep.
\<close>

definition poll_turn :: "'t \<Rightarrow> nat option \<Rightarrow> nat \<Rightarrow> 't monitor \<Rightarrow> event option option \<times> 't monitor" where
  "poll_turn t deadline now m =
    (let m = m\<lparr>mn_woken := remove1 t (mn_woken m)\<rparr> in
     case poll_take (mn_inner m) of
       Some (event, q) \<Rightarrow> (Some (Some event), m\<lparr>mn_inner := q\<rparr>)
     | None \<Rightarrow>
         (case deadline of
            None \<Rightarrow> (Some None, m)
          | Some d \<Rightarrow> if now \<ge> d then (Some None, m) else (None, m\<lparr>mn_asleep := mn_asleep m @ [t]\<rparr>)))"

text \<open>
  Any interleaving of threads that push and threads that poll. \<open>expire\<close> is a wait that ends without a notification, because its time is
  over or spuriously.
\<close>

inductive monitor_run :: "'t monitor \<Rightarrow> bool" where
  start: "monitor_run \<lparr>mn_inner = eq_new, mn_asleep = [], mn_woken = []\<rparr>"
| push: "monitor_run m \<Longrightarrow> monitor_run (push_event choice e m)"
| enter: "monitor_run m \<Longrightarrow> t \<notin> set (mn_asleep m) \<union> set (mn_woken m) \<Longrightarrow> poll_turn t deadline now m = (r, m') \<Longrightarrow> monitor_run m'"
| resume: "monitor_run m \<Longrightarrow> t \<in> set (mn_woken m) \<Longrightarrow> poll_turn t deadline now m = (r, m') \<Longrightarrow> monitor_run m'"
| expire: "monitor_run m \<Longrightarrow> t \<in> set (mn_asleep m) \<Longrightarrow> monitor_run (wake t m)"

section \<open>Eviction\<close>

lemma remove_first_Some:
  "remove_first P xs = Some ys \<longleftrightarrow>
    (\<exists>pre x post. xs = pre @ x # post \<and> (\<forall>y \<in> set pre. \<not> P y) \<and> P x \<and> ys = pre @ post)"
proof (induction xs arbitrary: ys)
  case (Cons a xs)
  show ?case
  proof (cases "P a")
    case True
    have "a # xs = pre @ x # post \<and> (\<forall>y \<in> set pre. \<not> P y) \<and> P x \<and> ys = pre @ post \<Longrightarrow> ys = xs" for pre x post
      using True by (cases pre) auto
    moreover have "\<exists>pre x post. a # xs = pre @ x # post \<and> (\<forall>y \<in> set pre. \<not> P y) \<and> P x \<and> xs = pre @ post"
      using True by (intro exI [of _ "[]"] exI [of _ a] exI [of _ xs]) simp
    ultimately have "ys = xs \<longleftrightarrow>
        (\<exists>pre x post. a # xs = pre @ x # post \<and> (\<forall>y \<in> set pre. \<not> P y) \<and> P x \<and> ys = pre @ post)"
      by blast
    then show ?thesis using True by (simp add: eq_commute)
  next
    case False
    have "(\<exists>zs. remove_first P xs = Some zs \<and> ys = a # zs) \<longleftrightarrow>
        (\<exists>pre x post. a # xs = pre @ x # post \<and> (\<forall>y \<in> set pre. \<not> P y) \<and> P x \<and> ys = pre @ post)" (is "?L \<longleftrightarrow> ?R")
    proof
      assume ?L
      then obtain pre x post where "xs = pre @ x # post" "\<forall>y \<in> set pre. \<not> P y" "P x" "ys = a # pre @ post"
        using Cons.IH by blast
      with False show ?R by (intro exI [of _ "a # pre"] exI [of _ x] exI [of _ post]) simp
    next
      assume ?R
      then obtain pre x post where r: "a # xs = pre @ x # post" "\<forall>y \<in> set pre. \<not> P y" "P x" "ys = pre @ post"
        by blast
      with False obtain pre' where "pre = a # pre'" by (cases pre) auto
      with r show ?L using Cons.IH by auto
    qed
    moreover have "remove_first P (a # xs) = Some ys \<longleftrightarrow> ?L" using False by auto
    ultimately show ?thesis by simp
  qed
qed simp

lemma remove_first_None: "remove_first P xs = None \<longleftrightarrow> (\<forall>x \<in> set xs. \<not> P x)"
  by (induction xs) auto

lemma evict_one_queue:
  assumes "eq_queue q \<noteq> []"
  obtains pre x post where "eq_queue q = pre @ x # post" "eq_queue (evict_one q) = pre @ post"
    "is_terminal x \<longrightarrow> list_all is_terminal (eq_queue q)"
proof (cases "remove_first (\<lambda>e. \<not> is_terminal e) (eq_queue q)")
  case None
  then have "list_all is_terminal (eq_queue q)" by (simp add: remove_first_None list_all_iff)
  with None assms that [of "[]" "hd (eq_queue q)" "tl (eq_queue q)"] show thesis
    by (simp add: evict_one_def)
next
  case (Some ys)
  then obtain pre x post where "eq_queue q = pre @ x # post" "\<not> is_terminal x" "ys = pre @ post"
    by (auto simp: remove_first_Some)
  with Some that [of pre x post] show thesis by (simp add: evict_one_def)
qed

lemma evict_one_drops: "eq_unreported_drops (evict_one q) = sat_add (eq_unreported_drops q) 1"
  by (simp add: evict_one_def)
section \<open>Runs of the queue\<close>

definition coalesces :: "event_queue \<Rightarrow> event \<Rightarrow> bool" where
  "coalesces q e \<longleftrightarrow> progress_key e \<noteq> None \<and> back_key (eq_queue q) = progress_key e"

text \<open>
  The reachable states of a queue, with what happened to it: the events pushed, the events delivered, the losses
  reported, and how often a progress event replaced the one before it.
\<close>

inductive queue_run :: "event_queue \<Rightarrow> event list \<Rightarrow> event list \<Rightarrow> nat \<Rightarrow> nat \<Rightarrow> bool" where
  init: "queue_run eq_new [] [] 0 0"
| push: "queue_run q pushed delivered reported coalesced \<Longrightarrow>
    queue_run (eq_push q e) (pushed @ [e]) delivered reported (if coalesces q e then Suc coalesced else coalesced)"
| report: "queue_run q pushed delivered reported coalesced \<Longrightarrow> eq_unreported_drops q > 0 \<Longrightarrow>
    poll_take q = Some (e, q') \<Longrightarrow> queue_run q' pushed delivered (reported + unat (ev_lost e)) coalesced"
| deliver: "queue_run q pushed delivered reported coalesced \<Longrightarrow> eq_unreported_drops q = 0 \<Longrightarrow>
    poll_take q = Some (e, q') \<Longrightarrow> queue_run q' pushed (delivered @ [e]) reported coalesced"

text \<open>The two ways a push may shorten the queue before the new event goes to its end.\<close>

definition after_coalesce :: "event_queue \<Rightarrow> event \<Rightarrow> event list" where
  "after_coalesce q e = (if coalesces q e then butlast (eq_queue q) else eq_queue q)"

lemma coalesces_last: "coalesces q e \<Longrightarrow> eq_queue q \<noteq> [] \<and> \<not> is_terminal (last (eq_queue q)) \<and> \<not> is_terminal e"
  by (cases e; cases "last (eq_queue q)") (auto simp: coalesces_def back_key_def split: if_splits)

lemma push_cases:
  obtains (room) "length (after_coalesce q e) < MAX_EVENTS" "eq_queue (eq_push q e) = after_coalesce q e @ [e]"
      "eq_unreported_drops (eq_push q e) = eq_unreported_drops q"
  | (evict) pre x post where "\<not> length (after_coalesce q e) < MAX_EVENTS" "after_coalesce q e = pre @ x # post"
      "is_terminal x \<longrightarrow> list_all is_terminal (after_coalesce q e)"
      "eq_queue (eq_push q e) = pre @ post @ [e]"
      "eq_unreported_drops (eq_push q e) = sat_add (eq_unreported_drops q) 1"
proof -
  define q1 where "q1 = q\<lparr>eq_queue := after_coalesce q e\<rparr>"
  have q1: "eq_queue q1 = after_coalesce q e" "eq_unreported_drops q1 = eq_unreported_drops q"
    by (simp_all add: q1_def)
  have push: "eq_push q e = (let q2 = (if length (eq_queue q1) \<ge> MAX_EVENTS then evict_one q1 else q1)
      in q2\<lparr>eq_queue := eq_queue q2 @ [e]\<rparr>)"
    by (simp add: eq_push_def q1_def after_coalesce_def coalesces_def)
  show thesis
  proof (cases "length (after_coalesce q e) < MAX_EVENTS")
    case True
    then show thesis by (intro room) (simp_all add: push q1)
  next
    case False
    then have "eq_queue q1 \<noteq> []" by (auto simp: q1 MAX_EVENTS_def)
    then obtain pre x post where "eq_queue q1 = pre @ x # post" "eq_queue (evict_one q1) = pre @ post"
        "is_terminal x \<longrightarrow> list_all is_terminal (eq_queue q1)"
      by (rule evict_one_queue)
    with False show thesis
      by (intro evict [of pre x post]) (simp_all add: push q1 evict_one_drops)
  qed
qed

lemma after_coalesce_props:
  "subseq (after_coalesce q e) (eq_queue q)"
  "filter is_terminal (after_coalesce q e) = filter is_terminal (eq_queue q)"
  "length (eq_queue q) = length (after_coalesce q e) + (if coalesces q e then 1 else 0)"
proof -
  have split: "eq_queue q = butlast (eq_queue q) @ [last (eq_queue q)]" if "coalesces q e"
    using coalesces_last [OF that] by simp
  show "subseq (after_coalesce q e) (eq_queue q)"
    using split by (auto simp: after_coalesce_def intro: prefix_imp_subseq prefixeq_butlast)
  show "filter is_terminal (after_coalesce q e) = filter is_terminal (eq_queue q)"
  proof (cases "coalesces q e")
    case True
    then have "filter is_terminal (eq_queue q) = filter is_terminal (butlast (eq_queue q)) @ filter is_terminal [last (eq_queue q)]"
      using split filter_append by metis
    with coalesces_last [OF True] True show ?thesis by (simp add: after_coalesce_def)
  qed (simp add: after_coalesce_def)
  show "length (eq_queue q) = length (after_coalesce q e) + (if coalesces q e then 1 else 0)"
  proof (cases "coalesces q e")
    case True
    then have "0 < length (eq_queue q)" using coalesces_last by auto
    with True show ?thesis by (simp add: after_coalesce_def)
  qed (simp add: after_coalesce_def)
qed

lemma poll_take_cases:
  assumes "poll_take q = Some (e, q')"
  shows "eq_unreported_drops q > 0 \<Longrightarrow> e = EventsDropped (eq_unreported_drops q) \<and>
      eq_queue q' = eq_queue q \<and> eq_unreported_drops q' = 0"
    and "eq_unreported_drops q = 0 \<Longrightarrow> eq_queue q = e # eq_queue q' \<and> eq_unreported_drops q' = 0"
  using assms by (auto simp: poll_take_def split: list.splits)

lemma queue_run_bound: "queue_run q pushed delivered reported coalesced \<Longrightarrow> length (eq_queue q) \<le> MAX_EVENTS"
proof (induction rule: queue_run.induct)
  case (push q pushed delivered reported coalesced e)
  show ?case
  proof (cases rule: push_cases [of q e])
    case room
    then show ?thesis by simp
  next
    case (evict pre x post)
    then have "length (eq_queue (eq_push q e)) = length (after_coalesce q e)" by simp
    with push.IH after_coalesce_props(3) [of q e] show ?thesis by simp
  qed
qed (auto simp: eq_new_def dest: poll_take_cases)

lemma subseq_drop_mid: "subseq (as @ pre @ x # post) bs \<Longrightarrow> subseq (as @ pre @ post @ [e]) (bs @ [e])"
proof -
  assume "subseq (as @ pre @ x # post) bs"
  moreover have "subseq (as @ pre @ post) (as @ pre @ x # post)"
    by (intro list_emb_append_mono) auto
  ultimately have "subseq (as @ pre @ post) bs" by (rule subseq_order.trans [rotated])
  then have "subseq ((as @ pre @ post) @ [e]) (bs @ [e])" by (rule list_emb_append_mono) simp
  then show ?thesis by simp
qed

lemma queue_run_subseq: "queue_run q pushed delivered reported coalesced \<Longrightarrow> subseq (delivered @ eq_queue q) pushed"
proof (induction rule: queue_run.induct)
  case (push q pushed delivered reported coalesced e)
  have "subseq (delivered @ after_coalesce q e) (delivered @ eq_queue q)"
    using after_coalesce_props(1) by (intro list_emb_append_mono) auto
  then have sub: "subseq (delivered @ after_coalesce q e) pushed"
    using push.IH by (rule subseq_order.trans)
  show ?case
  proof (cases rule: push_cases [of q e])
    case room
    have "subseq ((delivered @ after_coalesce q e) @ [e]) (pushed @ [e])"
      using sub by (rule list_emb_append_mono) simp
    with room show ?thesis by simp
  next
    case (evict pre x post)
    with sub subseq_drop_mid [of delivered pre x post pushed e] show ?thesis by simp
  qed
qed (auto simp: eq_new_def dest: poll_take_cases)
lemma queue_run_account:
  "queue_run q pushed delivered reported coalesced \<Longrightarrow> length pushed < 2 ^ 64 \<Longrightarrow>
    length pushed = length delivered + length (eq_queue q) + reported + unat (eq_unreported_drops q) + coalesced"
proof (induction rule: queue_run.induct)
  case (push q pushed delivered reported coalesced e)
  have IH: "length pushed = length delivered + length (eq_queue q) + reported + unat (eq_unreported_drops q) + coalesced"
    using push by simp
  show ?case
  proof (cases rule: push_cases [of q e])
    case room
    with IH after_coalesce_props(3) [of q e] show ?thesis by simp
  next
    case (evict pre x post)
    have "unat (sat_add (eq_unreported_drops q) 1) = unat (eq_unreported_drops q) + 1"
      using push.prems IH by (simp add: unat_sat_add min_def)
    with IH evict after_coalesce_props(3) [of q e] show ?thesis by simp
  qed
next
  case (report q pushed delivered reported coalesced e q')
  with poll_take_cases [of q e q'] show ?case by simp
next
  case (deliver q pushed delivered reported coalesced e q')
  with poll_take_cases [of q e q'] show ?case by simp
qed (simp add: eq_new_def)

lemma queue_run_terminal:
  "queue_run q pushed delivered reported coalesced \<Longrightarrow> length (filter is_terminal pushed) < MAX_EVENTS \<Longrightarrow>
    filter is_terminal (delivered @ eq_queue q) = filter is_terminal pushed"
proof (induction rule: queue_run.induct)
  case (push q pushed delivered reported coalesced e)
  have IH: "filter is_terminal delivered @ filter is_terminal (after_coalesce q e) = filter is_terminal pushed"
    using push by (simp add: after_coalesce_props(2) split: if_splits)
  show ?case
  proof (cases rule: push_cases [of q e])
    case room
    with IH show ?thesis by simp
  next
    case (evict pre x post)
    have "\<not> is_terminal x"
    proof
      assume "is_terminal x"
      then have all: "filter is_terminal (after_coalesce q e) = after_coalesce q e"
        using evict(3) by (simp add: list_all_iff)
      have "length (filter is_terminal (after_coalesce q e)) \<le> length (filter is_terminal pushed)"
        by (simp flip: IH)
      then show False using all evict(1) push.prems by (simp split: if_splits)
    qed
    with IH evict show ?thesis by simp
  qed
next
  case (report q pushed delivered reported coalesced e q')
  with poll_take_cases [of q e q'] show ?case by simp
next
  case (deliver q pushed delivered reported coalesced e q')
  with poll_take_cases(2) [of q e q'] have "eq_queue q = e # eq_queue q'" by simp
  with deliver.IH deliver.prems show ?case by (simp split: if_splits)
qed (simp add: eq_new_def)

lemma queue_run_lossless:
  assumes "queue_run q pushed delivered reported coalesced" and "length pushed < 2 ^ 64"
    and "reported = 0" and "eq_unreported_drops q = 0" and "coalesced = 0"
  shows "delivered @ eq_queue q = pushed"
proof -
  have "length (delivered @ eq_queue q) = length pushed"
    using queue_run_account [OF assms(1,2)] assms by simp
  with queue_run_subseq [OF assms(1)] show ?thesis by (rule subseq_same_length)
qed

section \<open>Waiting\<close>

text \<open>How many polls the queue can answer: its events, and one report if there are losses.\<close>

definition answers :: "event_queue \<Rightarrow> nat" where
  "answers q = length (eq_queue q) + (if eq_unreported_drops q > 0 then 1 else 0)"

lemma answers_push: "answers (eq_push q e) \<le> Suc (answers q)" "answers (eq_push q e) > 0"
proof -
  show "answers (eq_push q e) > 0" by (simp add: answers_def eq_push_def Let_def)
  show "answers (eq_push q e) \<le> Suc (answers q)"
  proof (cases rule: push_cases [of q e])
    case room
    then show ?thesis using after_coalesce_props(3) [of q e] by (simp add: answers_def split: if_splits)
  next
    case (evict pre x post)
    then show ?thesis using after_coalesce_props(3) [of q e] by (simp add: answers_def split: if_splits)
  qed
qed

lemma answers_take: "poll_take q = Some (e, q') \<Longrightarrow> answers q = Suc (answers q')" "poll_take q = None \<longleftrightarrow> answers q = 0"
  by (auto simp: poll_take_def answers_def split: list.splits if_splits)

lemma monitor_awake: "monitor_run m \<Longrightarrow> mn_asleep m \<noteq> [] \<Longrightarrow> answers (mn_inner m) \<le> length (mn_woken m)"
proof (induction rule: monitor_run.induct)
  case (push m choice e)
  show ?case
  proof (cases "mn_asleep m = []")
    case False
    then show ?thesis using push answers_push(1) [of "mn_inner m" e]
      by (auto simp: push_event_def notify_one_def wake_def)
  qed (use push in \<open>simp add: push_event_def notify_one_def\<close>)
next
  case (enter m t deadline now r m')
  then show ?case using answers_take [of "mn_inner m"]
    by (auto simp: poll_turn_def Let_def remove1_idem split: option.splits if_splits)
next
  case (resume m t deadline now r m')
  then show ?case using answers_take [of "mn_inner m"]
    by (auto simp: poll_turn_def Let_def length_remove1 split: option.splits if_splits)
next
  case (expire m t)
  then have "mn_asleep m \<noteq> []" by auto
  with expire show ?case by (simp add: wake_def)
qed simp

lemma push_wakes:
  assumes "mn_asleep m \<noteq> []"
  shows "\<exists>t \<in> set (mn_asleep m) \<inter> set (mn_woken (push_event choice e m)). \<forall>deadline now. \<exists>ev m'.
    poll_turn t deadline now (push_event choice e m) = (Some (Some ev), m')"
proof -
  let ?t = "mn_asleep m ! (choice mod length (mn_asleep m))" and ?m = "push_event choice e m"
  have "?t \<in> set (mn_asleep m)" using assms by (intro nth_mem) simp
  moreover have m: "mn_inner ?m = eq_push (mn_inner m) e" "?t \<in> set (mn_woken ?m)"
    using assms by (simp_all add: push_event_def notify_one_def wake_def)
  moreover obtain ev q where "poll_take (eq_push (mn_inner m) e) = Some (ev, q)"
    using answers_push(2) [of "mn_inner m" e] answers_take(2) [of "eq_push (mn_inner m) e"] by fastforce
  ultimately show ?thesis by (intro bexI [of _ ?t]) (simp_all add: poll_turn_def Let_def)
qed

section \<open>Properties\<close>

text \<open>C15: In every reachable state of the event queue at most 1024 events wait. What was delivered followed by what waits
  is a subsequence of what was pushed; every event pushed is delivered, waiting, counted in a reported or pending loss,
  or replaced by newer progress; and while fewer than 1024 terminal events have been pushed, none of them is
  ever lost or reordered. Without losses and replacements the queue is a FIFO.\<close>

theorem event_queue_faithful:
  assumes "queue_run q pushed delivered reported coalesced" and "length pushed < 2 ^ 64"
  shows "length (eq_queue q) \<le> MAX_EVENTS \<and> subseq (delivered @ eq_queue q) pushed \<and>
    length pushed = length delivered + length (eq_queue q) + reported + unat (eq_unreported_drops q) + coalesced \<and>
    (length (filter is_terminal pushed) < MAX_EVENTS \<longrightarrow>
      filter is_terminal (delivered @ eq_queue q) = filter is_terminal pushed) \<and>
    (reported = 0 \<and> eq_unreported_drops q = 0 \<and> coalesced = 0 \<longrightarrow> delivered @ eq_queue q = pushed)"
  using queue_run_bound [OF assms(1)] queue_run_subseq [OF assms(1)] queue_run_account [OF assms]
    queue_run_terminal [OF assms(1)] queue_run_lossless [OF assms]
  by simp

theorem event_queue_faithful_witness:
  "\<exists>q. queue_run q [TransferCancelled [], EventsDropped 1] [TransferCancelled []] 0 0 \<and>
    eq_queue q = [EventsDropped 1] \<and> length (eq_queue q) \<le> MAX_EVENTS"
proof -
  let ?a = "TransferCancelled []" and ?b = "EventsDropped 1"
  define q where "q = \<lparr>eq_queue = [?b], eq_unreported_drops = 0\<rparr>"
  have "queue_run (eq_push (eq_push eq_new ?a) ?b) (([] @ [?a]) @ [?b]) [] 0
      (if coalesces (eq_push eq_new ?a) ?b then Suc (if coalesces eq_new ?a then Suc 0 else 0)
       else if coalesces eq_new ?a then Suc 0 else 0)"
    by (intro queue_run.push queue_run.init)
  then have "queue_run (eq_push (eq_push eq_new ?a) ?b) [?a, ?b] [] 0 0"
    by (simp add: coalesces_def)
  then have "queue_run q [?a, ?b] ([] @ [?a]) 0 0"
    by (rule queue_run.deliver)
      (simp_all add: q_def eq_push_def eq_new_def poll_take_def MAX_EVENTS_def)
  then have run: "queue_run q [?a, ?b] [?a] 0 0" by simp
  with event_queue_faithful [OF run] show ?thesis by (auto simp: q_def)
qed

text \<open>C28: No wake-up is lost, whatever the threads that push and the threads that poll do and in whatever order: as long as a thread sleeps in
  \<open>poll\<close>, at least as many threads have been released as the queue has events and a pending loss to hand out, and a push releases
  one of the sleeping threads, whose next turn returns something. A turn of \<open>poll\<close> takes something exactly when there
  is something; otherwise the thread returns empty-handed if it has no deadline or is past it, and goes to sleep if not.\<close>

theorem poll_no_lost_wakeup:
  assumes "monitor_run m"
  shows "(mn_asleep m \<noteq> [] \<longrightarrow> answers (mn_inner m) \<le> length (mn_woken m) \<and>
      (\<exists>t \<in> set (mn_asleep m) \<inter> set (mn_woken (push_event choice e m)). \<forall>deadline now. \<exists>ev m'.
        poll_turn t deadline now (push_event choice e m) = (Some (Some ev), m'))) \<and>
    (answers (mn_inner m) > 0 \<longrightarrow> (\<exists>ev m'. poll_turn t deadline now m = (Some (Some ev), m') \<and>
      Suc (answers (mn_inner m')) = answers (mn_inner m))) \<and>
    (answers (mn_inner m) = 0 \<longrightarrow> (if \<forall>d. deadline = Some d \<longrightarrow> d \<le> now then fst (poll_turn t deadline now m) = Some None
      else fst (poll_turn t deadline now m) = None \<and> t \<in> set (mn_asleep (snd (poll_turn t deadline now m)))))"
proof (intro conjI impI)
  show "answers (mn_inner m) \<le> length (mn_woken m)" if "mn_asleep m \<noteq> []"
    using monitor_awake [OF assms that] .
  show "\<exists>t \<in> set (mn_asleep m) \<inter> set (mn_woken (push_event choice e m)). \<forall>deadline now. \<exists>ev m'.
      poll_turn t deadline now (push_event choice e m) = (Some (Some ev), m')" if "mn_asleep m \<noteq> []"
    using that by (rule push_wakes)
  show "\<exists>ev m'. poll_turn t deadline now m = (Some (Some ev), m') \<and> Suc (answers (mn_inner m')) = answers (mn_inner m)"
    if "answers (mn_inner m) > 0"
    using that answers_take [of "mn_inner m"] by (cases "poll_take (mn_inner m)") (auto simp: poll_turn_def Let_def)
  show "if \<forall>d. deadline = Some d \<longrightarrow> d \<le> now then fst (poll_turn t deadline now m) = Some None
      else fst (poll_turn t deadline now m) = None \<and> t \<in> set (mn_asleep (snd (poll_turn t deadline now m)))"
    if "answers (mn_inner m) = 0"
    using that answers_take(2) [of "mn_inner m"] by (cases deadline) (auto simp: poll_turn_def Let_def)
qed

theorem poll_no_lost_wakeup_witness:
  "\<exists>m :: nat monitor. monitor_run m \<and> mn_asleep m = [7] \<and> (\<exists>ev m'. poll_turn 7 (Some 10) 5 (push_event 0 (TransferCancelled [1]) m) = (Some (Some ev), m'))"
proof -
  define m :: "nat monitor" where "m = \<lparr>mn_inner = eq_new, mn_asleep = [7], mn_woken = []\<rparr>"
  have "monitor_run m"
    by (rule monitor_run.enter [OF monitor_run.start, of 7 "Some 10" 3 None])
      (simp_all add: poll_turn_def m_def poll_take_def eq_new_def)
  moreover have asleep: "mn_asleep m = [7]" by (simp add: m_def)
  moreover have "\<exists>ev m'. poll_turn 7 (Some 10) 5 (push_event 0 (TransferCancelled [1]) m) = (Some (Some ev), m')"
    using poll_no_lost_wakeup [OF calculation(1), of 0 "TransferCancelled [1]" 7 None 0] unfolding asleep by auto
  ultimately show ?thesis by blast
qed

end
