(* ===== verification/Rtp_Event_Go.thy ===== *)
theory Rtp_Event_Go
  imports Rtp_Events
begin

text \<open>
  \<open>rtp2/event.go\<close>: how the Go application decodes the events the core encodes. A Go struct that is filled
  through pointers is a record passed on updated, the map from keys to field pointers that
  \<open>assignUints\<close> takes is a partial function to field updates, and \<open>errMalformedEvent\<close>, the only error, is None.
\<close>

section \<open>The reader\<close>

record cbor_reader =
  gr_buf :: bytes
  gr_pos :: nat

definition go_done :: "cbor_reader \<Rightarrow> bool" where
  "go_done d \<longleftrightarrow> gr_pos d = length (gr_buf d)"

definition go_take :: "nat \<Rightarrow> cbor_reader \<Rightarrow> (u64 \<times> cbor_reader) option" where
  "go_take n d =
    (if gr_pos d + n > length (gr_buf d) then None
     else Some (foldl (\<lambda>v b. push_bit 8 v OR ucast b) 0 (take n (drop (gr_pos d) (gr_buf d))),
                d\<lparr>gr_pos := gr_pos d + n\<rparr>))"

definition go_head :: "cbor_reader \<Rightarrow> ((u8 \<times> u64) \<times> cbor_reader) option" where
  "go_head d =
    (if gr_pos d \<ge> length (gr_buf d) then None
     else
       let b = gr_buf d ! gr_pos d; d = d\<lparr>gr_pos := gr_pos d + 1\<rparr>;
           major = drop_bit 5 b; info = b AND 0x1f
       in if info < 24 then Some ((major, ucast info), d)
          else do {
            width \<leftarrow> (if info = 24 then Some 1 else if info = 25 then Some 2 else if info = 26 then Some 4
                      else if info = 27 then Some 8 else None);
            (v, d) \<leftarrow> go_take width d;
            Some ((major, v), d)
          })"

definition go_map_header :: "cbor_reader \<Rightarrow> (u64 \<times> cbor_reader) option" where
  "go_map_header d = do { ((major, arg), d) \<leftarrow> go_head d; if major \<noteq> 5 then None else Some (arg, d) }"

definition go_uint :: "cbor_reader \<Rightarrow> (u64 \<times> cbor_reader) option" where
  "go_uint d = do { ((major, arg), d) \<leftarrow> go_head d; if major \<noteq> 0 then None else Some (arg, d) }"

definition go_bytes32 :: "cbor_reader \<Rightarrow> (bytes \<times> cbor_reader) option" where
  "go_bytes32 d = do {
     ((major, arg), d) \<leftarrow> go_head d;
     if major \<noteq> 2 \<or> arg \<noteq> 32 \<or> gr_pos d + 32 > length (gr_buf d) then None
     else Some (take 32 (drop (gr_pos d) (gr_buf d)), d\<lparr>gr_pos := gr_pos d + 32\<rparr>) }"

section \<open>Events as the application sees them\<close>

definition EventTransferStarted :: u64 where "EventTransferStarted = 1"
definition EventTransferProgress :: u64 where "EventTransferProgress = 2"
definition EventObjectCompleted :: u64 where "EventObjectCompleted = 3"
definition EventTransferCompleted :: u64 where "EventTransferCompleted = 4"
definition EventTransferFailed :: u64 where "EventTransferFailed = 5"
definition EventTransferCancelled :: u64 where "EventTransferCancelled = 6"
definition EventsDroppedType :: u64 where "EventsDroppedType = 7"
definition EventTransferRoute :: u64 where "EventTransferRoute = 8"

record go_event =
  ge_type :: u64
  ge_transfer_id :: bytes
  ge_objects :: u64
  ge_bytes :: u64
  ge_total_bytes :: u64
  ge_chunks :: u64
  ge_total :: u64
  ge_role :: u64
  ge_object_id :: bytes
  ge_plaintext_digest :: bytes
  ge_code :: u64
  ge_lost :: u64
  ge_route :: u64
  ge_address_class :: u64
  ge_has_address :: bool

text \<open>\<open>&Event{}\<close>.\<close>

definition go_zero :: go_event where
  "go_zero = \<lparr>ge_type = 0, ge_transfer_id = replicate 32 0, ge_objects = 0, ge_bytes = 0, ge_total_bytes = 0,
    ge_chunks = 0, ge_total = 0, ge_role = 0, ge_object_id = replicate 32 0,
    ge_plaintext_digest = replicate 32 0, ge_code = 0, ge_lost = 0, ge_route = 0, ge_address_class = 0,
    ge_has_address = False\<rparr>"

definition go_terminal :: "go_event \<Rightarrow> bool" where
  "go_terminal e \<longleftrightarrow> ge_type e \<in> {EventObjectCompleted, EventTransferCompleted, EventTransferFailed, EventTransferCancelled}"

definition assign_uints ::
  "cbor_reader \<Rightarrow> u64 \<Rightarrow> (u64 \<rightharpoonup> (u64 \<Rightarrow> go_event)) \<Rightarrow> (go_event \<times> cbor_reader) option" where
  "assign_uints d key into = do { set \<leftarrow> into key; (v, d) \<leftarrow> go_uint d; Some (set v, d) }"

definition assign_field :: "go_event \<Rightarrow> u64 \<Rightarrow> cbor_reader \<Rightarrow> (go_event \<times> cbor_reader) option" where
  "assign_field e key d =
    (if key = 0 then do { (v, d) \<leftarrow> go_uint d; Some (e\<lparr>ge_type := v\<rparr>, d) }
     else if key = 1 \<and> ge_type e \<noteq> EventsDroppedType
     then do { (b, d) \<leftarrow> go_bytes32 d; Some (e\<lparr>ge_transfer_id := b\<rparr>, d) }
     else if ge_type e = EventTransferStarted
     then assign_uints d key [2 \<mapsto> (\<lambda>v. e\<lparr>ge_objects := v\<rparr>), 3 \<mapsto> (\<lambda>v. e\<lparr>ge_total_bytes := v\<rparr>)]
     else if ge_type e = EventTransferProgress
     then (if key = 6 then do { (v, d) \<leftarrow> go_uint d; Some (e\<lparr>ge_role := v\<rparr>, d) }
           else assign_uints d key [2 \<mapsto> (\<lambda>v. e\<lparr>ge_bytes := v\<rparr>), 3 \<mapsto> (\<lambda>v. e\<lparr>ge_total_bytes := v\<rparr>),
                  4 \<mapsto> (\<lambda>v. e\<lparr>ge_chunks := v\<rparr>), 5 \<mapsto> (\<lambda>v. e\<lparr>ge_total := v\<rparr>)])
     else if ge_type e = EventObjectCompleted
     then (if key = 2 then do { (b, d) \<leftarrow> go_bytes32 d; Some (e\<lparr>ge_object_id := b\<rparr>, d) }
           else if key = 3 then do { (b, d) \<leftarrow> go_bytes32 d; Some (e\<lparr>ge_plaintext_digest := b\<rparr>, d) }
           else None)
     else if ge_type e = EventTransferCompleted
     then assign_uints d key [2 \<mapsto> (\<lambda>v. e\<lparr>ge_objects := v\<rparr>)]
     else if ge_type e = EventTransferFailed
     then assign_uints d key [2 \<mapsto> (\<lambda>v. e\<lparr>ge_code := v\<rparr>)]
     else if ge_type e = EventsDroppedType
     then assign_uints d key [1 \<mapsto> (\<lambda>v. e\<lparr>ge_lost := v\<rparr>)]
     else if ge_type e = EventTransferRoute
     then (if key = 2 then do { (v, d) \<leftarrow> go_uint d; Some (e\<lparr>ge_route := v\<rparr>, d) }
           else if key = 3
           then do { (v, d) \<leftarrow> go_uint d; Some (e\<lparr>ge_address_class := v, ge_has_address := True\<rparr>, d) }
           else None)
     else None)"

text \<open>The loop of \<open>decodeEvent\<close>.\<close>

fun assign_fields :: "nat \<Rightarrow> go_event \<Rightarrow> cbor_reader \<Rightarrow> (go_event \<times> cbor_reader) option" where
  "assign_fields 0 e d = Some (e, d)"
| "assign_fields (Suc n) e d =
    do { (key, d) \<leftarrow> go_uint d; (e, d) \<leftarrow> assign_field e key d; assign_fields n e d }"

definition decode_event :: "bytes \<Rightarrow> go_event option" where
  "decode_event raw = do {
     (pairs, d) \<leftarrow> go_map_header \<lparr>gr_buf = raw, gr_pos = 0\<rparr>;
     (e, d) \<leftarrow> assign_fields (unat pairs) go_zero d;
     if \<not> go_done d then None else Some e }"

section \<open>Reading what the core writes\<close>

definition grd :: "bytes \<Rightarrow> bytes \<Rightarrow> cbor_reader" where
  "grd pre rest = \<lparr>gr_buf = pre @ rest, gr_pos = length pre\<rparr>"

lemma shift_or: "push_bit 8 v OR ucast (b :: u8) = v * 256 + (ucast b :: u64)"
proof -
  have "push_bit 8 v OR (ucast b :: u64) = push_bit 8 v + ucast b"
    by (rule disjunctive_add [symmetric]) (auto simp: bit_push_bit_iff bit_ucast_iff dest: bit_imp_le_length)
  then show ?thesis by (simp add: push_bit_eq_mult)
qed

lemma go_take_app: "length s = n \<Longrightarrow> go_take n (grd pre (s @ rest)) = Some (from_be s, grd (pre @ s) rest)"
  by (simp add: go_take_def grd_def shift_or from_be_code)
lemma from_be_wide:
  "(from_be (to_be (a :: u16)) :: u64) = ucast a" "(from_be (to_be (b :: u32)) :: u64) = ucast b"
  "(from_be [c] :: u64) = ucast c"
  using unat_less_pow [of a] unat_less_pow [of b]
  by (simp_all add: from_be_def to_be_def be_val_be_bytes of_nat_unat be_val_snoc [of "[]", simplified])

lemma go_head_first: "gr_pos d < length (gr_buf d) \<Longrightarrow> gr_buf d ! gr_pos d = push_bit 5 m OR a \<Longrightarrow> m < 8 \<Longrightarrow> a < 32 \<Longrightarrow>
    go_head d = (let d = d\<lparr>gr_pos := gr_pos d + 1\<rparr> in
      if a < 24 then Some ((m, ucast a), d)
      else do {
        width \<leftarrow> (if a = 24 then Some 1 else if a = 25 then Some 2 else if a = 26 then Some 4
                  else if a = 27 then Some 8 else None);
        (v, d) \<leftarrow> go_take width d;
        Some ((m, v), d)
      })"
  by (simp add: go_head_def Let_def byte_join del: drop_bit_or)

lemma grd_first [simp]:
  "gr_pos (grd pre (b # rest)) < length (gr_buf (grd pre (b # rest)))"
  "gr_buf (grd pre (b # rest)) ! gr_pos (grd pre (b # rest)) = b"
  "(grd pre (b # rest))\<lparr>gr_pos := Suc (gr_pos (grd pre (b # rest)))\<rparr> = grd (pre @ [b]) rest"
  by (simp_all add: grd_def)

lemma go_head_hdr:
  assumes "m < 8"
  shows "go_head (grd pre (hdr m v @ rest)) = Some ((m, v), grd (pre @ hdr m v) rest)"
proof (cases v rule: u64_size_cases)
  case 1
  then have "v \<le> 0xFF" by (simp add: word_le_nat_alt word_less_nat_alt)
  then have v: "ucast (ucast v :: u8) = v" by (rule ucast_ucast_u64)
  moreover have lt: "(ucast v :: u8) < 24" "(ucast v :: u8) < 32"
    using 1 by (simp_all add: word_less_nat_alt unsigned_ucast_eq take_bit_eq_mod unat_mod)
  ultimately show ?thesis
    using 1 go_head_first [of "grd pre (hdr m v @ rest)" m "ucast v"] assms by (simp add: hdr_simps Let_def)
next
  case 2
  with go_head_first [of "grd pre (hdr m v @ rest)" m 24] go_take_app [of "[ucast v]" 1] assms show ?thesis
    by (simp add: hdr_simps Let_def from_be_wide ucast_ucast_u64)
next
  case 3
  with go_head_first [of "grd pre (hdr m v @ rest)" m 25] go_take_app [of "to_be (ucast v :: u16)" 2] assms show ?thesis
    by (simp add: hdr_simps Let_def from_be_wide ucast_ucast_u64)
next
  case 4
  with go_head_first [of "grd pre (hdr m v @ rest)" m 26] go_take_app [of "to_be (ucast v :: u32)" 4] assms show ?thesis
    by (simp add: hdr_simps Let_def from_be_wide ucast_ucast_u64)
next
  case 5
  with go_head_first [of "grd pre (hdr m v @ rest)" m 27] go_take_app [of "to_be v" 8] assms show ?thesis
    by (simp add: hdr_simps Let_def)
qed

lemma go_fwd:
  "go_uint (grd pre (enc_uint v @ rest)) = Some (v, grd (pre @ enc_uint v) rest)"
  "go_map_header (grd pre (enc_map v @ rest)) = Some (v, grd (pre @ enc_map v) rest)"
  by (simp_all add: go_uint_def go_map_header_def enc_uint_def enc_map_def major_defs go_head_hdr)

lemma go_bytes32_fwd:
  "length b = 32 \<Longrightarrow> go_bytes32 (grd pre (enc_bytes b @ rest)) = Some (b, grd (pre @ enc_bytes b) rest)"
  by (simp add: go_bytes32_def enc_bytes_def major_defs go_head_hdr) (simp add: grd_def)

text \<open>The same at the end of the input.\<close>

lemma go_fwd_end:
  "go_uint (grd pre (enc_uint v)) = Some (v, grd (pre @ enc_uint v) [])"
  "length b = 32 \<Longrightarrow> go_bytes32 (grd pre (enc_bytes b)) = Some (b, grd (pre @ enc_bytes b) [])"
  using go_fwd(1) [of pre v "[]"] go_bytes32_fwd [of b pre "[]"] by simp_all

lemma go_done_grd: "go_done (grd pre rest) \<longleftrightarrow> rest = []"
  by (simp add: go_done_def grd_def)

section \<open>Properties\<close>

definition ev_ok :: "event \<Rightarrow> bool" where
  "ev_ok e \<longleftrightarrow> (case e of EventsDropped _ \<Rightarrow> True
    | ObjectCompleted t ob dg \<Rightarrow> length t = 32 \<and> length ob = 32 \<and> length dg = 32
    | _ \<Rightarrow> length (ev_transfer_id e) = 32)"

text \<open>What the application should see of an event.\<close>

fun go_view :: "event \<Rightarrow> go_event" where
  "go_view (TransferStarted t n tot) =
    go_zero\<lparr>ge_type := EventTransferStarted, ge_transfer_id := t, ge_objects := n, ge_total_bytes := tot\<rparr>"
| "go_view (TransferProgress t role b tot c total_c) =
    go_zero\<lparr>ge_type := EventTransferProgress, ge_transfer_id := t, ge_bytes := b, ge_total_bytes := tot,
      ge_chunks := c, ge_total := total_c, ge_role := role_u64 role\<rparr>"
| "go_view (ObjectCompleted t ob dg) =
    go_zero\<lparr>ge_type := EventObjectCompleted, ge_transfer_id := t, ge_object_id := ob, ge_plaintext_digest := dg\<rparr>"
| "go_view (TransferCompleted t n) =
    go_zero\<lparr>ge_type := EventTransferCompleted, ge_transfer_id := t, ge_objects := n\<rparr>"
| "go_view (TransferFailed t c) = go_zero\<lparr>ge_type := EventTransferFailed, ge_transfer_id := t, ge_code := c\<rparr>"
| "go_view (TransferCancelled t) = go_zero\<lparr>ge_type := EventTransferCancelled, ge_transfer_id := t\<rparr>"
| "go_view (EventsDropped n) = go_zero\<lparr>ge_type := EventsDroppedType, ge_lost := n\<rparr>"
| "go_view (TransferRoute t r cls) =
    (let e = go_zero\<lparr>ge_type := EventTransferRoute, ge_transfer_id := t, ge_route := r\<rparr>
     in case cls of None \<Rightarrow> e | Some c \<Rightarrow> e\<lparr>ge_address_class := c, ge_has_address := True\<rparr>)"

lemmas go_types = EventTransferStarted_def EventTransferProgress_def EventObjectCompleted_def
  EventTransferCompleted_def EventTransferFailed_def EventTransferCancelled_def EventsDroppedType_def
  EventTransferRoute_def

lemma decode_event_eq: "decode_event raw = do {
     (pairs, d) \<leftarrow> go_map_header (grd [] raw);
     (e, d) \<leftarrow> assign_fields (unat pairs) go_zero d;
     if \<not> go_done d then None else Some e }"
  by (simp add: decode_event_def grd_def)

lemma assign_fields_numeral: "assign_fields (numeral k) e d =
    do { (key, d) \<leftarrow> go_uint d; (e, d) \<leftarrow> assign_field e key d; assign_fields (pred_numeral k) e d }"
  by (simp add: numeral_eq_Suc)

lemmas go_reads = decode_event_eq go_fwd go_fwd_end go_bytes32_fwd go_done_grd assign_field_def assign_uints_def
  assign_fields_numeral go_types

lemma go_decodes: "ev_ok e \<Longrightarrow> \<exists>bs. ev_encode e = Some bs \<and> decode_event bs = Some (go_view e)"
  by (cases e) (simp_all add: mw_simps ev_ok_def go_reads split: option.splits)
lemma role_u64_inj [simp]: "role_u64 r = role_u64 r' \<longleftrightarrow> r = r'"
  by (cases r; cases r') simp_all

lemma go_view_inj: "go_view e = go_view e' \<longleftrightarrow> e = e'"
  by (cases e; cases e') (auto simp: go_types go_zero_def Let_def split: option.splits)

lemma go_view_type: "ge_type (go_view e) = type_code e"
  by (cases e) (auto simp: go_types Let_def split: option.splits)

lemma go_view_terminal: "go_terminal (go_view e) \<longleftrightarrow> is_terminal e"
  by (cases e) (auto simp: go_terminal_def go_view_type [unfolded go_types] go_types Let_def split: option.splits)

text \<open>C29: Every event the core encodes is decoded by the Go application to the event with the same fields: encoding never
  panics, distinct events stay distinct, and both sides agree on the type code and on which events end a transfer.\<close>

theorem event_go_roundtrip:
  assumes "ev_ok e"
  shows "(\<exists>bs. ev_encode e = Some bs \<and> decode_event bs = Some (go_view e)) \<and>
    (go_view e = go_view e' \<longleftrightarrow> e = e') \<and>
    ge_type (go_view e) = type_code e \<and> (go_terminal (go_view e) \<longleftrightarrow> is_terminal e)"
  using go_decodes [OF assms] by (simp add: go_view_inj go_view_type go_view_terminal)

theorem event_go_roundtrip_witness:
  "\<exists>bs. ev_encode (TransferRoute (replicate 32 7) 0 (Some 3)) = Some bs \<and>
    decode_event bs = Some (go_view (TransferRoute (replicate 32 7) 0 (Some 3)))"
proof -
  have "ev_ok (TransferRoute (replicate 32 7) 0 (Some 3))" by (simp add: ev_ok_def)
  from event_go_roundtrip [OF this] show ?thesis by blast
qed

text \<open>The Go decoder accepts more than the core emits: an event with no fields at all, an integer in a longer form than needed,
  and a key given twice.\<close>

theorem go_decoder_lenient:
  "decode_event [0xA0] = Some go_zero \<and>
   decode_event [0xA2, 0x00, 0x07, 0x18, 0x01, 0x05] = Some (go_view (EventsDropped 5)) \<and>
   decode_event [0xA3, 0x00, 0x07, 0x01, 0x04, 0x01, 0x05] = Some (go_view (EventsDropped 5))"
  by code_simp

end
