(* ===== verification/Rtp_Route.thy ===== *)
theory Rtp_Route
  imports Rtp_Events
begin

text \<open>
  \<open>rtp2-core/src/route.rs\<close> and the route handling of \<open>transfer.rs\<close>: the classes of network path, the policy
  that may refuse one, the wait for an admissible path, and the watch kept on it during a transfer. An
  IPv4 address is its four octets and an IPv6 address its eight segments; times are in
  milliseconds.
\<close>

section \<open>Address classes\<close>

type_synonym ipv4 = "u8 \<times> u8 \<times> u8 \<times> u8"
type_synonym ipv6 = "u16 list"

datatype ip_addr = V4 ipv4 | V6 ipv6

datatype address_class = Loopback | Private | Public | Shared

text \<open>The predicates of \<open>std::net\<close> that the source calls.\<close>

fun v4_is_loopback :: "ipv4 \<Rightarrow> bool" where
  "v4_is_loopback (a, b, c, d) \<longleftrightarrow> a = 127"

fun v4_is_private :: "ipv4 \<Rightarrow> bool" where
  "v4_is_private (a, b, c, d) \<longleftrightarrow> a = 10 \<or> a = 172 \<and> 16 \<le> b \<and> b \<le> 31 \<or> a = 192 \<and> b = 168"

fun v4_is_link_local :: "ipv4 \<Rightarrow> bool" where
  "v4_is_link_local (a, b, c, d) \<longleftrightarrow> a = 169 \<and> b = 254"

definition v6_is_loopback :: "ipv6 \<Rightarrow> bool" where
  "v6_is_loopback s \<longleftrightarrow> s = [0, 0, 0, 0, 0, 0, 0, 1]"

definition v6_is_unique_local :: "ipv6 \<Rightarrow> bool" where
  "v6_is_unique_local s \<longleftrightarrow> hd s AND 0xfe00 = 0xfc00"

definition v6_is_unicast_link_local :: "ipv6 \<Rightarrow> bool" where
  "v6_is_unicast_link_local s \<longleftrightarrow> hd s AND 0xffc0 = 0xfe80"

fun to_ipv4_mapped :: "ipv6 \<Rightarrow> ipv4 option" where
  "to_ipv4_mapped [s0, s1, s2, s3, s4, s5, ab, cd] =
    (if s0 = 0 \<and> s1 = 0 \<and> s2 = 0 \<and> s3 = 0 \<and> s4 = 0 \<and> s5 = 0xffff
     then Some (ucast (drop_bit 8 ab), ucast ab, ucast (drop_bit 8 cd), ucast cd) else None)"
| "to_ipv4_mapped _ = None"

fun is_shared_address_space :: "ipv4 \<Rightarrow> bool" where
  "is_shared_address_space (a, b, c, d) \<longleftrightarrow> a = 100 \<and> 64 \<le> b \<and> b \<le> 127"

definition address_class_of :: "ip_addr \<Rightarrow> address_class" where
  "address_class_of ip =
    (let ip = (case ip of V6 v6 \<Rightarrow> (case to_ipv4_mapped v6 of Some v4 \<Rightarrow> V4 v4 | None \<Rightarrow> V6 v6) | other \<Rightarrow> other)
     in case ip of
       V4 v4 \<Rightarrow> if v4_is_loopback v4 then Loopback
                else if v4_is_private v4 \<or> v4_is_link_local v4 then Private
                else if is_shared_address_space v4 then Shared else Public
     | V6 v6 \<Rightarrow> if v6_is_loopback v6 then Loopback
                else if v6_is_unique_local v6 \<or> v6_is_unicast_link_local v6 then Private
                else Public)"

fun class_u64 :: "address_class \<Rightarrow> u64" where
  "class_u64 Loopback = 0" | "class_u64 Private = 1" | "class_u64 Public = 2" | "class_u64 Shared = 3"

section \<open>Routes and policies\<close>

datatype route = Direct address_class | Relay | Unknown

fun route_u64 :: "route \<Rightarrow> u64" where
  "route_u64 (Direct _) = 0" | "route_u64 Relay = 1" | "route_u64 Unknown = 2"

fun route_address_class :: "route \<Rightarrow> address_class option" where
  "route_address_class (Direct cls) = Some cls"
| "route_address_class _ = None"

text \<open>The transport addresses of \<open>iroh\<close>, as far as the source tells them apart.\<close>

datatype transport_addr = TIp ip_addr u16 | TRelay bytes | TOther bytes

definition from_socket_addr :: "ip_addr \<Rightarrow> route" where
  "from_socket_addr ip = Direct (address_class_of ip)"

fun of_transport :: "transport_addr \<Rightarrow> route" where
  "of_transport (TIp ip port) = from_socket_addr ip"
| "of_transport (TRelay _) = Relay"
| "of_transport (TOther _) = Unknown"

fun describe :: "route \<Rightarrow> string" where
  "describe (Direct Loopback) = ''direct/loopback''"
| "describe (Direct Private) = ''direct/private''"
| "describe (Direct Public) = ''direct/public''"
| "describe (Direct Shared) = ''direct/shared''"
| "describe Relay = ''relay''"
| "describe Unknown = ''unknown''"

datatype route_policy = AnyRoute | DirectOnly | LoopbackOnly

definition policy_from_u64 :: "u64 \<Rightarrow> route_policy option" where
  "policy_from_u64 v =
    (if v = 0 then Some AnyRoute else if v = 1 then Some DirectOnly else if v = 2 then Some LoopbackOnly else None)"

fun admits :: "route_policy \<Rightarrow> route \<Rightarrow> bool" where
  "admits AnyRoute _ = True"
| "admits DirectOnly (Direct _) = True"
| "admits LoopbackOnly (Direct Loopback) = True"
| "admits _ _ = False"

definition is_relay :: "transport_addr \<Rightarrow> bool" where
  "is_relay addr = (case addr of TRelay _ \<Rightarrow> True | _ \<Rightarrow> False)"

definition advertises :: "route_policy \<Rightarrow> transport_addr \<Rightarrow> bool" where
  "advertises policy addr \<longleftrightarrow> is_relay addr \<or> admits policy (of_transport addr)"

definition DEFAULT_ROUTE_GRACE :: nat where "DEFAULT_ROUTE_GRACE = 10000"

record route_admission =
  ra_policy :: route_policy
  ra_grace :: nat

definition ra_default :: route_admission where
  "ra_default = \<lparr>ra_policy = AnyRoute, ra_grace = DEFAULT_ROUTE_GRACE\<rparr>"

definition ra_new :: "route_policy \<Rightarrow> route_admission" where
  "ra_new policy = ra_default\<lparr>ra_policy := policy\<rparr>"

definition with_grace :: "route_admission \<Rightarrow> nat \<Rightarrow> route_admission" where
  "with_grace a grace = a\<lparr>ra_grace := grace\<rparr>"

section \<open>Admission and watch\<close>

datatype transfer_error = Io string | Handshake | Protocol string | Crypto string | Timeout | RouteRefused route

text \<open>A path of a connection: whether it is selected, and its remote address.\<close>

definition observe_route :: "(bool \<times> transport_addr) list \<Rightarrow> route" where
  "observe_route paths = (case find fst paths of None \<Rightarrow> Unknown | Some (_, addr) \<Rightarrow> of_transport addr)"

text \<open>
  The wait for an admissible path. \<open>clock 0\<close> is the reading that fixes the deadline, \<open>clock (Suc k)\<close> the one in the \<open>k\<close>-th test of the
  loop, and \<open>observe k\<close> what is seen after the sleep in the \<open>k\<close>-th pass.
\<close>

partial_function (option) until_admissible_loop ::
  "route_policy \<Rightarrow> nat \<Rightarrow> (nat \<Rightarrow> nat) \<Rightarrow> (nat \<Rightarrow> route) \<Rightarrow> nat \<Rightarrow> route \<Rightarrow> route option" where
  "until_admissible_loop policy deadline clock observe k last_route =
    (if clock (Suc k) < deadline
     then (if admits policy (observe k) then Some (observe k)
           else until_admissible_loop policy deadline clock observe (Suc k) (observe k))
     else Some last_route)"

definition poll_until_admissible ::
  "route_policy \<Rightarrow> route \<Rightarrow> nat \<Rightarrow> (nat \<Rightarrow> nat) \<Rightarrow> (nat \<Rightarrow> route) \<Rightarrow> route option" where
  "poll_until_admissible policy initial grace clock observe =
    (if admits policy initial then Some initial
     else until_admissible_loop policy (clock 0 + grace) clock observe 0 initial)"

text \<open>
  What the wait relies on: the clock does not go back between fixing the deadline and the first test, which follow each
  other directly, and the 100 ms sleep lies between one test and the next.
\<close>

definition sleeps :: "(nat \<Rightarrow> nat) \<Rightarrow> bool" where
  "sleeps clock \<longleftrightarrow> clock 0 \<le> clock 1 \<and> (\<forall>k. clock (Suc k) + 100 \<le> clock (Suc (Suc k)))"

definition route_event :: "bytes \<Rightarrow> route \<Rightarrow> event" where
  "route_event transfer_id r = TransferRoute transfer_id (route_u64 r) (map_option class_u64 (route_address_class r))"

text \<open>The events go to a queue if there is one.\<close>

definition push_opt :: "event \<Rightarrow> event_queue option \<Rightarrow> event_queue option" where
  "push_opt e q = map_option (\<lambda>q. eq_push q e) q"

definition admit_route ::
  "route \<Rightarrow> bytes \<Rightarrow> route_admission \<Rightarrow> event_queue option \<Rightarrow> (nat \<Rightarrow> nat) \<Rightarrow> (nat \<Rightarrow> route) \<Rightarrow>
    ((transfer_error + route) \<times> event_queue option) option" where
  "admit_route initial transfer_id admission events clock observe = do {
     r \<leftarrow> poll_until_admissible (ra_policy admission) initial (ra_grace admission) clock observe;
     let events = push_opt (route_event transfer_id r) events;
     Some (if \<not> admits (ra_policy admission) r then Inl (RouteRefused r) else Inr r, events) }"

definition ROUTE_WATCH_INTERVAL :: nat where "ROUTE_WATCH_INTERVAL = 500"
definition ROUTE_WATCH_STRIKES :: u8 where "ROUTE_WATCH_STRIKES = 2"

record route_watch =
  rw_last :: route
  rw_admission :: route_admission
  rw_next_check :: nat
  rw_strikes :: u8

definition rw_new :: "route \<Rightarrow> route_admission \<Rightarrow> nat \<Rightarrow> route_watch" where
  "rw_new initial admission now =
    \<lparr>rw_last = initial, rw_admission = admission, rw_next_check = now + ROUTE_WATCH_INTERVAL, rw_strikes = 0\<rparr>"

text \<open>\<open>saturating_add(1)\<close> on \<open>u8\<close>.\<close>

definition sat_succ8 :: "u8 \<Rightarrow> u8" where
  "sat_succ8 x = (if x = - 1 then - 1 else x + 1)"

definition poll_with ::
  "route_watch \<Rightarrow> bytes \<Rightarrow> event_queue option \<Rightarrow> nat \<Rightarrow> route \<Rightarrow>
    (transfer_error + unit) \<times> route_watch \<times> event_queue option" where
  "poll_with w transfer_id events now r =
    (if now < rw_next_check w then (Inr (), w, events)
     else
       let w = w\<lparr>rw_next_check := now + ROUTE_WATCH_INTERVAL\<rparr>;
           (w, events) = (if r \<noteq> rw_last w then (w\<lparr>rw_last := r\<rparr>, push_opt (route_event transfer_id r) events)
                          else (w, events))
       in if admits (ra_policy (rw_admission w)) r then (Inr (), w\<lparr>rw_strikes := 0\<rparr>, events)
          else
            let w = w\<lparr>rw_strikes := sat_succ8 (rw_strikes w)\<rparr>
            in if rw_strikes w \<ge> ROUTE_WATCH_STRIKES then (Inl (RouteRefused r), w, events)
               else (Inr (), w, events))"
section \<open>Address blocks\<close>

text \<open>An address as a number, and membership in a block given by a network address and a prefix length.\<close>

fun ip_nat :: "ipv4 \<Rightarrow> nat" where
  "ip_nat (a, b, c, d) = ((unat a * 256 + unat b) * 256 + unat c) * 256 + unat d"

definition in_block :: "ipv4 \<Rightarrow> ipv4 \<times> nat \<Rightarrow> bool" where
  "in_block ip blk \<longleftrightarrow> ip_nat ip div 2 ^ (32 - snd blk) = ip_nat (fst blk) div 2 ^ (32 - snd blk)"

definition class_by_blocks :: "ipv4 \<Rightarrow> address_class" where
  "class_by_blocks ip =
    (if in_block ip ((127, 0, 0, 0), 8) then Loopback
     else if list_ex (in_block ip) [((10, 0, 0, 0), 8), ((172, 16, 0, 0), 12), ((192, 168, 0, 0), 16), ((169, 254, 0, 0), 16)]
     then Private
     else if in_block ip ((100, 64, 0, 0), 10) then Shared else Public)"

lemma in_block_8: "in_block (a, b, c, d) ((n, 0, 0, 0), 8) \<longleftrightarrow> a = n"
proof -
  have "ip_nat (x, y, z, w) div 16777216 = unat x" for x y z w
    using unat_byte_less [of y] unat_byte_less [of z] unat_byte_less [of w] by (simp add: div_nat_eqI)
  from this [of a b c d] this [of n 0 0 0] show ?thesis
    by (simp add: in_block_def word_unat_eq_iff del: ip_nat.simps)
qed

lemma in_block_16: "in_block (a, b, c, d) ((n, m, 0, 0), 16) \<longleftrightarrow> a = n \<and> b = m"
proof -
  have div16: "ip_nat (x, y, z, w) div 65536 = unat x * 256 + unat y" for x y z w
    using unat_byte_less [of z] unat_byte_less [of w] by (simp add: div_nat_eqI)
  have "unat a * 256 + unat b = unat n * 256 + unat m \<longleftrightarrow> unat a = unat n \<and> unat b = unat m"
  proof
    assume eq: "unat a * 256 + unat b = unat n * 256 + unat m"
    then have "(unat a * 256 + unat b) div 256 = (unat n * 256 + unat m) div 256" by simp
    then have "unat a = unat n" using unat_byte_less [of b] unat_byte_less [of m] by simp
    with eq show "unat a = unat n \<and> unat b = unat m" by simp
  qed simp
  with div16 [of a b c d] div16 [of n m 0 0] show ?thesis
    by (simp add: in_block_def word_unat_eq_iff del: ip_nat.simps)
qed

lemma in_block_12: "in_block (a, b, c, d) ((172, 16, 0, 0), 12) \<longleftrightarrow> a = 172 \<and> 16 \<le> b \<and> b \<le> 31"
proof -
  have "ip_nat (a, b, c, d) div 1048576 = (unat a * 256 + unat b) div 16"
    using unat_byte_less [of c] unat_byte_less [of d]
      div_mult2_eq [of "ip_nat (a, b, c, d)" 65536 16] by (simp add: div_nat_eqI)
  also have "\<dots> = 2753 \<longleftrightarrow> 44048 \<le> unat a * 256 + unat b \<and> unat a * 256 + unat b < 44064"
    by linarith
  also have "\<dots> \<longleftrightarrow> unat a = 172 \<and> 16 \<le> unat b \<and> unat b \<le> 31"
    using unat_byte_less [of b] by (cases "unat a" "172 :: nat" rule: linorder_cases) auto
  finally show ?thesis
    by (simp add: in_block_def word_unat_eq_iff word_le_nat_alt)
qed

lemma in_block_10: "in_block (a, b, c, d) ((100, 64, 0, 0), 10) \<longleftrightarrow> a = 100 \<and> 64 \<le> b \<and> b \<le> 127"
proof -
  have "ip_nat (a, b, c, d) div 4194304 = (unat a * 256 + unat b) div 64"
    using unat_byte_less [of c] unat_byte_less [of d]
      div_mult2_eq [of "ip_nat (a, b, c, d)" 65536 64] by (simp add: div_nat_eqI)
  also have "\<dots> = 401 \<longleftrightarrow> 25664 \<le> unat a * 256 + unat b \<and> unat a * 256 + unat b < 25728"
    by linarith
  also have "\<dots> \<longleftrightarrow> unat a = 100 \<and> 64 \<le> unat b \<and> unat b \<le> 127"
    using unat_byte_less [of b] by (cases "unat a" "100 :: nat" rule: linorder_cases) auto
  finally show ?thesis
    by (simp add: in_block_def word_unat_eq_iff word_le_nat_alt)
qed

lemma class_v4: "address_class_of (V4 ip) = class_by_blocks ip"
proof -
  obtain a b c d where "ip = (a, b, c, d)" by (cases ip)
  then show ?thesis
    by (auto simp: address_class_of_def class_by_blocks_def in_block_8 in_block_10 in_block_12 in_block_16)
qed

lemma join_octets:
  fixes a b :: u8
  shows "ucast (drop_bit 8 (ucast a * 256 + ucast b :: u16)) = a" "ucast (ucast a * 256 + ucast b :: u16) = b"
  using unat_byte_less [of a] unat_byte_less [of b]
  by (simp_all add: word_unat_eq_iff unsigned_ucast_eq drop_bit_eq_div unat_div take_bit_eq_mod unat_mod
      unat_add unat_mult)

section \<open>The wait and the watch\<close>

text \<open>
  How the wait ends: after \<open>n\<close> refused observations within the grace period, either with the next one
  admitted or because the deadline has passed.
\<close>

definition wait_outcome ::
  "route_policy \<Rightarrow> nat \<Rightarrow> (nat \<Rightarrow> nat) \<Rightarrow> (nat \<Rightarrow> route) \<Rightarrow> nat \<Rightarrow> route \<Rightarrow> nat \<Rightarrow> route \<Rightarrow> bool" where
  "wait_outcome policy deadline clock observe k last_route n r \<longleftrightarrow> k \<le> n \<and>
    (\<forall>i. k \<le> i \<and> i < n \<longrightarrow> clock (Suc i) < deadline \<and> \<not> admits policy (observe i)) \<and>
    (if clock (Suc n) < deadline then admits policy (observe n) \<and> r = observe n
     else r = (if n = k then last_route else observe (n - 1)))"

lemma wait_outcome_step:
  assumes "clock (Suc k) < deadline" and "\<not> admits policy (observe k)"
    and out: "wait_outcome policy deadline clock observe (Suc k) (observe k) n r"
  shows "wait_outcome policy deadline clock observe k last_route n r"
proof -
  have "clock (Suc i) < deadline \<and> \<not> admits policy (observe i)" if "k \<le> i" "i < n" for i
    using assms that by (cases "i = k") (simp_all add: wait_outcome_def)
  moreover have "k < n" using out by (simp add: wait_outcome_def)
  ultimately show ?thesis
    using out by (auto simp: wait_outcome_def)
qed

lemma sleeps_clock:
  assumes "sleeps clock"
  shows "clock 0 + 100 * k \<le> clock (Suc k)"
proof (induction k)
  case (Suc k)
  have "clock (Suc k) + 100 \<le> clock (Suc (Suc k))" using assms by (simp add: sleeps_def)
  with Suc show ?case by simp
qed (use assms in \<open>simp add: sleeps_def\<close>)

lemma until_admissible:
  assumes tick: "sleeps clock"
  shows "\<exists>n r. until_admissible_loop policy deadline clock observe k last_route = Some r \<and>
    wait_outcome policy deadline clock observe k last_route n r"
proof (induction "deadline - clock (Suc k)" arbitrary: k last_route rule: less_induct)
  case less
  note unfold = until_admissible_loop.simps [of policy deadline clock observe k last_route]
  consider (late) "\<not> clock (Suc k) < deadline"
    | (found) "clock (Suc k) < deadline" "admits policy (observe k)"
    | (more) "clock (Suc k) < deadline" "\<not> admits policy (observe k)" by blast
  then show ?case
  proof cases
    case late
    then have "wait_outcome policy deadline clock observe k last_route k last_route" by (auto simp: wait_outcome_def)
    with late unfold show ?thesis by auto
  next
    case found
    then have "wait_outcome policy deadline clock observe k last_route k (observe k)" by (auto simp: wait_outcome_def)
    with found unfold show ?thesis by auto
  next
    case more
    have "deadline - clock (Suc (Suc k)) < deadline - clock (Suc k)"
      using more tick [unfolded sleeps_def, THEN conjunct2, rule_format, of k] by linarith
    then obtain n r where "until_admissible_loop policy deadline clock observe (Suc k) (observe k) = Some r"
        "wait_outcome policy deadline clock observe (Suc k) (observe k) n r"
      using less.hyps by blast
    with more unfold wait_outcome_step [of clock k deadline policy observe n r last_route] show ?thesis by auto
  qed
qed

text \<open>The observations that fall due, given when the next check is.\<close>

fun due :: "nat \<Rightarrow> (nat \<times> route) list \<Rightarrow> route list" where
  "due next_check [] = []"
| "due next_check ((now, r) # obs) =
    (if now < next_check then due next_check obs else r # due (now + ROUTE_WATCH_INTERVAL) obs)"

text \<open>A transfer polls its watch at certain times until it is refused.\<close>

fun watch_run ::
  "route_watch \<Rightarrow> bytes \<Rightarrow> event_queue option \<Rightarrow> (nat \<times> route) list \<Rightarrow>
    (transfer_error + unit) \<times> route_watch \<times> event_queue option" where
  "watch_run w tid q [] = (Inr (), w, q)"
| "watch_run w tid q ((now, r) # obs) =
    (case poll_with w tid q now r of
       (Inl e, w, q) \<Rightarrow> (Inl e, w, q)
     | (Inr _, w, q) \<Rightarrow> watch_run w tid q obs)"

definition refusals :: "route_watch \<Rightarrow> route list \<Rightarrow> route list" where
  "refusals w rs = (if rw_strikes w = 1 then rw_last w # rs else rs)"

lemma poll_due:
  fixes r :: route and tid :: bytes and q :: "event_queue option"
  assumes st: "rw_strikes w = 0 \<or> rw_strikes w = 1" and now: "\<not> now < rw_next_check w"
    and pol: "ra_policy (rw_admission w) = pol"
  defines "q' \<equiv> (if r \<noteq> rw_last w then push_opt (route_event tid r) q else q)"
    and "w' \<equiv> w\<lparr>rw_next_check := now + ROUTE_WATCH_INTERVAL, rw_last := r\<rparr>"
  shows "poll_with w tid q now r =
    (if admits pol r then (Inr (), w'\<lparr>rw_strikes := 0\<rparr>, q')
     else if rw_strikes w = 1 then (Inl (RouteRefused r), w'\<lparr>rw_strikes := 2\<rparr>, q')
     else (Inr (), w'\<lparr>rw_strikes := 1\<rparr>, q'))"
proof -
  have same: "w\<lparr>rw_next_check := n, rw_strikes := s\<rparr> = w\<lparr>rw_next_check := n, rw_last := r, rw_strikes := s\<rparr>" if "r = rw_last w" for n s
    using that by simp
  have strike: "sat_succ8 0 = 1" "sat_succ8 1 = 2" "\<not> (2 :: u8) \<le> 1"
    by (simp_all add: sat_succ8_def word_le_nat_alt)
  from st show ?thesis
  proof
    assume "rw_strikes w = 0"
    with now pol same strike show ?thesis
      by (simp add: poll_with_def w'_def q'_def Let_def ROUTE_WATCH_STRIKES_def)
  next
    assume "rw_strikes w = 1"
    with now pol same strike show ?thesis
      by (simp add: poll_with_def w'_def q'_def Let_def ROUTE_WATCH_STRIKES_def)
  qed
qed

lemma watch_run_spec:
  assumes "rw_strikes w = 0 \<or> rw_strikes w = 1 \<and> \<not> admits pol (rw_last w)"
    and "ra_policy (rw_admission w) = pol"
  shows "(fst (watch_run w tid q obs) = Inr () \<longleftrightarrow>
      successively (\<lambda>r r'. admits pol r \<or> admits pol r') (refusals w (due (rw_next_check w) obs))) \<and>
    (fst (watch_run w tid q obs) = Inr () \<longrightarrow> snd (snd (watch_run w tid q obs)) =
      fold push_opt (map (route_event tid) (tl (remdups_adj (rw_last w # due (rw_next_check w) obs)))) q)"
  using assms
proof (induction obs arbitrary: w q)
  case (Cons ob obs)
  obtain now r where ob: "ob = (now, r)" by (cases ob)
  show ?case
  proof (cases "now < rw_next_check w")
    case True
    with Cons ob show ?thesis by (simp add: poll_with_def)
  next
    case False
    let ?q = "if r \<noteq> rw_last w then push_opt (route_event tid r) q else q"
    let ?w = "w\<lparr>rw_next_check := now + ROUTE_WATCH_INTERVAL, rw_last := r\<rparr>"
    let ?rest = "due (now + ROUTE_WATCH_INTERVAL) obs"
    have st: "rw_strikes w = 0 \<or> rw_strikes w = 1" using Cons.prems by blast
    note poll = poll_due [OF st False Cons.prems(2), of tid q r]
    have queue: "fold push_opt (map (route_event tid) (tl (remdups_adj (rw_last w # r # ?rest)))) q =
        fold push_opt (map (route_event tid) (tl (remdups_adj (r # ?rest)))) ?q"
      by (cases "rw_last w = r") (simp_all add: remdups_adj_Cons' split: list.splits)
    show ?thesis
    proof (cases "admits pol r")
      case True
      then have "watch_run w tid q (ob # obs) = watch_run (?w\<lparr>rw_strikes := 0\<rparr>) tid ?q obs"
        using poll ob by simp
      moreover have "successively (\<lambda>r r'. admits pol r \<or> admits pol r') (refusals w (r # ?rest)) \<longleftrightarrow>
          successively (\<lambda>r r'. admits pol r \<or> admits pol r') ?rest"
        using True by (auto simp: refusals_def successively_Cons)
      ultimately show ?thesis
        using Cons.IH [of "?w\<lparr>rw_strikes := 0\<rparr>" ?q] Cons.prems(2) False queue ob by (simp add: refusals_def)
    next
      case no: False
      show ?thesis
      proof (cases "rw_strikes w = 1")
        case True
        with no Cons.prems False poll ob show ?thesis by (simp add: refusals_def)
      next
        case st: False
        with no poll ob have "watch_run w tid q (ob # obs) = watch_run (?w\<lparr>rw_strikes := 1\<rparr>) tid ?q obs"
          by simp
        then show ?thesis
          using no st Cons.IH [of "?w\<lparr>rw_strikes := 1\<rparr>" ?q] Cons.prems(2) False queue ob by (simp add: refusals_def)
      qed
    qed
  qed
qed (auto simp: refusals_def)
section \<open>Properties\<close>

text \<open>The class of an IPv4 address is the one its registered block gives (127/8 loopback; 10/8, 172.16/12, 192.168/16 and
  169.254/16 private; 100.64/10 shared; all else public), and an IPv4 address seen through a dual-stack socket
  as an IPv6 one has the same class.\<close>

theorem address_class_blocks:
  "address_class_of (V4 ip) = class_by_blocks ip \<and>
   address_class_of (V6 [0, 0, 0, 0, 0, 0xffff, ucast a * 256 + ucast b, ucast c * 256 + ucast d]) =
     class_by_blocks (a, b, c, d)"
proof -
  have "address_class_of (V6 [0, 0, 0, 0, 0, 0xffff, ucast a * 256 + ucast b, ucast c * 256 + ucast d]) =
      address_class_of (V4 (a, b, c, d))"
    by (simp add: address_class_of_def join_octets)
  then show ?thesis by (simp add: class_v4)
qed

text \<open>C30: Admission always comes to an end, after at most one observation of the path more than the grace period has tenths of a second. It
  publishes exactly one event, for the route it decides on, and then accepts that route exactly when the policy admits it. That is the
  case exactly when the initial path is admissible or an admissible one is seen in a pass of the loop that began before the
  grace period was over, and then the first such path is taken without further waiting. The only assumption is that the loop
  sleeps 100 ms in each pass on a clock that does not go back.\<close>

theorem admit_route_decides:
  assumes "sleeps clock"
  shows "\<exists>r. admit_route initial tid adm events clock observe =
      Some (if admits (ra_policy adm) r then Inr r else Inl (RouteRefused r), push_opt (route_event tid r) events) \<and>
    (if admits (ra_policy adm) initial then r = initial
     else \<exists>n. 100 * n < ra_grace adm + 100 \<and>
       (\<forall>i < n. clock (Suc i) < clock 0 + ra_grace adm \<and> \<not> admits (ra_policy adm) (observe i)) \<and>
       (if clock (Suc n) < clock 0 + ra_grace adm then admits (ra_policy adm) (observe n) \<and> r = observe n
        else r = (if n = 0 then initial else observe (n - 1)) \<and> \<not> admits (ra_policy adm) r))"
proof (cases "admits (ra_policy adm) initial")
  case True
  then show ?thesis
    by (simp add: admit_route_def poll_until_admissible_def)
next
  case False
  obtain n r where n: "until_admissible_loop (ra_policy adm) (clock 0 + ra_grace adm) clock observe 0 initial = Some r"
      "wait_outcome (ra_policy adm) (clock 0 + ra_grace adm) clock observe 0 initial n r"
    using until_admissible [OF assms] by blast
  then have "admit_route initial tid adm events clock observe =
      Some (if admits (ra_policy adm) r then Inr r else Inl (RouteRefused r), push_opt (route_event tid r) events)"
    using False by (simp add: admit_route_def poll_until_admissible_def)
  moreover have "100 * n < ra_grace adm + 100"
  proof (cases n)
    case (Suc k)
    then have "clock (Suc k) < clock 0 + ra_grace adm" using n(2) by (simp add: wait_outcome_def)
    with sleeps_clock [OF assms, of k] Suc show ?thesis by simp
  qed simp
  moreover have "\<not> admits (ra_policy adm) r" if "\<not> clock (Suc n) < clock 0 + ra_grace adm"
    using n(2) that False by (cases n) (auto simp: wait_outcome_def)
  ultimately show ?thesis
    using False n(2) by (intro exI [of _ r]) (auto simp: wait_outcome_def intro!: exI [of _ n])
qed

text \<open>With a grace period of 50 ms, and no time between fixing the deadline and the first test, the path is observed once.\<close>

theorem admit_route_decides_witness:
  "admit_route Relay [] (with_grace (ra_new DirectOnly) 50) None (\<lambda>k. 100 * (k - 1)) (\<lambda>k. Direct Public) = Some (Inr (Direct Public), None)"
proof -
  let ?clock = "\<lambda>k :: nat. 100 * (k - 1)" and ?adm = "with_grace (ra_new DirectOnly) 50"
  have adm: "ra_policy ?adm = DirectOnly" "ra_grace ?adm = 50" by (simp_all add: with_grace_def ra_new_def ra_default_def)
  have "sleeps ?clock" by (simp add: sleeps_def)
  from admit_route_decides [OF this, of Relay "[]" ?adm None "\<lambda>k. Direct Public"] obtain r n where
    r: "admit_route Relay [] ?adm None ?clock (\<lambda>k. Direct Public) = Some (if admits DirectOnly r then Inr r else Inl (RouteRefused r), None)"
    and n: "\<forall>i < n. \<not> admits DirectOnly (Direct Public)" "if ?clock (Suc n) < 50 then r = Direct Public else True"
    by (auto simp: adm push_opt_def)
  from n(1) have "n = 0" by (metis admits.simps(2) neq0_conv)
  with n(2) r show ?thesis by simp
qed

text \<open>C31: During a transfer the watch lets a path go on exactly as long as no two successive checks, taken at least half a second
  apart, find a path the policy refuses; a single refused observation is forgiven. Each change of
  path seen by a check is published once, in order.\<close>

theorem route_watch_exact:
  "(fst (watch_run (rw_new initial adm start) tid q obs) = Inr () \<longleftrightarrow>
     successively (\<lambda>r r'. admits (ra_policy adm) r \<or> admits (ra_policy adm) r')
       (due (start + ROUTE_WATCH_INTERVAL) obs)) \<and>
   (\<not> is_ok (fst (watch_run (rw_new initial adm start) tid q obs)) \<or>
     snd (snd (watch_run (rw_new initial adm start) tid q obs)) =
       fold push_opt (map (route_event tid) (tl (remdups_adj (initial # due (start + ROUTE_WATCH_INTERVAL) obs)))) q)"
proof -
  have "rw_strikes (rw_new initial adm start) = 0 \<or> rw_strikes (rw_new initial adm start) = 1 \<and>
      \<not> admits (ra_policy adm) (rw_last (rw_new initial adm start))"
    by (simp add: rw_new_def)
  from watch_run_spec [OF this, of tid q obs] show ?thesis
    by (auto simp: refusals_def rw_new_def is_ok_iff)
qed

theorem route_watch_exact_witness:
  "fst (watch_run (rw_new (Direct Public) (ra_new DirectOnly) 0) [] None [(500, Relay), (1000, Direct Public), (1500, Unknown)]) = Inr ()"
  using route_watch_exact [of "Direct Public" "ra_new DirectOnly" 0 "[]" None "[(500, Relay), (1000, Direct Public), (1500, Unknown)]"]
  by (simp add: ROUTE_WATCH_INTERVAL_def ra_new_def ra_default_def)

end
