(* ===== verification/Rtp_Capability.thy ===== *)
theory Rtp_Capability
  imports Rtp_Cbor Rtp_Crypto
begin

text \<open>
  \<open>rtp2-core/src/capability.rs\<close>: the capability body and its token, and the check a provider makes before it
  serves a request. The MAC comes from \<open>crypto.rs\<close>, the fresh nonce is an argument.
\<close>

section \<open>Operations and limits\<close>

definition TAG_DOMAIN :: bytes where "TAG_DOMAIN = ascii ''RTP2-CAPABILITY-TAG-v1''"

definition OP_READ_MANIFEST :: u64 where "OP_READ_MANIFEST = push_bit 0 1"
definition OP_READ_CHUNKS :: u64 where "OP_READ_CHUNKS = push_bit 1 1"
definition OP_READ_PROOFS :: u64 where "OP_READ_PROOFS = push_bit 2 1"
definition OP_READ_PREVIEW :: u64 where "OP_READ_PREVIEW = push_bit 3 1"
definition OP_UPLOAD_CHUNKS :: u64 where "OP_UPLOAD_CHUNKS = push_bit 4 1"
definition OP_DELETE_OBJECT :: u64 where "OP_DELETE_OBJECT = push_bit 5 1"

definition OP_ALL :: u64 where
  "OP_ALL = OP_READ_MANIFEST OR OP_READ_CHUNKS OR OP_READ_PROOFS OR OP_READ_PREVIEW OR
    OP_UPLOAD_CHUNKS OR OP_DELETE_OBJECT"

definition OP_DOWNLOAD :: u64 where
  "OP_DOWNLOAD = OP_READ_MANIFEST OR OP_READ_CHUNKS OR OP_READ_PROOFS OR OP_READ_PREVIEW"

definition CAPABILITY_VERSION :: u64 where "CAPABILITY_VERSION = 1"
definition NONCE_LEN :: nat where "NONCE_LEN = 32"
definition MAX_OBJECTS :: u64 where "MAX_OBJECTS = 1024"

datatype capability_error =
  CapEncoding | UnsupportedVersion | UnknownOperation | NoOperations | TooManyObjects | BadTag | NotYetValid
| Expired | WrongProvider | WrongTransfer | WrongObject | OperationNotPermitted

definition cap_err :: "cbor_error \<Rightarrow> capability_error" where
  "cap_err e = CapEncoding"

section \<open>The body\<close>

record capability_body =
  cb_version :: u64
  cb_provider_id :: bytes
  cb_transfer_id :: bytes
  cb_object_ids :: "bytes list"
  cb_operations :: u64
  cb_not_before :: u64
  cb_expires_at :: u64
  cb_nonce :: bytes

definition cb_validate :: "capability_body \<Rightarrow> capability_error + unit" where
  "cb_validate b =
    (if cb_version b \<noteq> CAPABILITY_VERSION then Inl UnsupportedVersion
     else if cb_operations b = 0 then Inl NoOperations
     else if cb_operations b AND NOT OP_ALL \<noteq> 0 then Inl UnknownOperation
     else if cb_object_ids b = [] then Inl WrongObject
     else if length (cb_object_ids b) > unat MAX_OBJECTS then Inl TooManyObjects
     else if cb_expires_at b \<le> cb_not_before b then Inl Expired
     else Inr ())"

definition cb_new ::
  "bytes \<Rightarrow> bytes \<Rightarrow> bytes list \<Rightarrow> u64 \<Rightarrow> u64 \<Rightarrow> u64 \<Rightarrow> bytes \<Rightarrow> capability_error + capability_body" where
  "cb_new provider_id transfer_id object_ids operations not_before expires_at nonce =
    (let body = \<lparr>cb_version = CAPABILITY_VERSION, cb_provider_id = provider_id, cb_transfer_id = transfer_id,
       cb_object_ids = object_ids, cb_operations = operations, cb_not_before = not_before,
       cb_expires_at = expires_at, cb_nonce = nonce\<rparr>
     in qm id (cb_validate body) (\<lambda>_. Inr body))"

definition w_ids :: "bytes list \<Rightarrow> writer \<Rightarrow> writer" where
  "w_ids ids w = fold (\<lambda>b w. w_bytes w b) ids (w_array w (of_nat (length ids)))"

definition cb_encode :: "capability_body \<Rightarrow> bytes option" where
  "cb_encode b = do {
     let m = mw_begin [] 8;
     m \<leftarrow> mw_uint m 0 (cb_version b);
     m \<leftarrow> mw_bytes m 1 (cb_provider_id b);
     m \<leftarrow> mw_bytes m 2 (cb_transfer_id b);
     m \<leftarrow> mw_nested m 3 (\<lambda>w. Some (w_ids (cb_object_ids b) w));
     m \<leftarrow> mw_uint m 4 (cb_operations b);
     m \<leftarrow> mw_uint m 5 (cb_not_before b);
     m \<leftarrow> mw_uint m 6 (cb_expires_at b);
     m \<leftarrow> mw_bytes m 7 (cb_nonce b);
     mw_end m }"

definition r_object_ids :: "reader \<Rightarrow> capability_error + bytes list \<times> reader" where
  "r_object_ids = r_bounded cap_err TooManyObjects (unat MAX_OBJECTS) (conv_rd cap_err (r_bytes_exact 32))"

definition cb_decode :: "bytes \<Rightarrow> capability_error + capability_body" where
  "cb_decode bs =
    qm cap_err (r_new bs) (\<lambda>r.
    qm cap_err (r_map r) (\<lambda>m.
    qm id (mr_field cap_err 0 r_uint m) (\<lambda>(version, m).
    qm id (mr_field cap_err 1 (r_bytes_exact 32) m) (\<lambda>(provider_id, m).
    qm id (mr_field cap_err 2 (r_bytes_exact 32) m) (\<lambda>(transfer_id, m).
    qm cap_err (mr_expect_key 3 m) (\<lambda>m.
    qm id (mr_on r_object_ids m) (\<lambda>(object_ids, m).
    qm id (mr_field cap_err 4 r_uint m) (\<lambda>(operations, m).
    qm id (mr_field cap_err 5 r_uint m) (\<lambda>(not_before, m).
    qm id (mr_field cap_err 6 r_uint m) (\<lambda>(expires_at, m).
    qm id (mr_field cap_err 7 (r_bytes_exact NONCE_LEN) m) (\<lambda>(nonce, m).
    qm id (mr_no_more cap_err CapEncoding m) (\<lambda>m.
    qm cap_err (r_finish (mr_reader m)) (\<lambda>_.
    let body = \<lparr>cb_version = version, cb_provider_id = provider_id, cb_transfer_id = transfer_id,
      cb_object_ids = object_ids, cb_operations = operations, cb_not_before = not_before,
      cb_expires_at = expires_at, cb_nonce = nonce\<rparr> in
    qm id (cb_validate body) (\<lambda>_. Inr body))))))))))))))"

section \<open>The token\<close>

record capability_token =
  ct_body_bytes :: bytes
  ct_tag :: bytes

definition tag_for :: "prims \<Rightarrow> bytes \<Rightarrow> bytes \<Rightarrow> bytes" where
  "tag_for C body_bytes key = hmac_sha384 C key (TAG_DOMAIN @ body_bytes)"

definition ct_mint :: "prims \<Rightarrow> capability_body \<Rightarrow> bytes \<Rightarrow> capability_token option" where
  "ct_mint C body key = do {
     body_bytes \<leftarrow> cb_encode body;
     Some \<lparr>ct_body_bytes = body_bytes, ct_tag = tag_for C body_bytes key\<rparr> }"

definition ct_encode :: "capability_token \<Rightarrow> bytes option" where
  "ct_encode t = do {
     let m = mw_begin [] 2;
     m \<leftarrow> mw_bytes m 0 (ct_body_bytes t);
     m \<leftarrow> mw_bytes m 1 (ct_tag t);
     mw_end m }"

definition ct_decode :: "bytes \<Rightarrow> capability_error + capability_token" where
  "ct_decode bs =
    qm cap_err (r_new bs) (\<lambda>r.
    qm cap_err (r_map r) (\<lambda>m.
    qm id (mr_field cap_err 0 r_bytes m) (\<lambda>(body_bytes, m).
    qm id (mr_field cap_err 1 (r_bytes_exact 48) m) (\<lambda>(tag, m).
    qm id (mr_no_more cap_err CapEncoding m) (\<lambda>m.
    qm cap_err (r_finish (mr_reader m)) (\<lambda>_.
    Inr \<lparr>ct_body_bytes = body_bytes, ct_tag = tag\<rparr>))))))"

definition ct_verify :: "prims \<Rightarrow> capability_token \<Rightarrow> bytes \<Rightarrow> capability_error + capability_body" where
  "ct_verify C t key =
    (let expected = tag_for C (ct_body_bytes t) key
     in if \<not> ct_eq (ct_tag t) expected then Inl BadTag else cb_decode (ct_body_bytes t))"

definition pop_count :: "u64 \<Rightarrow> nat" where
  "pop_count w = length (filter (bit w) [0..<64])"

definition authorize ::
  "prims \<Rightarrow> capability_token \<Rightarrow> bytes \<Rightarrow> bytes \<Rightarrow> bytes \<Rightarrow> bytes \<Rightarrow> u64 \<Rightarrow> u64 \<Rightarrow>
    capability_error + capability_body" where
  "authorize C token key provider_id transfer_id object_id operation now =
    qm id (ct_verify C token key) (\<lambda>body.
      if \<not> ct_eq (cb_provider_id body) provider_id then Inl WrongProvider
      else if \<not> ct_eq (cb_transfer_id body) transfer_id then Inl WrongTransfer
      else if \<not> list_ex (\<lambda>i. ct_eq i object_id) (cb_object_ids body) then Inl WrongObject
      else if operation = 0 \<or> operation AND NOT OP_ALL \<noteq> 0 \<or> pop_count operation \<noteq> 1 then Inl UnknownOperation
      else if cb_operations body AND operation = 0 then Inl OperationNotPermitted
      else if now < cb_not_before body then Inl NotYetValid
      else if now \<ge> cb_expires_at body then Inl Expired
      else Inr body)"

section \<open>Wire format\<close>

interpretation object_ids: list_codec enc_bytes "conv_rd cap_err (r_bytes_exact 32)" "\<lambda>b. length b = 32" 0
    cap_err TooManyObjects "unat MAX_OBJECTS"
  by (intro list_codec.intro list_codec_axioms.intro fixed_bytes_codec) (simp_all add: MAX_OBJECTS_def MAX_DEPTH_def)

definition cb_ok :: "capability_body \<Rightarrow> bool" where
  "cb_ok b \<longleftrightarrow> length (cb_provider_id b) = 32 \<and> length (cb_transfer_id b) = 32 \<and> length (cb_nonce b) = 32 \<and>
    list_all (\<lambda>i. length i = 32) (cb_object_ids b)"

definition cb_bytes :: "capability_body \<Rightarrow> bytes" where
  "cb_bytes b = enc_map 8 @ enc_uint 0 @ enc_uint (cb_version b) @ enc_uint 1 @ enc_bytes (cb_provider_id b) @
    enc_uint 2 @ enc_bytes (cb_transfer_id b) @ enc_uint 3 @ enc_list enc_bytes (cb_object_ids b) @
    enc_uint 4 @ enc_uint (cb_operations b) @ enc_uint 5 @ enc_uint (cb_not_before b) @
    enc_uint 6 @ enc_uint (cb_expires_at b) @ enc_uint 7 @ enc_bytes (cb_nonce b)"

lemma w_ids_eq: "w_ids ids w = w @ enc_list enc_bytes ids"
proof -
  have "fold (\<lambda>b w. w_bytes w b) ids w = w @ concat (map enc_bytes ids)" for w
    by (induction ids arbitrary: w) simp_all
  then show ?thesis by (simp add: w_ids_def enc_list_def)
qed

lemma cb_encode_eq: "cb_encode b = Some (cb_bytes b)"
  by (simp add: cb_encode_def mw_simps w_ids_eq cb_bytes_def)

lemma cb_validate_iff: "cb_validate b = Inr () \<longleftrightarrow>
    cb_version b = CAPABILITY_VERSION \<and> cb_operations b \<noteq> 0 \<and> cb_operations b AND NOT OP_ALL = 0 \<and>
    cb_object_ids b \<noteq> [] \<and> length (cb_object_ids b) \<le> 1024 \<and> cb_not_before b < cb_expires_at b"
  by (auto simp: cb_validate_def MAX_OBJECTS_def)

lemma ids_nest: "Suc 0 + Suc 0 \<le> MAX_DEPTH"
  by (simp add: MAX_DEPTH_def)

lemma cb_decode_inv:
  assumes "cb_decode bs = Inr b"
  shows "cb_ok b \<and> cb_validate b = Inr () \<and> bs = cb_bytes b"
  using assms
  by (auto simp: cb_decode_def r_object_ids_def Let_def res_iff cbor_iff object_ids.bounded_iff [OF ids_nest]
      cb_ok_def cb_bytes_def NONCE_LEN_def)

lemma length_concat_bytes: "list_all (\<lambda>i. length i = 32) ids \<Longrightarrow> length (concat (map enc_bytes ids)) \<le> 41 * length ids"
proof (induction ids)
  case (Cons i ids)
  with length_enc(4) [of i] show ?case by simp
qed simp

lemma cb_decode_fwd:
  assumes "cb_ok b" and "cb_validate b = Inr ()"
  shows "cb_decode (cb_bytes b) = Inr b"
proof -
  have ids: "length (cb_object_ids b) \<le> 1024" "list_all (\<lambda>i. length i = 32) (cb_object_ids b)"
    using assms by (simp_all add: cb_validate_iff cb_ok_def)
  have read: "r_object_ids (rdr pre (enc_list enc_bytes (cb_object_ids b) @ rest) (Suc 0)) =
      Inr (cb_object_ids b, rdr (pre @ enc_list enc_bytes (cb_object_ids b)) rest (Suc 0))" for pre rest
    unfolding r_object_ids_def object_ids.bounded_iff [OF ids_nest] using ids by (simp add: MAX_OBJECTS_def)
  have "length (enc_list enc_bytes (cb_object_ids b)) \<le> 9 + 41 * length (cb_object_ids b)"
    using length_concat_bytes [OF ids(2)] length_enc(3) [of "of_nat (length (cb_object_ids b))"] by (simp add: enc_list_def)
  then have "length (cb_bytes b) \<le> MAX_CONTROL_SIZE"
    using assms(1) ids(1) length_enc(1) [of "cb_version b"] length_enc(1) [of "cb_operations b"]
      length_enc(1) [of "cb_not_before b"] length_enc(1) [of "cb_expires_at b"]
      length_enc(4) [of "cb_provider_id b"] length_enc(4) [of "cb_transfer_id b"] length_enc(4) [of "cb_nonce b"]
      length_enc(1) [of 0] length_enc(1) [of 1] length_enc(1) [of 2] length_enc(1) [of 3]
      length_enc(1) [of 4] length_enc(1) [of 5] length_enc(1) [of 6] length_enc(1) [of 7] length_enc(2) [of 8]
    unfolding cb_bytes_def cb_ok_def MAX_CONTROL_SIZE_def length_append by linarith
  with assms read show ?thesis
    by (cases b) (simp add: cb_decode_def cb_bytes_def cb_ok_def r_new_eq cbor_fwd MAX_DEPTH_def NONCE_LEN_def)
qed

lemma cb_decode_iff: "cb_decode bs = Inr b \<longleftrightarrow> cb_ok b \<and> cb_validate b = Inr () \<and> bs = cb_bytes b"
  using cb_decode_inv cb_decode_fwd by blast

definition ct_bytes :: "capability_token \<Rightarrow> bytes" where
  "ct_bytes t = enc_map 2 @ enc_uint 0 @ enc_bytes (ct_body_bytes t) @ enc_uint 1 @ enc_bytes (ct_tag t)"

lemma ct_encode_eq: "ct_encode t = Some (ct_bytes t)"
  by (simp add: ct_encode_def mw_simps ct_bytes_def)

lemma ct_decode_iff: "ct_decode bs = Inr t \<longleftrightarrow>
    length (ct_tag t) = 48 \<and> bs = ct_bytes t \<and> length bs \<le> MAX_CONTROL_SIZE"
proof
  assume "ct_decode bs = Inr t"
  then show "length (ct_tag t) = 48 \<and> bs = ct_bytes t \<and> length bs \<le> MAX_CONTROL_SIZE"
    by (auto simp: ct_decode_def res_iff cbor_iff ct_bytes_def)
next
  assume t: "length (ct_tag t) = 48 \<and> bs = ct_bytes t \<and> length bs \<le> MAX_CONTROL_SIZE"
  have "length (ct_body_bytes t) < 2 ^ 64"
    using t length_enc_bytes [of "ct_body_bytes t"] by (auto simp: ct_bytes_def MAX_CONTROL_SIZE_def)
  with t show "ct_decode bs = Inr t"
    by (cases t) (auto simp: ct_decode_def ct_bytes_def r_new_eq cbor_fwd MAX_DEPTH_def)
qed

section \<open>Operations\<close>

lemma OP_ALL_mask: "OP_ALL = mask 6"
  by (simp add: OP_ALL_def OP_READ_MANIFEST_def OP_READ_CHUNKS_def OP_READ_PROOFS_def OP_READ_PREVIEW_def
      OP_UPLOAD_CHUNKS_def OP_DELETE_OBJECT_def mask_eq_exp_minus_1)
definition OPERATIONS :: "u64 list" where
  "OPERATIONS = [OP_READ_MANIFEST, OP_READ_CHUNKS, OP_READ_PROOFS, OP_READ_PREVIEW, OP_UPLOAD_CHUNKS, OP_DELETE_OBJECT]"

lemmas op_defs = OPERATIONS_def OP_READ_MANIFEST_def OP_READ_CHUNKS_def OP_READ_PROOFS_def OP_READ_PREVIEW_def
  OP_UPLOAD_CHUNKS_def OP_DELETE_OBJECT_def

lemma pop_count_one:
  assumes "pop_count w = 1"
  obtains i where "i < 64" "w = push_bit i 1"
proof -
  obtain i where i: "filter (bit w) [0..<64] = [i]"
    using assms by (auto simp: pop_count_def length_Suc_conv)
  have "set (filter (bit w) [0..<64]) = {i}" unfolding i by simp
  then have bits: "k < 64 \<and> bit w k \<longleftrightarrow> k = i" for k
    unfolding set_filter set_upt by (simp add: set_eq_iff)
  have "w = push_bit i 1"
  proof (rule bit_eqI)
    fix k assume "possible_bit TYPE(64 word) k"
    then have "k < 64" by simp
    then show "bit w k = bit (push_bit i 1 :: u64) k"
      using bits [of k] by (auto simp: bit_simps)
  qed
  moreover have "i < 64" using bits [of i] by simp
  ultimately show thesis using that by blast
qed

lemma known_operation:
  "operation \<noteq> 0 \<and> operation AND NOT OP_ALL = 0 \<and> pop_count operation = 1 \<longleftrightarrow> operation \<in> set OPERATIONS"
proof
  assume op: "operation \<noteq> 0 \<and> operation AND NOT OP_ALL = 0 \<and> pop_count operation = 1"
  then obtain i where i: "i < 64" "operation = push_bit i 1" using pop_count_one by blast
  have "i < 6"
  proof (rule ccontr)
    assume "\<not> i < 6"
    then have "bit (operation AND NOT OP_ALL) i" using i by (simp add: OP_ALL_mask bit_simps)
    then show False using op by simp
  qed
  then have "i = 0 \<or> i = 1 \<or> i = 2 \<or> i = 3 \<or> i = 4 \<or> i = 5" by linarith
  then show "operation \<in> set OPERATIONS" unfolding i(2) by (auto simp: op_defs)
next
  assume "operation \<in> set OPERATIONS"
  moreover have "list_all (\<lambda>x. x \<noteq> 0 \<and> x AND NOT OP_ALL = 0 \<and> pop_count x = 1) OPERATIONS" by code_simp
  ultimately show "operation \<noteq> 0 \<and> operation AND NOT OP_ALL = 0 \<and> pop_count operation = 1"
    by (simp add: list_all_iff)
qed

section \<open>Properties\<close>

definition sample_body :: capability_body where
  "sample_body = \<lparr>cb_version = 1, cb_provider_id = replicate 32 1, cb_transfer_id = replicate 32 2,
    cb_object_ids = [replicate 32 3], cb_operations = 7, cb_not_before = 100, cb_expires_at = 200,
    cb_nonce = replicate 32 4\<rparr>"

lemma sample_body_ok: "cb_ok sample_body" "cb_validate sample_body = Inr ()"
  by (simp_all add: cb_ok_def cb_validate_iff sample_body_def OP_ALL_mask mask_eq_exp_minus_1 CAPABILITY_VERSION_def)

text \<open>A capability body decodes exactly when the bytes are the encoding of a well-formed body: the version known, at least
  one operation and only known ones, between 1 and 1024 objects, and a bounded validity. A token
  decodes exactly when the bytes are its encoding. Neither encoder panics.\<close>

theorem capability_exact:
  "(cb_decode bs = Inr b \<longleftrightarrow> cb_ok b \<and> cb_version b = CAPABILITY_VERSION \<and> cb_operations b \<noteq> 0 \<and>
      cb_operations b AND NOT OP_ALL = 0 \<and> cb_object_ids b \<noteq> [] \<and> length (cb_object_ids b) \<le> 1024 \<and>
      cb_not_before b < cb_expires_at b \<and> cb_encode b = Some bs) \<and>
   (ct_decode bs = Inr t \<longleftrightarrow> length (ct_tag t) = 48 \<and> length bs \<le> MAX_CONTROL_SIZE \<and> ct_encode t = Some bs)"
  by (auto simp: cb_decode_iff cb_validate_iff cb_encode_eq ct_decode_iff ct_encode_eq)

text \<open>C10: A provider serves a request exactly when the token carries the provider's MAC over the encoding of a well-formed body that names
  this provider, this transfer and this object, permits the one operation asked for, and is valid at this time.
  The operation must be one of the six defined ones; a set of operations is refused.\<close>

theorem authorize_exact:
  "authorize C token key provider_id transfer_id object_id operation now = Inr body \<longleftrightarrow>
    ct_mint C body key = Some token \<and> cb_ok body \<and> cb_validate body = Inr () \<and>
    cb_provider_id body = provider_id \<and> cb_transfer_id body = transfer_id \<and> object_id \<in> set (cb_object_ids body) \<and>
    operation \<in> set OPERATIONS \<and> cb_operations body AND operation \<noteq> 0 \<and>
    cb_not_before body \<le> now \<and> now < cb_expires_at body"
proof -
  have mint: "ct_mint C body key = Some token \<longleftrightarrow>
      ct_body_bytes token = cb_bytes body \<and> ct_tag token = tag_for C (ct_body_bytes token) key"
    by (cases token) (auto simp: ct_mint_def cb_encode_eq)
  show ?thesis
    unfolding authorize_def ct_verify_def mint
    by (auto simp: Let_def res_iff cb_decode_iff known_operation [symmetric] list_ex_iff not_less not_le)
qed

theorem authorize_exact_witness:
  "\<exists>token. ct_mint sample_prims sample_body [9] = Some token \<and>
    authorize sample_prims token [9] (replicate 32 1) (replicate 32 2) (replicate 32 3) OP_READ_CHUNKS 150 = Inr sample_body \<and>
    authorize sample_prims token [9] (replicate 32 1) (replicate 32 2) (replicate 32 3) OP_READ_CHUNKS 250 \<noteq> Inr sample_body"
proof -
  obtain token where t: "ct_mint sample_prims sample_body [9] = Some token"
    by (simp add: ct_mint_def cb_encode_eq)
  have "OP_READ_CHUNKS \<in> set OPERATIONS" by (simp add: OPERATIONS_def)
  then show ?thesis
    using t sample_body_ok
      authorize_exact [of sample_prims token "[9]" "replicate 32 1" "replicate 32 2" "replicate 32 3" OP_READ_CHUNKS 150 sample_body]
      authorize_exact [of sample_prims token "[9]" "replicate 32 1" "replicate 32 2" "replicate 32 3" OP_READ_CHUNKS 250 sample_body]
    by (intro exI [of _ token]) (simp add: sample_body_def OP_READ_CHUNKS_def)
qed

end
