(* ===== verification/Rtp_Resume.thy ===== *)
theory Rtp_Resume
  imports Rtp_Bitmap Rtp_Cbor Rtp_Crypto
begin

text \<open>
  \<open>rtp2-core/src/resume.rs\<close>: the receiver's persistent record of one object, its encoding with a checksum, and the
  database that decides when the object file is flushed and the record committed. What the
  file system answers to each call is an argument; the disk is the set of chunks written to the object file, the set
  known to be flushed, and the records ever renamed into place.
\<close>

section \<open>Records\<close>

definition RECORD_VERSION :: u64 where "RECORD_VERSION = 1"
definition RECORD_DOMAIN :: bytes where "RECORD_DOMAIN = ascii ''RTP2-RESUME-RECORD-v1''"
definition MAX_RECORD_BYTES :: nat where "MAX_RECORD_BYTES = 8 * 1024 * 1024"
definition DEFAULT_CHECKPOINT_CHUNKS :: u64 where "DEFAULT_CHECKPOINT_CHUNKS = 64"

datatype resume_error = ResumeIo | Corrupt | VersionMismatch | ObjectMismatch

definition resume_err :: "cbor_error \<Rightarrow> resume_error" where
  "resume_err e = Corrupt"

record object_identity =
  oi_transfer_id :: bytes
  oi_object_id :: bytes
  oi_manifest_commitment :: bytes
  oi_ciphertext_root :: bytes
  oi_chunk_count :: u64
  oi_chunk_ciphertext_size :: u64
  oi_logical_plaintext_size :: u64

definition oi_matches :: "object_identity \<Rightarrow> object_identity \<Rightarrow> bool" where
  "oi_matches a b \<longleftrightarrow> oi_transfer_id a = oi_transfer_id b \<and> oi_object_id a = oi_object_id b \<and>
    oi_ciphertext_root a = oi_ciphertext_root b \<and> oi_chunk_count a = oi_chunk_count b \<and>
    oi_chunk_ciphertext_size a = oi_chunk_ciphertext_size b \<and>
    oi_logical_plaintext_size a = oi_logical_plaintext_size b"

record resume_record =
  re_identity :: object_identity
  re_verified :: chunk_bitmap
  re_durable :: chunk_bitmap
  re_temporary_path :: bytes
  re_last_provider :: bytes
  re_last_activity :: u64

definition re_new :: "object_identity \<Rightarrow> bytes \<Rightarrow> resume_error + resume_record" where
  "re_new identity temporary_path =
    qm (\<lambda>_. Corrupt) (bm_new (oi_chunk_count identity)) (\<lambda>verified.
      Inr \<lparr>re_identity = identity, re_verified = verified, re_durable = verified,
           re_temporary_path = temporary_path, re_last_provider = [], re_last_activity = 0\<rparr>)"

definition re_missing_ranges :: "resume_record \<Rightarrow> nat \<Rightarrow> (u64 \<times> u64) list" where
  "re_missing_ranges r max_ranges = missing_ranges (re_durable r) max_ranges"

definition re_is_complete :: "resume_record \<Rightarrow> bool" where
  "re_is_complete r = is_complete (re_durable r)"

definition re_body :: "resume_record \<Rightarrow> bytes option" where
  "re_body r = do {
     let m = mw_begin [] 12;
     m \<leftarrow> mw_uint m 0 RECORD_VERSION;
     m \<leftarrow> mw_bytes m 1 (oi_transfer_id (re_identity r));
     m \<leftarrow> mw_bytes m 2 (oi_object_id (re_identity r));
     m \<leftarrow> mw_bytes m 3 (oi_manifest_commitment (re_identity r));
     m \<leftarrow> mw_bytes m 4 (oi_ciphertext_root (re_identity r));
     m \<leftarrow> mw_uint m 5 (oi_chunk_count (re_identity r));
     m \<leftarrow> mw_uint m 6 (oi_chunk_ciphertext_size (re_identity r));
     m \<leftarrow> mw_uint m 7 (oi_logical_plaintext_size (re_identity r));
     verified \<leftarrow> encode_rle (re_verified r);
     m \<leftarrow> mw_bytes m 8 verified;
     durable \<leftarrow> encode_rle (re_durable r);
     m \<leftarrow> mw_bytes m 9 durable;
     m \<leftarrow> mw_text m 10 (re_temporary_path r);
     m \<leftarrow> mw_uint m 11 (re_last_activity r);
     mw_end m }"

definition re_encode :: "prims \<Rightarrow> resume_record \<Rightarrow> bytes option" where
  "re_encode C r = do { body \<leftarrow> re_body r; Some (blake3 C (RECORD_DOMAIN @ body) @ body) }"

text \<open>\<open>if m.reader.uint()? != RECORD_VERSION { return Err(..) }\<close> after its key.\<close>

definition r_record_version :: "map_reader \<Rightarrow> resume_error + map_reader" where
  "r_record_version m =
    qm id (mr_field resume_err 0 r_uint m) (\<lambda>(version, m).
      if version \<noteq> RECORD_VERSION then Inl VersionMismatch else Inr m)"

definition re_decode_body :: "bytes \<Rightarrow> resume_error + resume_record" where
  "re_decode_body body =
    qm resume_err (r_map (r_new_unbounded body)) (\<lambda>m.
    qm id (r_record_version m) (\<lambda>m.
    qm id (mr_field resume_err 1 (r_bytes_exact 32) m) (\<lambda>(transfer_id, m).
    qm id (mr_field resume_err 2 (r_bytes_exact 32) m) (\<lambda>(object_id, m).
    qm id (mr_field resume_err 3 (r_bytes_exact 32) m) (\<lambda>(manifest_commitment, m).
    qm id (mr_field resume_err 4 (r_bytes_exact 32) m) (\<lambda>(ciphertext_root, m).
    qm id (mr_field resume_err 5 r_uint m) (\<lambda>(chunk_count, m).
    qm id (mr_field resume_err 6 r_uint m) (\<lambda>(chunk_ciphertext_size, m).
    qm id (mr_field resume_err 7 r_uint m) (\<lambda>(logical_plaintext_size, m).
    qm id (mr_field resume_err 8 r_bytes m) (\<lambda>(verified_rle, m).
    qm id (mr_field resume_err 9 r_bytes m) (\<lambda>(durable_rle, m).
    qm id (mr_field resume_err 10 r_text m) (\<lambda>(temporary_path, m).
    qm id (mr_field resume_err 11 r_uint m) (\<lambda>(last_activity, m).
    qm id (mr_no_more resume_err Corrupt m) (\<lambda>m.
    qm resume_err (r_finish (mr_reader m)) (\<lambda>_.
    qm (\<lambda>_. Corrupt) (decode_rle chunk_count verified_rle) (\<lambda>verified.
    qm (\<lambda>_. Corrupt) (decode_rle chunk_count durable_rle) (\<lambda>durable.
    Inr \<lparr>re_identity = \<lparr>oi_transfer_id = transfer_id, oi_object_id = object_id,
           oi_manifest_commitment = manifest_commitment, oi_ciphertext_root = ciphertext_root,
           oi_chunk_count = chunk_count, oi_chunk_ciphertext_size = chunk_ciphertext_size,
           oi_logical_plaintext_size = logical_plaintext_size\<rparr>,
         re_verified = verified, re_durable = durable, re_temporary_path = temporary_path,
         re_last_provider = [], re_last_activity = last_activity\<rparr>)))))))))))))))))"

definition re_decode :: "prims \<Rightarrow> bytes \<Rightarrow> resume_error + resume_record" where
  "re_decode C bs =
    (if length bs < 32 \<or> length bs > MAX_RECORD_BYTES then Inl Corrupt
     else
       let checksum = take 32 bs; body = drop 32 bs
       in if \<not> ct_eq checksum (blake3 C (RECORD_DOMAIN @ body)) then Inl Corrupt else re_decode_body body)"

section \<open>The database\<close>

record resume_db =
  db_record :: resume_record
  db_pending :: u64
  db_checkpoint_interval :: u64

text \<open>\<open>stored\<close> is what reading the record's path gives, None when it cannot be read.\<close>

definition db_open ::
  "prims \<Rightarrow> bytes option \<Rightarrow> object_identity \<Rightarrow> bytes \<Rightarrow> resume_error + resume_db \<times> bool" where
  "db_open C stored identity temporary_path =
    qm id
      (case stored of
         Some bs \<Rightarrow>
           (case re_decode C bs of
              Inr st \<Rightarrow> if oi_matches (re_identity st) identity then Inr (st, set_count (re_durable st) > 0)
                        else qm id (re_new identity temporary_path) (\<lambda>r. Inr (r, False))
            | Inl _ \<Rightarrow> qm id (re_new identity temporary_path) (\<lambda>r. Inr (r, False)))
       | None \<Rightarrow> qm id (re_new identity temporary_path) (\<lambda>r. Inr (r, False)))
      (\<lambda>(r, resumed). Inr (\<lparr>db_record = r, db_pending = 0,
         db_checkpoint_interval = DEFAULT_CHECKPOINT_CHUNKS\<rparr>, resumed))"

definition with_checkpoint_interval :: "resume_db \<Rightarrow> u64 \<Rightarrow> resume_db" where
  "with_checkpoint_interval db n = db\<lparr>db_checkpoint_interval := max n 1\<rparr>"

definition mark_verified :: "resume_db \<Rightarrow> u64 \<Rightarrow> (resume_error + unit) \<times> resume_db" where
  "mark_verified db index =
    (case bm_set (re_verified (db_record db)) index of
       Inl _ \<Rightarrow> (Inl Corrupt, db)
     | Inr (_, bm) \<Rightarrow> (Inr (), db\<lparr>db_record := (db_record db)\<lparr>re_verified := bm\<rparr>\<rparr>))"

definition set_last_activity :: "resume_db \<Rightarrow> u64 \<Rightarrow> resume_db" where
  "set_last_activity db t = db\<lparr>db_record := (db_record db)\<lparr>re_last_activity := t\<rparr>\<rparr>"

text \<open>
  The disk: chunks written to the object file, chunks flushed from it, and the records renamed into place, newest
  first. After a power loss the newest record may be gone again, when the directory was not
  synced, so every record of the list may be found.
\<close>

record disk =
  dk_written :: "u64 set"
  dk_synced :: "u64 set"
  dk_records :: "bytes list"

text \<open>Whether creating, writing, syncing and renaming the temporary file succeed.\<close>

record commit_io =
  io_create :: bool
  io_write :: bool
  io_sync :: bool
  io_rename :: bool

definition checkpoint ::
  "prims \<Rightarrow> resume_db \<Rightarrow> commit_io \<Rightarrow> disk \<Rightarrow> ((resume_error + unit) \<times> resume_db \<times> disk) option" where
  "checkpoint C db io dk = do {
     encoded \<leftarrow> re_encode C (db_record db);
     Some (if \<not> io_create io \<or> \<not> io_write io \<or> \<not> io_sync io \<or> \<not> io_rename io then (Inl ResumeIo, db, dk)
           else (Inr (), db\<lparr>db_pending := 0\<rparr>, dk\<lparr>dk_records := encoded # dk_records dk\<rparr>)) }"

text \<open>\<open>sync_data\<close> flushes everything written so far, or fails.\<close>

definition sync_data :: "bool \<Rightarrow> disk \<Rightarrow> (resume_error + unit) \<times> disk" where
  "sync_data ok dk = (if ok then (Inr (), dk\<lparr>dk_synced := dk_synced dk \<union> dk_written dk\<rparr>) else (Inl ResumeIo, dk))"

definition chunk_written ::
  "prims \<Rightarrow> resume_db \<Rightarrow> u64 \<Rightarrow> bool \<Rightarrow> commit_io \<Rightarrow> disk \<Rightarrow> ((resume_error + unit) \<times> resume_db \<times> disk) option" where
  "chunk_written C db index sync_ok io dk =
    (case bm_set (re_durable (db_record db)) index of
       Inl _ \<Rightarrow> Some (Inl Corrupt, db, dk)
     | Inr (changed, bm) \<Rightarrow>
         let db = db\<lparr>db_record := (db_record db)\<lparr>re_durable := bm\<rparr>\<rparr>;
             db = (if changed then db\<lparr>db_pending := db_pending db + 1\<rparr> else db)
         in if db_pending db < db_checkpoint_interval db then Some (Inr (), db, dk)
            else (case sync_data sync_ok dk of
                    (Inl e, dk) \<Rightarrow> Some (Inl e, db, dk)
                  | (Inr _, dk) \<Rightarrow> checkpoint C db io dk))"

text \<open>\<open>remove\<close>: what removing the file answers, where not finding it is fine.\<close>

datatype remove_result = Removed | NotFound | RemoveFailed

definition db_remove :: "remove_result \<Rightarrow> disk \<Rightarrow> (resume_error + unit) \<times> disk" where
  "db_remove res dk =
    (case res of Removed \<Rightarrow> (Inr (), dk\<lparr>dk_records := []\<rparr>) | NotFound \<Rightarrow> (Inr (), dk)
     | RemoveFailed \<Rightarrow> (Inl ResumeIo, dk))"

section \<open>Encoding\<close>

definition oi_ok :: "object_identity \<Rightarrow> bool" where
  "oi_ok i \<longleftrightarrow> length (oi_transfer_id i) = 32 \<and> length (oi_object_id i) = 32 \<and>
    length (oi_manifest_commitment i) = 32 \<and> length (oi_ciphertext_root i) = 32"

definition re_ok :: "resume_record \<Rightarrow> bool" where
  "re_ok r \<longleftrightarrow> oi_ok (re_identity r) \<and> bm_ok (re_verified r) \<and> bm_ok (re_durable r) \<and>
    chunk_count (re_verified r) = oi_chunk_count (re_identity r) \<and>
    chunk_count (re_durable r) = oi_chunk_count (re_identity r) \<and> utf8_valid (re_temporary_path r)"

lemma re_body_total: "re_ok r \<Longrightarrow> \<exists>body. re_body r = Some body"
  using rle_roundtrip [of "re_verified r"] rle_roundtrip [of "re_durable r"]
  by (auto simp: re_ok_def re_body_def mw_simps)

lemma re_decode_body_encode:
  assumes ok: "re_ok r" and body: "re_body r = Some body" and len: "length body < 2 ^ 64"
  shows "re_decode_body body = Inr (r\<lparr>re_last_provider := []\<rparr>)"
proof -
  obtain v where v: "encode_rle (re_verified r) = Some v" "decode_rle (oi_chunk_count (re_identity r)) v = Inr (re_verified r)"
    using ok rle_roundtrip [of "re_verified r"] by (auto simp: re_ok_def)
  obtain d where d: "encode_rle (re_durable r) = Some d" "decode_rle (oi_chunk_count (re_identity r)) d = Inr (re_durable r)"
    using ok rle_roundtrip [of "re_durable r"] by (auto simp: re_ok_def)
  let ?i = "re_identity r"
  have b: "body = enc_map 12 @ enc_uint 0 @ enc_uint RECORD_VERSION @ enc_uint 1 @ enc_bytes (oi_transfer_id ?i) @
      enc_uint 2 @ enc_bytes (oi_object_id ?i) @ enc_uint 3 @ enc_bytes (oi_manifest_commitment ?i) @
      enc_uint 4 @ enc_bytes (oi_ciphertext_root ?i) @ enc_uint 5 @ enc_uint (oi_chunk_count ?i) @
      enc_uint 6 @ enc_uint (oi_chunk_ciphertext_size ?i) @ enc_uint 7 @ enc_uint (oi_logical_plaintext_size ?i) @
      enc_uint 8 @ enc_bytes v @ enc_uint 9 @ enc_bytes d @ enc_uint 10 @ enc_text (re_temporary_path r) @
      enc_uint 11 @ enc_uint (re_last_activity r)"
    using body by (simp add: re_body_def mw_simps v d)
  have "length v < 2 ^ 64" "length d < 2 ^ 64" "length (re_temporary_path r) < 2 ^ 64"
    using len by (simp_all add: b enc_bytes_def enc_text_def)
  then show ?thesis
    using ok v(2) d(2)
    by (cases r; cases "re_identity r")
      (simp add: b re_decode_body_def r_record_version_def re_ok_def oi_ok_def r_new_unbounded_eq cbor_fwd MAX_DEPTH_def)
qed

lemma re_roundtrip:
  assumes "re_ok r" and "re_encode C r = Some bs" and "kdf_lens C"
  shows "re_decode C bs = (if length bs \<le> MAX_RECORD_BYTES then Inr (r\<lparr>re_last_provider := []\<rparr>) else Inl Corrupt)"
proof -
  obtain body where body: "re_body r = Some body" "bs = blake3 C (RECORD_DOMAIN @ body) @ body"
    using assms(2) by (auto simp: re_encode_def split: bind_splits)
  have "length (blake3 C (RECORD_DOMAIN @ body)) = 32" using assms(3) by (rule kdf_lensD)
  then show ?thesis
    using re_decode_body_encode [OF assms(1) body(1)] body(2)
    by (auto simp: re_decode_def Let_def MAX_RECORD_BYTES_def)
qed
section \<open>Crash consistency\<close>

text \<open>
  What can happen to one object over any number of attempts: its bytes are written, its chunks marked, chunks reported
  written (after their bytes were), a final flush and commit, a flush, the removal of the record, and a power loss, after which unflushed
  bytes are gone, some record ever renamed into place or none is found, and the database is opened
  again.
\<close>

inductive resume_run :: "prims \<Rightarrow> object_identity \<Rightarrow> bytes \<Rightarrow> resume_db \<Rightarrow> disk \<Rightarrow> bool"
  for C identity path where
  fresh: "db_open C None identity path = Inr (db, resumed) \<Longrightarrow>
    resume_run C identity path db \<lparr>dk_written = {}, dk_synced = {}, dk_records = []\<rparr>"
| data: "resume_run C identity path db dk \<Longrightarrow> resume_run C identity path db (dk\<lparr>dk_written := insert i (dk_written dk)\<rparr>)"
| verified: "resume_run C identity path db dk \<Longrightarrow> mark_verified db i = (res, db') \<Longrightarrow> resume_run C identity path db' dk"
| written: "resume_run C identity path db dk \<Longrightarrow> i \<in> dk_written dk \<Longrightarrow>
    chunk_written C db i sync_ok io dk = Some (res, db', dk') \<Longrightarrow> resume_run C identity path db' dk'"
| final: "resume_run C identity path db dk \<Longrightarrow> sync_data True dk = (Inr (), dk1) \<Longrightarrow>
    checkpoint C db io dk1 = Some (res, db', dk') \<Longrightarrow> resume_run C identity path db' dk'"
| flush: "resume_run C identity path db dk \<Longrightarrow> sync_data ok dk = (res, dk') \<Longrightarrow> resume_run C identity path db dk'"
| remove: "resume_run C identity path db dk \<Longrightarrow> db_remove answer dk = (res, dk') \<Longrightarrow> resume_run C identity path db dk'"
| crash: "resume_run C identity path db dk \<Longrightarrow> found = None \<or> (\<exists>bs \<in> set (dk_records dk). found = Some bs) \<Longrightarrow>
    db_open C found identity path = Inr (db', resumed) \<Longrightarrow>
    resume_run C identity path db' (dk\<lparr>dk_written := dk_synced dk\<rparr>)"

definition record_inv :: "prims \<Rightarrow> object_identity \<Rightarrow> u64 set \<Rightarrow> bytes \<Rightarrow> bool" where
  "record_inv C identity safe bs \<longleftrightarrow>
    (\<exists>r. re_ok r \<and> re_encode C r = Some bs \<and> oi_matches (re_identity r) identity \<and> held (re_durable r) \<subseteq> safe)"

definition db_inv :: "prims \<Rightarrow> object_identity \<Rightarrow> resume_db \<Rightarrow> disk \<Rightarrow> bool" where
  "db_inv C identity db dk \<longleftrightarrow> re_ok (db_record db) \<and> oi_matches (re_identity (db_record db)) identity \<and>
    held (re_durable (db_record db)) \<subseteq> dk_written dk \<and> dk_synced dk \<subseteq> dk_written dk \<and>
    (\<forall>bs \<in> set (dk_records dk). record_inv C identity (dk_synced dk) bs)"

lemma record_inv_mono: "record_inv C identity safe bs \<Longrightarrow> safe \<subseteq> safe' \<Longrightarrow> record_inv C identity safe' bs"
  unfolding record_inv_def by blast

lemma oi_matches_refl [simp]: "oi_matches i i"
  by (simp add: oi_matches_def)

lemma re_new_held: "re_new identity path = Inr r \<Longrightarrow> held (re_durable r) = {}"
proof -
  assume "re_new identity path = Inr r"
  then obtain bm where "bm_new (oi_chunk_count identity) = Inr bm" "re_durable r = bm"
    by (auto simp: re_new_def res_iff)
  with held_new show ?thesis by blast
qed

lemma re_new_inv:
  assumes "re_new identity path = Inr r" and "oi_ok identity" and "utf8_valid path"
  shows "re_ok r \<and> re_identity r = identity \<and> held (re_durable r) = {}"
  using assms held_new by (auto simp: re_new_def res_iff re_ok_def)

lemma db_open_inv:
  assumes op: "db_open C found identity path = Inr (db, resumed)" and ids: "oi_ok identity" "utf8_valid path"
    and C: "kdf_lens C" and found: "\<And>bs. found = Some bs \<Longrightarrow> record_inv C identity safe bs"
  shows "re_ok (db_record db) \<and> oi_matches (re_identity (db_record db)) identity \<and> held (re_durable (db_record db)) \<subseteq> safe"
proof -
  have fresh: ?thesis if "qm id (re_new identity path) (\<lambda>r. Inr (r, False)) = Inr (db_record db, resumed)"
    using that re_new_inv [OF _ ids] by (auto simp: res_iff)
  show ?thesis
  proof (cases found)
    case None
    with op fresh show ?thesis by (auto simp: db_open_def res_iff)
  next
    case (Some bs)
    obtain r where r: "re_ok r" "re_encode C r = Some bs" "oi_matches (re_identity r) identity" "held (re_durable r) \<subseteq> safe"
      using found [OF Some] by (auto simp: record_inv_def)
    note rt = re_roundtrip [OF r(1,2) C]
    show ?thesis
    proof (cases "length bs \<le> MAX_RECORD_BYTES")
      case True
      then have "db_record db = r\<lparr>re_last_provider := []\<rparr>"
        using op Some rt r(3) by (auto simp: db_open_def res_iff)
      with r show ?thesis by (simp add: re_ok_def)
    next
      case False
      with op fresh Some rt show ?thesis by (auto simp: db_open_def res_iff)
    qed
  qed
qed

lemma checkpoint_inv:
  assumes inv: "db_inv C identity db dk" and safe: "held (re_durable (db_record db)) \<subseteq> dk_synced dk"
    and cp: "checkpoint C db io dk = Some (res, db', dk')"
  shows "db_inv C identity db' dk'"
proof -
  obtain bs where bs: "re_encode C (db_record db) = Some bs"
    using cp by (auto simp: checkpoint_def split: bind_splits)
  have "record_inv C identity (dk_synced dk) bs"
    using inv safe bs by (auto simp: record_inv_def db_inv_def)
  with inv cp bs show ?thesis
    by (auto simp: checkpoint_def db_inv_def split: if_splits)
qed

lemma sync_inv:
  assumes "db_inv C identity db dk" and "sync_data True dk = (r, dk')"
  shows "db_inv C identity db dk' \<and> held (re_durable (db_record db)) \<subseteq> dk_synced dk'"
  using assms record_inv_mono [of C identity "dk_synced dk"] by (auto simp: sync_data_def db_inv_def)

lemma chunk_written_inv:
  assumes inv: "db_inv C identity db dk" and i: "i \<in> dk_written dk"
    and cw: "chunk_written C db i sync_ok io dk = Some (res, db', dk')"
  shows "db_inv C identity db' dk'"
proof (cases "bm_set (re_durable (db_record db)) i")
  case (Inl e)
  with inv cw show ?thesis by (simp add: chunk_written_def)
next
  case (Inr p)
  obtain changed bm where p: "p = (changed, bm)" by (cases p)
  define db1 where "db1 = (let db = db\<lparr>db_record := (db_record db)\<lparr>re_durable := bm\<rparr>\<rparr>
      in if changed then db\<lparr>db_pending := db_pending db + 1\<rparr> else db)"
  have rec1: "db_record db1 = (db_record db)\<lparr>re_durable := bm\<rparr>" by (simp add: db1_def Let_def)
  have "bm_ok (re_durable (db_record db))" using inv by (simp add: db_inv_def re_ok_def)
  note set = held_set [OF this Inr [unfolded p]]
  have inv1: "db_inv C identity db1 dk"
    using inv i set by (auto simp: db_inv_def rec1 re_ok_def)
  have cw1: "(if db_pending db1 < db_checkpoint_interval db1 then Some (Inr (), db1, dk)
      else (case sync_data sync_ok dk of (Inl e, dk) \<Rightarrow> Some (Inl e, db1, dk) | (Inr _, dk) \<Rightarrow> checkpoint C db1 io dk)) =
      Some (res, db', dk')"
    using cw unfolding chunk_written_def Inr p by (simp only: sum.case prod.case Let_def db1_def)
  show ?thesis
  proof (cases "db_pending db1 < db_checkpoint_interval db1")
    case True
    with cw1 inv1 show ?thesis by simp
  next
    case no: False
    show ?thesis
    proof (cases sync_ok)
      case True
      obtain dk1 where dk1: "sync_data True dk = (Inr (), dk1)" by (simp add: sync_data_def)
      with cw1 no True have "checkpoint C db1 io dk1 = Some (res, db', dk')" by simp
      with sync_inv [OF inv1 dk1] checkpoint_inv show ?thesis by blast
    next
      case False
      with cw1 no inv1 show ?thesis by (simp add: sync_data_def)
    qed
  qed
qed

lemma resume_run_inv:
  assumes "resume_run C identity path db dk" and ids: "oi_ok identity" "utf8_valid path" and C: "kdf_lens C"
  shows "db_inv C identity db dk"
  using assms(1)
proof (induction rule: resume_run.induct)
  case (fresh db resumed)
  with db_open_inv [OF fresh ids C, of "{}"] show ?case by (auto simp: db_inv_def)
next
  case (data db dk i)
  then show ?case by (auto simp: db_inv_def)
next
  case (verified db dk i res db')
  then have ok: "bm_ok (re_verified (db_record db))" by (simp add: db_inv_def re_ok_def)
  show ?case
  proof (cases "bm_set (re_verified (db_record db)) i")
    case (Inl e)
    with verified show ?thesis by (simp add: mark_verified_def)
  next
    case (Inr p)
    obtain changed bm where p: "p = (changed, bm)" by (cases p)
    with Inr verified have "db' = db\<lparr>db_record := (db_record db)\<lparr>re_verified := bm\<rparr>\<rparr>" by (simp add: mark_verified_def)
    with verified.IH held_set [OF ok Inr [unfolded p]] show ?thesis by (simp add: db_inv_def re_ok_def)
  qed
next
  case (written db dk i sync_ok io res db' dk')
  then show ?case using chunk_written_inv by blast
next
  case (final db dk dk1 io res db' dk')
  from sync_inv [OF final.IH final.hyps(2)] checkpoint_inv final.hyps(3) show ?case by blast
next
  case (flush db dk ok res dk')
  then show ?case using sync_inv [OF flush.IH, of "fst (sync_data True dk)" "snd (sync_data True dk)"] by (cases ok) (auto simp: sync_data_def)
next
  case (remove db dk answer res dk')
  then show ?case by (cases answer) (auto simp: db_remove_def db_inv_def)
next
  case (crash db dk found db' resumed)
  have "record_inv C identity (dk_synced dk) bs" if "found = Some bs" for bs
    using crash.hyps(2) crash.IH that by (auto simp: db_inv_def)
  from db_open_inv [OF crash.hyps(3) ids C this] crash.IH show ?case by (auto simp: db_inv_def)
qed

lemma resume_run_safe:
  assumes "resume_run C identity path db dk" and "oi_ok identity" and "utf8_valid path" and "kdf_lens C"
  shows "held (re_durable (db_record db)) \<subseteq> dk_written dk \<and>
    (\<forall>bs \<in> set (dk_records dk). \<forall>r. re_decode C bs = Inr r \<longrightarrow> held (re_durable r) \<subseteq> dk_synced dk) \<and>
    (\<forall>bs \<in> set (dk_records dk). \<forall>db' resumed. db_open C (Some bs) identity path = Inr (db', resumed) \<longrightarrow>
      held (re_durable (db_record db')) \<subseteq> dk_synced dk)"
proof -
  note inv = resume_run_inv [OF assms]
  have rec: "record_inv C identity (dk_synced dk) bs" if "bs \<in> set (dk_records dk)" for bs
    using inv that by (simp add: db_inv_def)
  have "held (re_durable r) \<subseteq> dk_synced dk" if "bs \<in> set (dk_records dk)" "re_decode C bs = Inr r" for bs r
  proof -
    from rec [OF that(1)] obtain r' where "re_ok r'" "re_encode C r' = Some bs" "held (re_durable r') \<subseteq> dk_synced dk"
      by (auto simp: record_inv_def)
    with re_roundtrip [of r' C bs] assms(4) that(2) show ?thesis by (auto split: if_splits)
  qed
  moreover have "held (re_durable (db_record db')) \<subseteq> dk_synced dk"
    if "bs \<in> set (dk_records dk)" "db_open C (Some bs) identity path = Inr (db', resumed)" for bs db' resumed
    using db_open_inv [OF that(2) assms(2,3,4), of "dk_synced dk"] rec that(1) by simp
  ultimately show ?thesis using inv by (auto simp: db_inv_def)
qed

section \<open>Properties\<close>

definition sample_identity :: object_identity where
  "sample_identity = \<lparr>oi_transfer_id = replicate 32 1, oi_object_id = replicate 32 2, oi_manifest_commitment = replicate 32 3,
     oi_ciphertext_root = replicate 32 4, oi_chunk_count = 10, oi_chunk_ciphertext_size = 65552,
     oi_logical_plaintext_size = 600000\<rparr>"

definition sample_record :: resume_record where
  "sample_record = \<lparr>re_identity = sample_identity,
     re_verified = \<lparr>chunk_count = 10, bits = [0xA7, 0x00], set_count = 5\<rparr>,
     re_durable = \<lparr>chunk_count = 10, bits = [0xA0, 0x00], set_count = 2\<rparr>,
     re_temporary_path = ascii ''/tmp/x'', re_last_provider = [], re_last_activity = 0\<rparr>"

lemma sample_record_ok: "re_ok sample_record"
proof -
  have "bm_ok \<lparr>chunk_count = 10, bits = [0xA7, 0x00], set_count = 5\<rparr>"
    "bm_ok \<lparr>chunk_count = 10, bits = [0xA0, 0x00], set_count = 2\<rparr>" "utf8_valid (ascii ''/tmp/x'')"
    by code_simp+
  then show ?thesis by (simp add: re_ok_def sample_record_def sample_identity_def oi_ok_def)
qed

text \<open>C9: Whatever happens to an object over any number of attempts, failing system calls and power losses at any point included,
  every record that may be found on disk names as durable only chunks whose bytes were flushed, and
  the database itself only chunks whose bytes were written. So a resume never skips a chunk that the file
  does not hold.\<close>

theorem resume_crash_safe:
  assumes "resume_run C identity path db dk" and "oi_ok identity" and "utf8_valid path" and "kdf_lens C"
  shows "held (re_durable (db_record db)) \<subseteq> dk_written dk \<and>
    (\<forall>bs \<in> set (dk_records dk). \<forall>r. re_decode C bs = Inr r \<longrightarrow> held (re_durable r) \<subseteq> dk_synced dk) \<and>
    (\<forall>bs \<in> set (dk_records dk). \<forall>db' resumed. db_open C (Some bs) identity path = Inr (db', resumed) \<longrightarrow>
      held (re_durable (db_record db')) \<subseteq> dk_synced dk)"
  using assms by (rule resume_run_safe)

theorem resume_crash_safe_witness:
  "\<exists>db dk. resume_run sample_prims sample_identity [] db dk \<and> 3 \<in> dk_written dk \<and> held (re_durable (db_record db)) \<subseteq> dk_written dk"
proof -
  have ids: "oi_ok sample_identity" "utf8_valid []" by (simp_all add: sample_identity_def oi_ok_def)
  obtain bm where "bm_new 10 = Inr bm" by (simp add: bm_new_def MAX_CHUNK_COUNT_def word_le_nat_alt word_less_nat_alt)
  then have "\<exists>db resumed. db_open sample_prims None sample_identity [] = Inr (db, resumed)"
    by (simp add: db_open_def re_new_def sample_identity_def) blast
  then obtain db resumed where "db_open sample_prims None sample_identity [] = Inr (db, resumed)" by blast
  then have run: "resume_run sample_prims sample_identity [] db \<lparr>dk_written = {3}, dk_synced = {}, dk_records = []\<rparr>"
    using resume_run.data [OF resume_run.fresh, of sample_prims sample_identity "[]" db resumed 3] by simp
  from resume_crash_safe [OF run ids sample_prims_ok(3)] run show ?thesis by force
qed

text \<open>C32: A record is read back as it was written, provider hint aside, as long as it fits into 8 MiB, and is discarded otherwise;
  bytes whose checksum does not match are never accepted. Opened for a matching object it is adopted whatever file it was
  kept for; for any other object the database starts empty.\<close>

theorem resume_record_adoption:
  assumes "re_ok r" and "re_encode C r = Some bs" and "kdf_lens C"
  shows "re_decode C bs = (if length bs \<le> MAX_RECORD_BYTES then Inr (r\<lparr>re_last_provider := []\<rparr>) else Inl Corrupt) \<and>
    (is_ok (re_decode C tampered) \<longrightarrow> take 32 tampered = blake3 C (RECORD_DOMAIN @ drop 32 tampered)) \<and>
    (db_open C (Some bs) identity path = Inr (db, resumed) \<longrightarrow>
      (if length bs \<le> MAX_RECORD_BYTES \<and> oi_matches (re_identity r) identity
       then re_durable (db_record db) = re_durable r \<and> re_temporary_path (db_record db) = re_temporary_path r
       else held (re_durable (db_record db)) = {}))"
proof -
  note rt = re_roundtrip [OF assms]
  have "take 32 tampered = blake3 C (RECORD_DOMAIN @ drop 32 tampered)" if "is_ok (re_decode C tampered)"
    using that by (auto simp: re_decode_def Let_def split: if_splits)
  moreover have "if length bs \<le> MAX_RECORD_BYTES \<and> oi_matches (re_identity r) identity
      then re_durable (db_record db) = re_durable r \<and> re_temporary_path (db_record db) = re_temporary_path r
      else held (re_durable (db_record db)) = {}" if "db_open C (Some bs) identity path = Inr (db, resumed)"
  proof (cases "length bs \<le> MAX_RECORD_BYTES \<and> oi_matches (re_identity r) identity")
    case True
    with that rt show ?thesis by (auto simp: db_open_def res_iff)
  next
    case False
    then have "\<exists>r0. re_new identity path = Inr r0 \<and> db_record db = r0"
      using that rt by (auto simp: db_open_def res_iff split: if_splits)
    then have "held (re_durable (db_record db)) = {}" using re_new_held by blast
    with False show ?thesis by auto
  qed
  ultimately show ?thesis using rt by blast
qed

theorem resume_record_adoption_witness:
  "\<exists>bs. re_encode sample_prims sample_record = Some bs \<and>
    re_decode sample_prims bs = (if length bs \<le> MAX_RECORD_BYTES then Inr sample_record else Inl Corrupt)"
proof -
  obtain body where "re_body sample_record = Some body" using re_body_total [OF sample_record_ok] by blast
  then obtain bs where bs: "re_encode sample_prims sample_record = Some bs" by (simp add: re_encode_def)
  have "sample_record\<lparr>re_last_provider := []\<rparr> = sample_record" by (simp add: sample_record_def)
  with resume_record_adoption [OF sample_record_ok bs sample_prims_ok(3)] bs show ?thesis by auto
qed

end
