(* ===== verification/Rtp_Frame.thy ===== *)
theory Rtp_Frame
  imports Rtp_Control Rtp_Route
begin

text \<open>
  The framing of \<open>rtp2-core/src/transfer.rs\<close>: plain frames during the handshake, protected frames after it. A stream is the
  list of bytes still to be read; reading past its end is an I/O error, and a flag says whether the frame arrives
  within the time limit.
\<close>

section \<open>Headers\<close>

definition MAX_FRAME :: u32 where "MAX_FRAME = 8 * 1024 * 1024"

definition FRAME_OFFER :: u8 where "FRAME_OFFER = 0x02"
definition FRAME_RANGE_REQUEST :: u8 where "FRAME_RANGE_REQUEST = 0x05"
definition FRAME_COMPLETE :: u8 where "FRAME_COMPLETE = 0x0A"
definition FRAME_CHUNK :: u8 where "FRAME_CHUNK = 0x21"
definition FRAME_STREAM_END :: u8 where "FRAME_STREAM_END = 0x23"
definition FRAME_CLIENT_HELLO :: u8 where "FRAME_CLIENT_HELLO = 0x81"
definition FRAME_SERVER_HELLO :: u8 where "FRAME_SERVER_HELLO = 0x82"
definition FRAME_CLIENT_FINISH :: u8 where "FRAME_CLIENT_FINISH = 0x83"
definition FRAME_SERVER_FINISH :: u8 where "FRAME_SERVER_FINISH = 0x84"

definition FRAME_HEADER_LEN :: nat where "FRAME_HEADER_LEN = 4 + 1 + 1 + 2 + 8"
definition MAX_CONTROL_BODY :: u32 where "MAX_CONTROL_BODY = 1024 * 1024"
definition MAX_DATA_BODY :: u32 where "MAX_DATA_BODY = 4 * 1024 * 1024 + 4 * 1024"
definition FLAG_NONCRITICAL :: u8 where "FLAG_NONCRITICAL = 0x01"

definition body_limit :: "u8 \<Rightarrow> u32" where
  "body_limit frame_type = (if frame_type = FRAME_CHUNK then MAX_DATA_BODY else MAX_CONTROL_BODY)"

definition header_bytes :: "u8 \<Rightarrow> u8 \<Rightarrow> u64 \<Rightarrow> nat \<Rightarrow> nat \<Rightarrow> transfer_error + bytes" where
  "header_bytes frame_type frame_flags request_id body_len extra =
    (let after_length = 1 + 1 + 2 + 8 + extra + body_len
     in if after_length \<ge> 2 ^ 32 then Inl (Protocol ''frame too large'')
        else let len = (of_nat after_length :: u32)
             in if len > MAX_FRAME then Inl (Protocol ''frame too large'')
                else Inr (to_be len @ [frame_type] @ [frame_flags] @ [0, 0] @ to_be request_id))"

record raw_frame =
  rf_type :: u8
  rf_flags :: u8
  rf_request_id :: u64
  rf_body :: bytes

section \<open>Sending and receiving\<close>

definition send_plain_frame :: "u8 \<Rightarrow> bytes \<Rightarrow> transfer_error + bytes" where
  "send_plain_frame frame_type payload =
    qm id (header_bytes frame_type 0 0 (length payload) 0) (\<lambda>head. Inr (head @ payload))"

definition read_exact :: "nat \<Rightarrow> bytes \<Rightarrow> transfer_error + bytes \<times> bytes" where
  "read_exact n bs = (if length bs < n then Inl (Io ''early eof'') else Inr (take n bs, drop n bs))"

text \<open>The checks on a header, which come before anything is allocated for the body.\<close>

definition parse_header :: "bool \<Rightarrow> bytes \<Rightarrow> transfer_error + u8 \<times> u8 \<times> u64 \<times> u32" where
  "parse_header protected_frame head =
    (let declared = (from_be (take 4 head) :: u32); frame_type = head ! 4; frame_flags = head ! 5
     in if head ! 6 \<noteq> 0 \<or> head ! 7 \<noteq> 0 \<or> frame_flags AND NOT FLAG_NONCRITICAL \<noteq> 0
        then Inl (Protocol ''reserved bits set'')
        else
          let request_id = (from_be (take 8 (drop 8 head)) :: u64);
              fixed = of_nat (FRAME_HEADER_LEN - 4) + (if protected_frame then 16 else 0)
          in if declared < fixed then Inl (Protocol ''bad frame length'')
             else
               let body_len = declared - fixed
               in if body_len > body_limit frame_type then Inl (Protocol ''frame body exceeds its limit'')
                  else Inr (frame_type, frame_flags, request_id, body_len))"

definition read_meta :: "bool \<Rightarrow> bytes \<Rightarrow> transfer_error + (u64 \<times> u64) \<times> bytes" where
  "read_meta protected_frame bs =
    (if protected_frame
     then qm id (read_exact 16 bs) (\<lambda>(meta, bs). Inr ((from_be (take 8 meta), from_be (drop 8 meta)), bs))
     else Inr ((0, 0), bs))"

definition recv_raw_frame :: "bool \<Rightarrow> bool \<Rightarrow> bytes \<Rightarrow> transfer_error + (raw_frame \<times> u64 \<times> u64) \<times> bytes" where
  "recv_raw_frame in_time protected_frame bs =
    (if \<not> in_time then Inl Timeout
     else
       qm id (read_exact FRAME_HEADER_LEN bs) (\<lambda>(head, bs).
       qm id (parse_header protected_frame head) (\<lambda>(frame_type, frame_flags, request_id, body_len).
       qm id (read_meta protected_frame bs) (\<lambda>((epoch, counter), bs).
       qm id (read_exact (unat body_len) bs) (\<lambda>(body, bs).
       Inr ((\<lparr>rf_type = frame_type, rf_flags = frame_flags, rf_request_id = request_id, rf_body = body\<rparr>,
             epoch, counter), bs))))))"

definition expect_plain_frame :: "bool \<Rightarrow> u8 \<Rightarrow> bytes \<Rightarrow> transfer_error + bytes \<times> bytes" where
  "expect_plain_frame in_time expected bs =
    qm id (recv_raw_frame in_time False bs) (\<lambda>((frame, _, _), bs).
      if rf_type frame \<noteq> expected then Inl (Protocol ''unexpected frame type'') else Inr (rf_body frame, bs))"

definition send_frame :: "prims \<Rightarrow> control_channel \<Rightarrow> u8 \<Rightarrow> bytes \<Rightarrow> (transfer_error + bytes) \<times> control_channel" where
  "send_frame C ch frame_type payload =
    (case cc_seal C ch frame_type 0 0 payload of
       (Inl _, ch) \<Rightarrow> (Inl (Crypto ''control frame''), ch)
     | (Inr sf, ch) \<Rightarrow>
         (qm id (header_bytes frame_type 0 0 (length (sf_ciphertext sf)) 16) (\<lambda>head.
            Inr (head @ to_be (sf_epoch sf) @ to_be (sf_counter sf) @ sf_ciphertext sf)), ch))"

definition recv_frame ::
  "prims \<Rightarrow> control_channel \<Rightarrow> bool \<Rightarrow> bytes \<Rightarrow> (transfer_error + (u8 \<times> bytes) \<times> bytes) \<times> control_channel" where
  "recv_frame C ch in_time bs =
    (case recv_raw_frame in_time True bs of
       Inl e \<Rightarrow> (Inl e, ch)
     | Inr ((frame, epoch, counter), bs) \<Rightarrow>
         (case cc_open C ch epoch counter (rf_type frame) (rf_flags frame) (rf_request_id frame) (rf_body frame) of
            (Inl _, ch) \<Rightarrow> (Inl (Crypto ''control frame''), ch)
          | (Inr body, ch) \<Rightarrow> (Inr ((rf_type frame, body), bs), ch)))"

definition expect_frame ::
  "prims \<Rightarrow> control_channel \<Rightarrow> bool \<Rightarrow> u8 \<Rightarrow> bytes \<Rightarrow> (transfer_error + bytes \<times> bytes) \<times> control_channel" where
  "expect_frame C ch in_time expected bs =
    (case recv_frame C ch in_time bs of
       (Inl e, ch) \<Rightarrow> (Inl e, ch)
     | (Inr ((t, payload), bs), ch) \<Rightarrow>
         (if t \<noteq> expected then Inl (Protocol ''unexpected frame type'') else Inr (payload, bs), ch))"

section \<open>The wire format of a frame\<close>

definition frame_bytes :: "bool \<Rightarrow> raw_frame \<Rightarrow> u64 \<Rightarrow> u64 \<Rightarrow> bytes" where
  "frame_bytes protected_frame f epoch counter =
    to_be (of_nat (12 + (if protected_frame then 16 else 0) + length (rf_body f)) :: u32) @
    [rf_type f, rf_flags f, 0, 0] @ to_be (rf_request_id f) @
    (if protected_frame then to_be epoch @ to_be counter else []) @ rf_body f"

definition frame_ok :: "raw_frame \<Rightarrow> bool" where
  "frame_ok f \<longleftrightarrow> rf_flags f AND NOT FLAG_NONCRITICAL = 0 \<and> length (rf_body f) \<le> unat (body_limit (rf_type f))"

lemma unat_body_limit: "unat (body_limit t) \<le> 4198400"
  by (simp add: body_limit_def MAX_DATA_BODY_def MAX_CONTROL_BODY_def)

lemma read_exact_iff [res_iff]: "read_exact n bs = Inr (s, rest) \<longleftrightarrow> length s = n \<and> bs = s @ rest"
  by (auto simp: read_exact_def)

lemma read_exact_app: "length s = n \<Longrightarrow> read_exact n (s @ rest) = Inr (s, rest)"
  by (simp add: read_exact_def)

lemma parse_header_iff:
  assumes "length head = FRAME_HEADER_LEN"
  shows "parse_header protected_frame head = Inr (t, fl, rid, n) \<longleftrightarrow>
    fl AND NOT FLAG_NONCRITICAL = 0 \<and> n \<le> body_limit t \<and>
    head = to_be (of_nat (12 + (if protected_frame then 16 else 0) + unat n) :: u32) @ [t, fl, 0, 0] @ to_be rid"
    (is "?L \<longleftrightarrow> ?R")
proof -
  define fixed where "fixed = (of_nat (FRAME_HEADER_LEN - 4) + (if protected_frame then 16 else 0) :: u32)"
  have ufixed: "unat fixed = 12 + (if protected_frame then 16 else 0)"
    by (simp add: fixed_def FRAME_HEADER_LEN_def)
  have sum: "(of_nat (12 + (if protected_frame then 16 else 0) + unat n) :: u32) = fixed + n"
    by (simp add: fixed_def FRAME_HEADER_LEN_def)
  have no_wrap: "n \<le> body_limit t \<Longrightarrow> \<not> fixed + n < fixed"
    using unat_body_limit [of t] ufixed by (simp add: word_le_nat_alt word_less_nat_alt unat_add)
  obtain a x0 x1 x2 x3 b where a: "length a = 4" and b: "length b = 8" and head: "head = a @ [x0, x1, x2, x3] @ b"
  proof
    show "length (take 4 head) = 4" "length (drop 8 head) = 8"
      using assms by (simp_all add: FRAME_HEADER_LEN_def)
    show "head = take 4 head @ [head ! 4, head ! 5, head ! 6, head ! 7] @ drop 8 head"
      using assms by (intro nth_equalityI) (auto simp: FRAME_HEADER_LEN_def nth_append nth_Cons' numeral_eq_Suc less_Suc_eq)
  qed
  have parts: "take 4 head = a" "head ! 4 = x0" "head ! 5 = x1" "head ! 6 = x2" "head ! 7 = x3" "take 8 (drop 8 head) = b"
    using a b by (simp_all add: head nth_append)
  have abs: "to_be (from_be a :: u32) = a" "to_be (from_be b :: u64) = b"
    using a b by (simp_all add: to_from_be_simps)
  have "?L \<longleftrightarrow> x2 = 0 \<and> x3 = 0 \<and> x1 AND NOT FLAG_NONCRITICAL = 0 \<and> \<not> from_be a < fixed \<and>
      \<not> from_be a - fixed > body_limit x0 \<and> t = x0 \<and> fl = x1 \<and> rid = from_be b \<and> n = from_be a - fixed"
    unfolding parse_header_def parts Let_def fixed_def [symmetric] by auto
  also have "\<dots> \<longleftrightarrow> ?R"
    unfolding sum head using a b abs no_wrap by (auto simp: not_less)
  finally show ?thesis .
qed

lemma read_meta_iff: "read_meta protected_frame bs = Inr ((epoch, counter), rest) \<longleftrightarrow>
    (protected_frame \<or> epoch = 0 \<and> counter = 0) \<and> bs = (if protected_frame then to_be epoch @ to_be counter else []) @ rest"
proof -
  have "(\<exists>meta. length meta = 16 \<and> bs = meta @ rest \<and> epoch = from_be (take 8 meta) \<and> counter = from_be (drop 8 meta)) \<longleftrightarrow>
      bs = to_be epoch @ to_be counter @ rest" (is "?L \<longleftrightarrow> ?R")
  proof
    assume ?L
    then obtain meta where m: "length meta = 16" "bs = meta @ rest" "epoch = from_be (take 8 meta)" "counter = from_be (drop 8 meta)"
      by blast
    then have "to_be epoch = take 8 meta" "to_be counter = drop 8 meta" by (simp_all add: to_from_be_simps)
    then show ?R using m(2) by simp
  next
    assume ?R
    then show ?L by (intro exI [of _ "to_be epoch @ to_be counter"]) simp
  qed
  then show ?thesis by (cases protected_frame) (auto simp: read_meta_def res_iff)
qed

lemma recv_raw_frame_iff:
  "recv_raw_frame in_time protected_frame bs = Inr ((f, epoch, counter), rest) \<longleftrightarrow>
    in_time \<and> frame_ok f \<and> (protected_frame \<or> epoch = 0 \<and> counter = 0) \<and>
    bs = frame_bytes protected_frame f epoch counter @ rest" (is "?L \<longleftrightarrow> ?R")
proof
  assume ?L
  then show ?R
    by (auto simp: recv_raw_frame_def res_iff parse_header_iff read_meta_iff frame_ok_def frame_bytes_def word_le_nat_alt)
next
  assume r: ?R
  then have len: "unat (of_nat (length (rf_body f)) :: u32) = length (rf_body f)"
    using unat_body_limit [of "rf_type f"] by (simp add: frame_ok_def)
  let ?head = "to_be (of_nat (12 + (if protected_frame then 16 else 0) + length (rf_body f)) :: u32) @
      [rf_type f, rf_flags f, 0, 0] @ to_be (rf_request_id f)"
  have "parse_header protected_frame ?head = Inr (rf_type f, rf_flags f, rf_request_id f, of_nat (length (rf_body f)))"
    using r len by (subst parse_header_iff) (simp_all add: frame_ok_def FRAME_HEADER_LEN_def word_le_nat_alt)
  moreover have "read_exact FRAME_HEADER_LEN bs = Inr (?head, (if protected_frame then to_be epoch @ to_be counter else []) @ rf_body f @ rest)"
    using r by (simp add: read_exact_iff frame_bytes_def FRAME_HEADER_LEN_def)
  moreover have "read_meta protected_frame ((if protected_frame then to_be epoch @ to_be counter else []) @ rf_body f @ rest) =
      Inr ((epoch, counter), rf_body f @ rest)"
    using r by (simp add: read_meta_iff)
  ultimately show ?L
    using r len by (simp add: recv_raw_frame_def read_exact_app)
qed
section \<open>Protected frames\<close>

definition plain_raw :: "u8 \<Rightarrow> bytes \<Rightarrow> raw_frame" where
  "plain_raw t body = \<lparr>rf_type = t, rf_flags = 0, rf_request_id = 0, rf_body = body\<rparr>"

lemma header_bytes_eq:
  assumes "length body \<le> unat (body_limit t)" and "extra \<le> 16"
  shows "header_bytes t fl rid (length body) extra = Inr (to_be (of_nat (12 + extra + length body) :: u32) @ [t, fl, 0, 0] @ to_be rid)"
proof -
  have n: "12 + extra + length body \<le> 4198428" using assms unat_body_limit [of t] by simp
  then have u: "unat (of_nat (12 + extra + length body) :: u32) = 12 + extra + length body"
    by (intro unat_of_nat_small) simp
  have "\<not> (of_nat (12 + extra + length body) :: u32) > MAX_FRAME"
    using n unfolding word_less_nat_alt u by (simp add: MAX_FRAME_def)
  with n show ?thesis by (simp add: header_bytes_def Let_def)
qed

lemma recv_raw_header:
  "recv_raw_frame in_time protected_frame bs = Inr ((f, epoch, counter), rest) \<longleftrightarrow>
    in_time \<and> rf_flags f AND NOT FLAG_NONCRITICAL = 0 \<and> length (rf_body f) \<le> unat (body_limit (rf_type f)) \<and>
    (protected_frame \<or> epoch = 0 \<and> counter = 0) \<and>
    (\<exists>head. header_bytes (rf_type f) (rf_flags f) (rf_request_id f) (length (rf_body f)) (if protected_frame then 16 else 0) = Inr head \<and>
      bs = head @ (if protected_frame then to_be epoch @ to_be counter else []) @ rf_body f @ rest)"
  by (auto simp: recv_raw_frame_iff frame_ok_def frame_bytes_def header_bytes_eq)

lemma plain_frame_accepted:
  "(\<exists>frame. send_plain_frame t payload = Inr frame \<and> expect_plain_frame in_time t (frame @ rest) = Inr (payload, rest)) \<longleftrightarrow>
    in_time \<and> length payload \<le> unat (body_limit t)" (is "?L \<longleftrightarrow> ?R")
proof
  assume ?L
  then show ?R by (auto simp: expect_plain_frame_def res_iff recv_raw_header split: if_splits)
next
  assume r: ?R
  let ?head = "to_be (of_nat (12 + length payload) :: u32) @ [t, 0, 0, 0] @ to_be (0 :: u64)"
  have head: "header_bytes t 0 0 (length payload) 0 = Inr ?head"
    using r header_bytes_eq [of payload t 0 0 0] by simp
  have "recv_raw_frame in_time False ((?head @ payload) @ rest) = Inr ((plain_raw t payload, 0, 0), rest)"
    using r head by (simp add: recv_raw_header plain_raw_def)
  then have "expect_plain_frame in_time t ((?head @ payload) @ rest) = Inr (payload, rest)"
    by (simp add: expect_plain_frame_def plain_raw_def)
  with head show ?L by (intro exI [of _ "?head @ payload"]) (simp add: send_plain_frame_def)
qed

lemma cc_seal_length:
  assumes "aead_ok C" "kdf_lens C" "cc_ok s" and "cc_seal C s ft ff rid pt = (Inr sf, s')"
  shows "length (sf_ciphertext sf) = length pt + 16"
proof -
  let ?d = "cc_send_direction s" and ?e = "cc_epoch s" and ?n = "cc_send_counter s"
  have "aead_encrypt C (key_for (cc_keys s) ?d) (control_nonce C ?d ?e ?n) (control_aad ?d ?e ?n ft ff rid) pt =
      Some (sf_ciphertext sf)"
    using assms(4)
    by (auto simp: cc_seal_def Let_def seal_with_def ok_or_eq_Inr split: if_splits sum.splits)
  moreover obtain ct where "aead_encrypt C (key_for (cc_keys s) ?d) (control_nonce C ?d ?e ?n) (control_aad ?d ?e ?n ft ff rid) pt = Some ct"
      "length ct = length pt + 16"
    using aead_okD [OF assms(1) length_key_for [OF assms(3)] length_control_nonce [OF assms(2)]] by metis
  ultimately show ?thesis by simp
qed

lemma frame_transmit:
  assumes C: "aead_ok C" "kdf_lens C" and s: "cc_ok s"
    and tr: "transmit C s r \<lparr>fr_type = ft, fr_flags = 0, fr_request = 0, fr_body = payload\<rparr> = Some (payload, s', r')"
    and fits: "length payload + 16 \<le> unat (body_limit ft)"
  shows "\<exists>bs. send_frame C s ft payload = (Inr bs, s') \<and>
    (\<forall>rest. recv_frame C r True (bs @ rest) = (Inr ((ft, payload), rest), r'))"
proof -
  obtain sf where seal: "cc_seal C s ft 0 0 payload = (Inr sf, s')"
    and opn: "cc_open C r (sf_epoch sf) (sf_counter sf) ft 0 0 (sf_ciphertext sf) = (Inr payload, r')"
    using tr by (auto simp: transmit_def split: prod.splits sum.splits)
  have len: "length (sf_ciphertext sf) = length payload + 16" using cc_seal_length [OF C s seal] .
  define f where "f = plain_raw ft (sf_ciphertext sf)"
  have ok: "frame_ok f" using len fits by (simp add: frame_ok_def f_def plain_raw_def)
  have "send_frame C s ft payload = (Inr (frame_bytes True f (sf_epoch sf) (sf_counter sf)), s')"
    using seal len fits header_bytes_eq [of "sf_ciphertext sf" ft 16 0 0]
    by (simp add: send_frame_def frame_bytes_def f_def plain_raw_def)
  moreover have "recv_frame C r True (frame_bytes True f (sf_epoch sf) (sf_counter sf) @ rest) = (Inr ((ft, payload), rest), r')" for rest
  proof -
    have "recv_raw_frame True True (frame_bytes True f (sf_epoch sf) (sf_counter sf) @ rest) = Inr ((f, sf_epoch sf, sf_counter sf), rest)"
      using ok by (simp add: recv_raw_frame_iff)
    with opn show ?thesis by (simp add: recv_frame_def f_def plain_raw_def)
  qed
  ultimately show ?thesis by blast
qed

fun send_frames :: "prims \<Rightarrow> control_channel \<Rightarrow> (u8 \<times> bytes) list \<Rightarrow> (bytes \<times> control_channel) option" where
  "send_frames C ch [] = Some ([], ch)"
| "send_frames C ch ((ft, payload) # ms) =
    (case send_frame C ch ft payload of
       (Inl _, _) \<Rightarrow> None
     | (Inr bs, ch) \<Rightarrow> map_option (\<lambda>(more, ch). (bs @ more, ch)) (send_frames C ch ms))"

fun recv_frames ::
  "prims \<Rightarrow> control_channel \<Rightarrow> nat \<Rightarrow> bytes \<Rightarrow> ((u8 \<times> bytes) list \<times> bytes \<times> control_channel) option" where
  "recv_frames C ch 0 bs = Some ([], bs, ch)"
| "recv_frames C ch (Suc n) bs =
    (case recv_frame C ch True bs of
       (Inl _, _) \<Rightarrow> None
     | (Inr (m, bs), ch) \<Rightarrow> map_option (\<lambda>(ms, bs, ch). (m # ms, bs, ch)) (recv_frames C ch n bs))"

definition fits :: "u8 \<times> bytes \<Rightarrow> bool" where
  "fits m \<longleftrightarrow> length (snd m) + 16 \<le> unat (body_limit (fst m))"

lemma frames_delivered:
  assumes C: "aead_ok C" "kdf_lens C"
  shows "linked s r \<Longrightarrow> unat (cc_send_counter s) + length ms \<le> 2 ^ 32 \<Longrightarrow> unat (cc_epoch s) < 2 ^ 64 - 1 \<Longrightarrow>
    list_all fits ms \<Longrightarrow>
    \<exists>bs s' r'. send_frames C s ms = Some (bs, s') \<and> linked s' r' \<and> cc_epoch s' = cc_epoch s \<and>
      unat (cc_send_counter s') = unat (cc_send_counter s) + length ms \<and> cc_send_counter r' = cc_send_counter r \<and>
      (\<forall>rest. recv_frames C r (length ms) (bs @ rest) = Some (ms, rest, r'))"
proof (induction ms arbitrary: s r)
  case (Cons m ms)
  obtain ft payload where m: "m = (ft, payload)" by (cases m)
  let ?m = "\<lparr>fr_type = ft, fr_flags = 0, fr_request = 0, fr_body = payload\<rparr>"
  obtain s1 r1 where t: "transmit C s r ?m = Some (payload, s1, r1)" "linked s1 r1" "cc_epoch s1 = cc_epoch s"
      "unat (cc_send_counter s1) = unat (cc_send_counter s) + 1" "cc_send_counter r1 = cc_send_counter r"
    using transmit_linked [OF C Cons.prems(1), of ?m] Cons.prems by auto
  have "cc_ok s" using Cons.prems(1) by (simp add: linked_def)
  from frame_transmit [OF C this t(1)] obtain b1 where b1: "send_frame C s ft payload = (Inr b1, s1)"
      "\<And>rest. recv_frame C r True (b1 @ rest) = (Inr ((ft, payload), rest), r1)"
    using Cons.prems(4) by (auto simp: m fits_def)
  obtain bs s' r' where IH: "send_frames C s1 ms = Some (bs, s')" "linked s' r'" "cc_epoch s' = cc_epoch s1"
      "unat (cc_send_counter s') = unat (cc_send_counter s1) + length ms" "cc_send_counter r' = cc_send_counter r1"
      "\<And>rest. recv_frames C r1 (length ms) (bs @ rest) = Some (ms, rest, r')"
    using Cons.IH [OF t(2)] Cons.prems t(3,4) by auto
  have "send_frames C s (m # ms) = Some (b1 @ bs, s')" using b1(1) IH(1) by (simp add: m)
  moreover have "recv_frames C r (length (m # ms)) ((b1 @ bs) @ rest) = Some (m # ms, rest, r')" for rest
    using b1(2) [of "bs @ rest"] IH(6) by (simp add: m)
  ultimately show ?case
    using IH(2-5) t(3-5) by (intro exI [of _ "b1 @ bs"] exI [of _ s'] exI [of _ r']) simp
qed auto

section \<open>Properties\<close>

text \<open>C33: A frame is read exactly from a stream that begins with the header the sender writes for it (\<open>header_bytes\<close>), then epoch and counter if
  the frame is protected, then the body, provided that no flag but the known one is set and the body is within the limit of its type;
  exactly those bytes are consumed. A plain frame that \<open>send_plain_frame\<close> writes is accepted exactly when it comes in time and its payload
  is within that limit. No header makes the receiver allocate more than 4 MiB and 4 KiB.\<close>

theorem frame_exact:
  "(recv_raw_frame in_time protected_frame bs = Inr ((f, epoch, counter), rest) \<longleftrightarrow>
    in_time \<and> rf_flags f AND NOT FLAG_NONCRITICAL = 0 \<and> length (rf_body f) \<le> unat (body_limit (rf_type f)) \<and>
    (protected_frame \<or> epoch = 0 \<and> counter = 0) \<and>
    (\<exists>head. header_bytes (rf_type f) (rf_flags f) (rf_request_id f) (length (rf_body f)) (if protected_frame then 16 else 0) = Inr head \<and>
      bs = head @ (if protected_frame then to_be epoch @ to_be counter else []) @ rf_body f @ rest)) \<and>
   ((\<exists>frame. send_plain_frame t payload = Inr frame \<and> expect_plain_frame in_time t (frame @ rest) = Inr (payload, rest)) \<longleftrightarrow>
    in_time \<and> length payload \<le> unat (body_limit t)) \<and>
   unat (body_limit t) \<le> 4 * 1024 * 1024 + 4 * 1024"
  using unat_body_limit [of t] plain_frame_accepted [of t payload in_time rest]
    recv_raw_header [of in_time protected_frame bs f epoch counter rest] by simp

text \<open>C34: What one end of a session sends as protected frames, up to 2^32 of them and each within its limit, the other end receives
  unchanged and in order from the byte stream, with nothing of what follows consumed.\<close>

theorem frame_stream_delivery:
  assumes "aead_ok C" "kdf_lens C" "length ms \<le> 2 ^ 32" "list_all fits ms"
  shows "\<exists>bs s' r'. send_frames C (cc_new C prk th2 d) ms = Some (bs, s') \<and>
    recv_frames C (cc_new C prk th2 (opposite d)) (length ms) (bs @ rest) = Some (ms, rest, r')"
proof -
  have "unat (cc_send_counter (cc_new C prk th2 d)) = 0" "unat (cc_epoch (cc_new C prk th2 d)) = 0"
    by (simp_all add: cc_new_def cc_epoch_def derive_epoch_def)
  then show ?thesis
    using frames_delivered [OF assms(1,2) linked_new [OF assms(2)], of prk th2 d ms] assms(3,4) by auto
qed

theorem frame_stream_delivery_witness:
  "\<exists>bs s' r'. send_frames sample_prims (cc_new sample_prims [1] [2] ServerToClient) [(FRAME_COMPLETE, [1, 2]), (FRAME_STREAM_END, [])] = Some (bs, s') \<and>
    recv_frames sample_prims (cc_new sample_prims [1] [2] ClientToServer) (Suc (Suc 0)) (bs @ [7]) =
      Some ([(FRAME_COMPLETE, [1, 2]), (FRAME_STREAM_END, [])], [7], r')"
proof -
  have "list_all fits [(FRAME_COMPLETE, [1, 2]), (FRAME_STREAM_END, [])]"
    by (simp add: fits_def body_limit_def MAX_CONTROL_BODY_def MAX_DATA_BODY_def)
  from frame_stream_delivery [OF sample_prims_ok(1,3) _ this, of "[1]" "[2]" ServerToClient "[7]"]
  show ?thesis by (simp del: send_frames.simps recv_frames.simps)
qed

end
