(* ===== verification/Rtp_Record.thy ===== *)
theory Rtp_Record
  imports Rtp_Frame Rtp_Merkle Rtp_Object
begin

text \<open>
  The messages of \<open>rtp2-core/src/transfer.rs\<close> around the chunks: the chunk record with its inclusion proof, the final
  acknowledgement, and the sender's cache of encrypted chunks.
\<close>

section \<open>Chunk records\<close>

definition bad_record :: "cbor_error \<Rightarrow> transfer_error" where
  "bad_record e = Protocol ''bad chunk record''"

definition encode_step :: "writer \<Rightarrow> proof_step \<Rightarrow> writer" where
  "encode_step w step =
    (let w = w_array w 2;
         w = w_uint w (case ps_direction step of DLeft \<Rightarrow> 0 | DRight \<Rightarrow> 1)
     in w_bytes w (ps_hash step))"

definition encode_chunk_record :: "u64 \<Rightarrow> proof_step list \<Rightarrow> bytes \<Rightarrow> bytes option" where
  "encode_chunk_record index siblings ciphertext = do {
     let m = mw_begin [] 3;
     m \<leftarrow> mw_uint m 0 index;
     m \<leftarrow> mw_nested m 1 (\<lambda>inner. Some (foldl encode_step (w_array inner (of_nat (length siblings))) siblings));
     m \<leftarrow> mw_bytes m 2 ciphertext;
     mw_end m }"

definition r_direction :: "reader \<Rightarrow> transfer_error + direction \<times> reader" where
  "r_direction r =
    qm bad_record (r_uint r) (\<lambda>(v, r).
      if v = 0 then Inr (DLeft, r) else if v = 1 then Inr (DRight, r) else Inl (Protocol ''bad proof direction''))"

text \<open>One step of the proof. The array of the step is entered and, as in the code, never left.\<close>

definition r_proof_step :: "reader \<Rightarrow> transfer_error + proof_step \<times> reader" where
  "r_proof_step r =
    qm bad_record (r_array r) (\<lambda>(n, r).
      if n \<noteq> 2 then Inl (Protocol ''bad proof step'')
      else
        qm id (r_direction r) (\<lambda>(dir, r).
        qm bad_record (r_bytes_exact 32 r) (\<lambda>(hash, r).
        Inr (\<lparr>ps_direction = dir, ps_hash = hash\<rparr>, r))))"

definition r_proof :: "reader \<Rightarrow> transfer_error + proof_step list \<times> reader" where
  "r_proof r =
    qm bad_record (r_array r) (\<lambda>(n, r).
      if n > 64 then Inl (Protocol ''proof too deep'')
      else qm id (read_n r_proof_step (unat n) r) (\<lambda>(steps, r). Inr (steps, r_leave r)))"

definition decode_chunk_record :: "bytes \<Rightarrow> transfer_error + u64 \<times> proof_step list \<times> bytes" where
  "decode_chunk_record bs =
    qm bad_record (r_map (r_new_unbounded bs)) (\<lambda>m.
    qm id (mr_field bad_record 0 r_uint m) (\<lambda>(index, m).
    qm bad_record (mr_expect_key 1 m) (\<lambda>m.
    qm id (mr_on r_proof m) (\<lambda>(steps, m).
    qm id (mr_field bad_record 2 r_bytes m) (\<lambda>(ciphertext, m).
    qm id (mr_no_more bad_record (Protocol ''bad chunk record'') m) (\<lambda>m.
    qm bad_record (r_finish (mr_reader m)) (\<lambda>_.
    Inr (index, steps, ciphertext))))))))"

section \<open>Acknowledgement\<close>

definition bad_ack :: "cbor_error \<Rightarrow> transfer_error" where
  "bad_ack e = Protocol ''bad ack''"

definition encode_ack :: "u64 \<Rightarrow> bytes \<Rightarrow> bytes option" where
  "encode_ack status digest = do {
     let m = mw_begin [] 2;
     m \<leftarrow> mw_uint m 0 status;
     m \<leftarrow> mw_bytes m 1 digest;
     mw_end m }"

definition decode_ack :: "bytes \<Rightarrow> transfer_error + u64 \<times> bytes" where
  "decode_ack bs =
    qm bad_ack (r_new bs) (\<lambda>r.
    qm bad_ack (r_map r) (\<lambda>m.
    qm id (mr_field bad_ack 0 r_uint m) (\<lambda>(status, m).
    qm id (mr_field bad_ack 1 (r_bytes_exact 32) m) (\<lambda>(digest, m).
    qm id (mr_no_more bad_ack (Protocol ''bad ack'') m) (\<lambda>m.
    qm bad_ack (r_finish (mr_reader m)) (\<lambda>_.
    Inr (status, digest)))))))"

section \<open>Ciphertext cache\<close>

record ciphertext_cache =
  ch_entries :: "bytes option list"
  ch_budget_remaining :: nat

definition DEFAULT_BUDGET :: nat where "DEFAULT_BUDGET = 64 * 1024 * 1024"

definition cache_new :: "u64 \<Rightarrow> nat \<Rightarrow> ciphertext_cache" where
  "cache_new chunk_count budget =
    \<lparr>ch_entries = replicate (unat chunk_count) None, ch_budget_remaining = budget\<rparr>"

definition cache_insert :: "ciphertext_cache \<Rightarrow> u64 \<Rightarrow> bytes \<Rightarrow> ciphertext_cache" where
  "cache_insert c index ciphertext =
    (if length ciphertext > ch_budget_remaining c then c
     else if unat index \<ge> length (ch_entries c) then c
     else \<lparr>ch_entries = (ch_entries c)[unat index := Some ciphertext],
           ch_budget_remaining = ch_budget_remaining c - length ciphertext\<rparr>)"

definition cache_get :: "ciphertext_cache \<Rightarrow> u64 \<Rightarrow> bytes option" where
  "cache_get c index = (if unat index < length (ch_entries c) then ch_entries c ! unat index else None)"

section \<open>The wire format\<close>

definition step_bytes :: "proof_step \<Rightarrow> bytes" where
  "step_bytes s = enc_array 2 @ enc_uint (case ps_direction s of DLeft \<Rightarrow> 0 | DRight \<Rightarrow> 1) @ enc_bytes (ps_hash s)"

definition step_ok :: "proof_step \<Rightarrow> bool" where
  "step_ok s \<longleftrightarrow> length (ps_hash s) = 32"

definition record_bytes :: "u64 \<Rightarrow> proof_step list \<Rightarrow> bytes \<Rightarrow> bytes" where
  "record_bytes index p ct = enc_map 3 @ enc_uint 0 @ enc_uint index @ enc_uint 1 @ enc_array (of_nat (length p)) @
    concat (map step_bytes p) @ enc_uint 2 @ enc_bytes ct"

lemma foldl_encode_step: "foldl encode_step w p = w @ concat (map step_bytes p)"
  by (induction p arbitrary: w) (simp_all add: encode_step_def step_bytes_def)

lemma encode_chunk_record_eq: "encode_chunk_record index p ct = Some (record_bytes index p ct)"
  by (simp add: encode_chunk_record_def mw_simps foldl_encode_step record_bytes_def)

lemma r_direction_iff [cbor_iff]: "r_direction (rdr pre bs d) = Inr (dir, r') \<longleftrightarrow>
    (\<exists>rest. bs = enc_uint (case dir of DLeft \<Rightarrow> 0 | DRight \<Rightarrow> 1) @ rest \<and>
      r' = rdr (pre @ enc_uint (case dir of DLeft \<Rightarrow> 0 | DRight \<Rightarrow> 1)) rest d)"
proof -
  have "(if v = 0 then Inr (DLeft, r) else if v = 1 then Inr (DRight, r) else Inl e) = Inr (dir, r') \<longleftrightarrow>
      v = (case dir of DLeft \<Rightarrow> 0 | DRight \<Rightarrow> 1) \<and> r = r'" for v :: u64 and r :: reader and e :: transfer_error
    by (cases dir) auto
  then show ?thesis
    by (auto simp: r_direction_def res_iff cbor_iff)
qed

lemma r_proof_step_iff [cbor_iff]: "r_proof_step (rdr pre bs d) = Inr (s, r') \<longleftrightarrow>
    d < MAX_DEPTH \<and> step_ok s \<and> (\<exists>rest. bs = step_bytes s @ rest \<and> r' = rdr (pre @ step_bytes s) rest (Suc d))"
  by (cases s) (auto simp: r_proof_step_def res_iff cbor_iff step_bytes_def step_ok_def)

text \<open>Reading \<open>n\<close> steps deepens the reader by \<open>n\<close>.\<close>

lemma read_steps_iff: "read_n r_proof_step n (rdr pre bs d) = Inr (p, r') \<longleftrightarrow>
    length p = n \<and> list_all step_ok p \<and> (n = 0 \<or> d + n \<le> MAX_DEPTH) \<and>
    (\<exists>rest. bs = concat (map step_bytes p) @ rest \<and> r' = rdr (pre @ concat (map step_bytes p)) rest (d + n))"
proof (induction n arbitrary: pre bs d p)
  case (Suc n)
  show ?case
  proof (cases p)
    case (Cons s q)
    have "read_n r_proof_step (Suc n) (rdr pre bs d) = Inr (p, r') \<longleftrightarrow>
        (\<exists>rest. d < MAX_DEPTH \<and> step_ok s \<and> bs = step_bytes s @ rest \<and>
          read_n r_proof_step n (rdr (pre @ step_bytes s) rest (Suc d)) = Inr (q, r'))"
      unfolding Cons read_n_Suc_iff r_proof_step_iff by auto
    also have "\<dots> \<longleftrightarrow> (\<exists>rest. bs = step_bytes s @ concat (map step_bytes q) @ rest \<and>
          r' = rdr (pre @ step_bytes s @ concat (map step_bytes q)) rest (Suc (d + n))) \<and>
        d + Suc n \<le> MAX_DEPTH \<and> step_ok s \<and> list_all step_ok q \<and> length q = n"
      unfolding Suc.IH by auto
    finally show ?thesis by (auto simp: Cons)
  next
    case Nil
    then show ?thesis unfolding read_n_Suc_iff by auto
  qed
qed auto

lemma r_proof_iff [cbor_iff]: "r_proof (rdr pre bs (Suc 0)) = Inr (p, r') \<longleftrightarrow>
    length p \<le> 14 \<and> list_all step_ok p \<and>
    (\<exists>rest. bs = enc_array (of_nat (length p)) @ concat (map step_bytes p) @ rest \<and>
      r' = rdr (pre @ enc_array (of_nat (length p)) @ concat (map step_bytes p)) rest (Suc (length p)))" (is "?L \<longleftrightarrow> ?R")
proof
  assume ?L
  then obtain n bs' r1 where n: "bs = enc_array n @ bs'" "\<not> n > 64"
      "read_n r_proof_step (unat n) (rdr (pre @ enc_array n) bs' 2) = Inr (p, r1)" "r' = r_leave r1"
    by (auto simp: r_proof_def res_iff cbor_iff numeral_2_eq_2 split: if_splits)
  then have "n = of_nat (length p)" unfolding read_steps_iff by auto
  with n show ?R by (auto simp: read_steps_iff MAX_DEPTH_def)
next
  assume r: ?R
  then obtain rest where rest: "bs = enc_array (of_nat (length p)) @ concat (map step_bytes p) @ rest"
      "r' = rdr (pre @ enc_array (of_nat (length p)) @ concat (map step_bytes p)) rest (Suc (length p))" by blast
  have u: "unat (of_nat (length p) :: u64) = length p" using r by simp
  then have "\<not> (of_nat (length p) :: u64) > 64" using r by (simp add: word_less_nat_alt)
  moreover have "read_n r_proof_step (length p) (rdr (pre @ enc_array (of_nat (length p))) (concat (map step_bytes p) @ rest) 2) =
      Inr (p, rdr (pre @ enc_array (of_nat (length p)) @ concat (map step_bytes p)) rest (2 + length p))"
    using r by (subst read_steps_iff) (simp add: MAX_DEPTH_def)
  ultimately show ?L
    by (simp add: r_proof_def rest cbor_fwd MAX_DEPTH_def u numeral_2_eq_2)
qed

lemma decode_chunk_record_iff: "decode_chunk_record bs = Inr (index, p, ct) \<longleftrightarrow>
    length p \<le> 14 \<and> list_all step_ok p \<and> length ct < 2 ^ 64 \<and> bs = record_bytes index p ct" (is "?L \<longleftrightarrow> ?R")
proof
  assume ?L
  then show ?R
    by (auto simp: decode_chunk_record_def res_iff cbor_iff r_new_unbounded_eq record_bytes_def)
next
  assume r: ?R
  have "r_proof (rdr pre (enc_array (of_nat (length p)) @ concat (map step_bytes p) @ rest) (Suc 0)) =
      Inr (p, rdr (pre @ enc_array (of_nat (length p)) @ concat (map step_bytes p)) rest (Suc (length p)))" for pre rest
    using r by (simp add: r_proof_iff)
  then show ?L
    using r by (simp add: decode_chunk_record_def record_bytes_def r_new_unbounded_eq cbor_fwd MAX_DEPTH_def)
qed

lemma decode_ack_iff: "decode_ack bs = Inr (status, digest) \<longleftrightarrow> length digest = 32 \<and> encode_ack status digest = Some bs"
  (is "?L \<longleftrightarrow> ?R")
proof
  assume ?L
  then show ?R
    by (auto simp: decode_ack_def encode_ack_def mw_simps res_iff cbor_iff)
next
  assume r: ?R
  then have b: "bs = enc_map 2 @ enc_uint 0 @ enc_uint status @ enc_uint 1 @ enc_bytes digest"
    by (simp add: encode_ack_def mw_simps)
  have "length bs \<le> MAX_CONTROL_SIZE"
    using r length_enc(1) [of 0] length_enc(1) [of status] length_enc(1) [of 1] length_enc(2) [of 2] length_enc(4) [of digest]
    by (simp add: b MAX_CONTROL_SIZE_def)
  with r show ?L by (simp add: decode_ack_def b r_new_eq cbor_fwd MAX_DEPTH_def)
qed

section \<open>Proofs and the depth limit\<close>

lemma dirs_of_first: "2 ^ k < n \<Longrightarrow> k < length (dirs_of n 0)"
proof (induction k arbitrary: n)
  case 0
  then show ?case using lpb_bounds(1) [of n] by (simp add: dirs_of.simps [of n])
next
  case (Suc k)
  then have n: "\<not> n \<le> 1" "Suc 0 < n"
    using one_le_power [of "2 :: nat" "Suc k"] by linarith+
  then have "2 ^ k < lpb n"
    using Suc.prems lpb_bounds(3) [OF n(2)] by simp
  then show ?case
    using Suc.IH [of "lpb n"] n lpb_bounds(1) [OF n(2)] by (simp add: dirs_of.simps [of n])
qed

lemma proof_of_ok:
  "(\<And>x. length (H x) = 32) \<Longrightarrow> list_all (\<lambda>l. length l = 32) ls \<Longrightarrow> list_all step_ok (proof_of H ls i)"
proof (induction H ls i rule: proof_of.induct)
  case (1 H ls i)
  show ?case
  proof (cases "length ls \<le> 1")
    case False
    define k where "k = lpb (length ls)"
    note n = node_case [OF False k_def]
    have r: "length (root_of H (drop k ls)) = 32" "length (root_of H (take k ls)) = 32"
      using "1.prems" by (simp_all add: length_root_of list_all_take_drop)
    show ?thesis
      using "1.IH"(1) [OF k_def False _ "1.prems"(1)] "1.IH"(2) [OF k_def False _ "1.prems"(1)] "1.prems"(2) r
      by (cases "i < k") (simp_all add: n(5,6) list_all_take_drop step_ok_def)
  qed (simp add: leaf_case)
qed

lemma chunk_leaves_ok: "(\<And>x. length (H x) = 32) \<Longrightarrow> list_all (\<lambda>l. length l = 32) (chunk_leaves H cts)"
  by (simp add: list_all_length nth_chunk_leaves leaf_hash_input)

lemma length_proof_of: "i < length ls \<Longrightarrow> length (proof_of H ls i) = length (dirs_of (length ls) i)"
  by (metis dirs_proof_of length_map)

section \<open>Properties\<close>

text \<open>A chunk record is accepted exactly when it is the encoding of its index, proof and ciphertext, every hash
  of the proof is 32 bytes long and the proof has at most 14 steps; an acknowledgement exactly when it is the
  encoding of its status and a 32-byte digest. The encoders never panic.\<close>

theorem chunk_record_exact:
  "(decode_chunk_record bs = Inr (index, p, ct) \<longleftrightarrow>
     length p \<le> 14 \<and> list_all step_ok p \<and> length ct < 2 ^ 64 \<and> encode_chunk_record index p ct = Some bs) \<and>
   (decode_ack bs = Inr (status, digest) \<longleftrightarrow> length digest = 32 \<and> encode_ack status digest = Some bs) \<and>
   encode_chunk_record index p ct \<noteq> None \<and> encode_ack status digest \<noteq> None"
  by (auto simp: decode_chunk_record_iff encode_chunk_record_eq decode_ack_iff encode_ack_def mw_simps)

text \<open>C35: The records of an object decode as long as it has at most 16384 chunks. With more chunks, the record the
  sender makes for the first chunk, whose proof the code means to accept up to 64 steps, is refused by every
  receiver: each step of a proof deepens the reader and only the outer array is left again.\<close>

theorem chunk_record_depth_limit:
  assumes "\<And>x. length (H x) = 32" and "index < length cts" and "length cts \<le> 2 ^ 32" and "length (cts ! index) < 2 ^ 64"
    and "build_proof H (chunk_leaves H cts) index = Some (Inr p)"
    and "encode_chunk_record (of_nat index) p (cts ! index) = Some bs"
  shows "(length cts \<le> 2 ^ 14 \<longrightarrow> decode_chunk_record bs = Inr (of_nat index, p, cts ! index)) \<and>
    (2 ^ 14 < length cts \<and> index = 0 \<longrightarrow> \<not> is_ok (decode_chunk_record bs)) \<and>
    length p \<le> 32"
proof -
  have p: "p = proof_of H (chunk_leaves H cts) index" and bs: "bs = record_bytes (of_nat index) p (cts ! index)"
    using assms(2,5,6) by (simp_all add: build_proof_eq encode_chunk_record_eq)
  have len: "length p = length (dirs_of (length cts) index)"
    using assms(2) length_proof_of [of index "chunk_leaves H cts"] by (simp add: p)
  have short: "length p \<le> 32"
    using length_dirs_of [of "length cts" 32 index] assms(3) by (simp add: len)
  have "list_all step_ok p"
    unfolding p by (intro proof_of_ok chunk_leaves_ok assms(1))
  then have "length cts \<le> 2 ^ 14 \<Longrightarrow> decode_chunk_record bs = Inr (of_nat index, p, cts ! index)"
    using length_dirs_of [of "length cts" 14 index] assms(4) by (simp add: decode_chunk_record_iff bs len)
  moreover have "\<not> is_ok (decode_chunk_record bs)" if "2 ^ 14 < length cts" "index = 0"
  proof
    assume "is_ok (decode_chunk_record bs)"
    then obtain i q ct where d: "decode_chunk_record bs = Inr (i, q, ct)" by (auto simp: is_ok_def split: sum.splits)
    then have "record_bytes 0 p (cts ! 0) = record_bytes i q ct" "length q \<le> 14"
      using that by (simp_all add: decode_chunk_record_iff bs)
    then have "(of_nat (length p) :: u64) = of_nat (length q)" by (simp add: record_bytes_def)
    moreover have "14 < length p" using dirs_of_first [of 14 "length cts"] that by (simp add: len)
    moreover have "unat (of_nat (length p) :: u64) = length p" "unat (of_nat (length q) :: u64) = length q"
      using short \<open>length q \<le> 14\<close> by simp_all
    ultimately show False using \<open>length q \<le> 14\<close> by simp
  qed
  ultimately show ?thesis using short by blast
qed

theorem chunk_record_depth_limit_witness:
  "\<exists>p bs. build_proof sample_hash (chunk_leaves sample_hash (replicate 16385 [1])) 0 = Some (Inr p) \<and>
    encode_chunk_record 0 p [1] = Some bs \<and> \<not> is_ok (decode_chunk_record bs)"
proof -
  let ?cts = "replicate 16385 [1] :: bytes list"
  let ?p = "proof_of sample_hash (chunk_leaves sample_hash ?cts) 0"
  have "build_proof sample_hash (chunk_leaves sample_hash ?cts) 0 = Some (Inr ?p)"
    by (simp add: build_proof_eq)
  moreover have "encode_chunk_record 0 ?p [1] = Some (record_bytes 0 ?p [1])"
    by (rule encode_chunk_record_eq)
  ultimately show ?thesis
    using chunk_record_depth_limit [of sample_hash 0 ?cts ?p "record_bytes 0 ?p [1]"] by simp
qed

end
