(* ===== verification/Rtp_Skip.thy ===== *)
theory Rtp_Skip
  imports Rtp_Cbor
begin

text \<open>
  The part of \<open>rtp2-core/src/manifest.rs\<close> that reads over extension maps. A value that is skipped is one of the
  shapes below, within the depth limit; the readers of messages with extensions accept several byte strings for
  one value, so their contract is a relation between values and bytes rather than an encoder.
\<close>

section \<open>Errors\<close>

datatype manifest_error =
  MEncoding | UnknownCriticalField | UnsupportedVersion | UnsupportedSuite | MInvalidValue | TooManyObjects
| TextTooLong | MCrypto | CommitmentMismatch

definition manifest_err :: "cbor_error \<Rightarrow> manifest_error" where
  "manifest_err e = MEncoding"

section \<open>Skipping\<close>

text \<open>
  A loop over the remaining entries of a map, dropping each value; a key that is not \<open>allowed\<close> is refused. The
  count is the number of remaining entries, so the last call finds none.
\<close>

fun skip_entries ::
  "(u64 \<Rightarrow> bool) \<Rightarrow> (reader \<Rightarrow> manifest_error + unit \<times> reader) \<Rightarrow> nat \<Rightarrow> map_reader \<Rightarrow> manifest_error + map_reader" where
  "skip_entries allowed p n m =
    qm manifest_err (mr_next_key m) (\<lambda>(k, m).
      case k of
        None \<Rightarrow> Inr m
      | Some k \<Rightarrow>
          if \<not> allowed k then Inl UnknownCriticalField
          else (case n of 0 \<Rightarrow> Inl MEncoding
                | Suc n \<Rightarrow> qm id (mr_on p m) (\<lambda>(_, m). skip_entries allowed p n m)))"

text \<open>
  The first argument bounds the nesting of the calls. A value at depth \<open>d\<close> nests at most \<open>MAX_DEPTH - d\<close> arrays and
  maps, so \<open>MAX_DEPTH + 1\<close> calls are never exhausted.
\<close>

fun skip_nested :: "nat \<Rightarrow> reader \<Rightarrow> manifest_error + unit \<times> reader" where
  "skip_nested 0 r = Inl MEncoding"
| "skip_nested (Suc fuel) r =
    qm manifest_err (r_peek_major r) (\<lambda>major.
      if major = 0 then qm manifest_err (r_uint r) (\<lambda>(_, r). Inr ((), r))
      else if major = 2 then qm manifest_err (r_bytes r) (\<lambda>(_, r). Inr ((), r))
      else if major = 3 then qm manifest_err (r_text r) (\<lambda>(_, r). Inr ((), r))
      else if major = 4 then
        qm manifest_err (r_array r) (\<lambda>(n, r).
        qm id (read_n (skip_nested fuel) (unat n) r) (\<lambda>(_, r). Inr ((), r_leave r)))
      else if major = 5 then
        qm manifest_err (r_map r) (\<lambda>m.
        qm id (skip_entries (\<lambda>_. True) (skip_nested fuel) (unat (mr_remaining m)) m) (\<lambda>m. Inr ((), mr_reader m)))
      else Inl MEncoding)"

definition skip_value :: "reader \<Rightarrow> manifest_error + unit \<times> reader" where
  "skip_value r = skip_nested (MAX_DEPTH + 1) r"

definition skip_extension_map :: "reader \<Rightarrow> manifest_error + unit \<times> reader" where
  "skip_extension_map r =
    qm manifest_err (r_map r) (\<lambda>m.
    qm id (skip_entries (\<lambda>_. True) skip_value (unat (mr_remaining m)) m) (\<lambda>m. Inr ((), mr_reader m)))"

text \<open>
  The end of a message that may carry an extension map under one more key: nothing, or that map and then
  nothing. Any other key is critical and refused.
\<close>

definition mr_extension :: "u64 \<Rightarrow> map_reader \<Rightarrow> manifest_error + reader" where
  "mr_extension key m =
    qm manifest_err (mr_next_key m) (\<lambda>(k, m).
      case k of
        None \<Rightarrow> Inr (mr_reader m)
      | Some k \<Rightarrow>
          if k = key then
            qm id (mr_on skip_extension_map m) (\<lambda>(_, m).
            qm id (mr_no_more manifest_err UnknownCriticalField m) (\<lambda>m. Inr (mr_reader m)))
          else Inl UnknownCriticalField)"

section \<open>Readers with a wire relation\<close>

lemma ex_list_all2_Cons:
  "(\<exists>ws. list_all2 R (y # ys) ws \<and> P ws) \<longleftrightarrow> (\<exists>w ws. R y w \<and> list_all2 R ys ws \<and> P (w # ws))"
  by (auto simp: list_all2_Cons1)

text \<open>
  An array is the header with the count and one byte string for each element, a level deeper. \<open>dec\<close> reads, at every depth among \<open>depths\<close>, exactly the byte strings that the relation \<open>W\<close> gives for the
  value at that depth.
\<close>

definition list_wire :: "(nat \<Rightarrow> 'a \<Rightarrow> bytes \<Rightarrow> bool) \<Rightarrow> nat \<Rightarrow> 'a list \<Rightarrow> bytes \<Rightarrow> bool" where
  "list_wire W d xs w \<longleftrightarrow> (\<exists>ws. list_all2 (W (Suc d)) xs ws \<and> w = enc_array (of_nat (length xs)) @ concat ws)"

locale wire =
  fixes dec :: "reader \<Rightarrow> 'e + 'a \<times> reader"
    and W :: "nat \<Rightarrow> 'a \<Rightarrow> bytes \<Rightarrow> bool"
    and depths :: "nat \<Rightarrow> bool"
  assumes dec_wire: "depths d \<Longrightarrow> dec (rdr pre bs d) = Inr (x, r') \<longleftrightarrow>
    (\<exists>w rest. W d x w \<and> bs = w @ rest \<and> r' = rdr (pre @ w) rest d)"
begin

lemma read_n_wire:
  assumes "depths d"
  shows "read_n dec n (rdr pre bs d) = Inr (xs, r') \<longleftrightarrow>
    length xs = n \<and> (\<exists>ws rest. list_all2 (W d) xs ws \<and> bs = concat ws @ rest \<and> r' = rdr (pre @ concat ws) rest d)"
proof (induction n arbitrary: pre bs xs)
  case (Suc n)
  show ?case
  proof (cases xs)
    case (Cons y ys)
    have "read_n dec (Suc n) (rdr pre bs d) = Inr (xs, r') \<longleftrightarrow>
        (\<exists>w rest. W d y w \<and> bs = w @ rest \<and> read_n dec n (rdr (pre @ w) rest d) = Inr (ys, r'))"
      unfolding read_n_Suc_iff dec_wire [OF assms] Cons by blast
    also have "\<dots> \<longleftrightarrow> length ys = n \<and> (\<exists>rest w ws. W d y w \<and> list_all2 (W d) ys ws \<and>
        bs = concat (w # ws) @ rest \<and> r' = rdr (pre @ concat (w # ws)) rest d)"
      unfolding Suc.IH by auto
    also have "\<dots> \<longleftrightarrow> length xs = Suc n \<and> (\<exists>rest ws. list_all2 (W d) xs ws \<and>
        bs = concat ws @ rest \<and> r' = rdr (pre @ concat ws) rest d)"
      unfolding Cons ex_list_all2_Cons by simp
    finally show ?thesis by blast
  next
    case Nil
    then show ?thesis unfolding read_n_Suc_iff by auto
  qed
qed auto

lemma bounded_wire:
  assumes "depths (Suc d)" and "limit < 2 ^ 64" and "d < MAX_DEPTH"
  shows "r_bounded conv err limit dec (rdr pre bs d) = Inr (xs, r') \<longleftrightarrow>
    length xs \<le> limit \<and> (\<exists>w rest. list_wire W d xs w \<and> bs = w @ rest \<and> r' = rdr (pre @ w) rest d)" (is "?L \<longleftrightarrow> ?R")
proof
  assume ?L
  then obtain n r1 r2 where n: "r_array (rdr pre bs d) = Inr (n, r1)" "\<not> unat n > limit"
      "read_n dec (unat n) r1 = Inr (xs, r2)" "r' = r_leave r2"
    by (auto simp: r_bounded_def res_iff split: if_splits)
  from n(1) obtain rest where a: "bs = enc_array n @ rest" "r1 = rdr (pre @ enc_array n) rest (Suc d)"
    by (auto simp: cbor_iff)
  from n(3) obtain ws rest' where ws: "length xs = unat n" "list_all2 (W (Suc d)) xs ws" "rest = concat ws @ rest'"
      "r2 = rdr (pre @ enc_array n @ concat ws) rest' (Suc d)"
    unfolding a(2) read_n_wire [OF assms(1)] by auto
  have "of_nat (length xs) = n" using ws(1) by simp
  with n(2,4) a ws show ?R
    by (intro conjI exI [of _ "enc_array n @ concat ws"] exI [of _ rest']) (auto simp: list_wire_def)
next
  assume r: ?R
  then obtain ws rest where ws: "list_all2 (W (Suc d)) xs ws" "bs = enc_array (of_nat (length xs)) @ concat ws @ rest"
      "r' = rdr (pre @ enc_array (of_nat (length xs)) @ concat ws) rest d"
    by (auto simp: list_wire_def)
  have u: "unat (of_nat (length xs) :: u64) = length xs" using r assms(2) by simp
  have "read_n dec (length xs) (rdr (pre @ enc_array (of_nat (length xs))) (concat ws @ rest) (Suc d)) =
      Inr (xs, rdr (pre @ enc_array (of_nat (length xs)) @ concat ws) rest (Suc d))"
    unfolding read_n_wire [OF assms(1)] using ws(1) by auto
  with r assms(3) ws(2,3) u show ?L by (simp add: r_bounded_def cbor_fwd)
qed

end

section \<open>Values\<close>

datatype cval = VUint u64 | VBytes bytes | VText bytes | VArr "cval list" | VMap "u64 list" "cval list"

definition entries :: "u64 list \<Rightarrow> bytes list \<Rightarrow> bytes" where
  "entries ks ws = concat (map2 (\<lambda>k w. enc_uint k @ w) ks ws)"

fun enc_val :: "cval \<Rightarrow> bytes" where
  "enc_val (VUint v) = enc_uint v"
| "enc_val (VBytes b) = enc_bytes b"
| "enc_val (VText b) = enc_text b"
| "enc_val (VArr vs) = enc_array (of_nat (length vs)) @ concat (map enc_val vs)"
| "enc_val (VMap ks vs) = enc_map (of_nat (length ks)) @ entries ks (map enc_val vs)"

text \<open>Keys of a map ascend, here above the last key read.\<close>

definition keys_ok :: "u64 option \<Rightarrow> u64 list \<Rightarrow> bool" where
  "keys_ok lk ks \<longleftrightarrow> sorted_wrt (<) ks \<and> (case lk of None \<Rightarrow> True | Some l \<Rightarrow> list_all ((<) l) ks)"

fun val_ok :: "nat \<Rightarrow> cval \<Rightarrow> bool" where
  "val_ok d (VUint v) \<longleftrightarrow> True"
| "val_ok d (VBytes b) \<longleftrightarrow> length b < 2 ^ 64"
| "val_ok d (VText b) \<longleftrightarrow> length b < 2 ^ 64 \<and> utf8_valid b"
| "val_ok d (VArr vs) \<longleftrightarrow> d < MAX_DEPTH \<and> length vs < 2 ^ 64 \<and> list_all (val_ok (Suc d)) vs"
| "val_ok d (VMap ks vs) \<longleftrightarrow> d < MAX_DEPTH \<and> length ks < 2 ^ 64 \<and> length vs = length ks \<and>
    keys_ok None ks \<and> list_all (val_ok (Suc d)) vs"

definition val_wire :: "nat \<Rightarrow> unit \<Rightarrow> bytes \<Rightarrow> bool" where
  "val_wire d u w \<longleftrightarrow> (\<exists>v. val_ok d v \<and> w = enc_val v)"

lemma keys_ok_Cons: "keys_ok lk (k # ks) \<longleftrightarrow> (\<forall>l. lk = Some l \<longrightarrow> l < k) \<and> keys_ok (Some k) ks"
  by (cases lk) (auto simp: keys_ok_def list_all_iff)

lemma entries_Cons [simp]: "entries (k # ks) (w # ws) = enc_uint k @ w @ entries ks ws" "entries [] ws = []"
  by (simp_all add: entries_def)

declare skip_entries.simps [simp del]

lemma skip_entries_Suc: "skip_entries allowed p (Suc n) m =
    qm manifest_err (mr_next_key m) (\<lambda>(key, m). case key of None \<Rightarrow> Inr m
      | Some key \<Rightarrow> if \<not> allowed key then Inl UnknownCriticalField
          else qm id (mr_on p m) (\<lambda>(_, m). skip_entries allowed p n m))"
  by (subst skip_entries.simps) (simp cong: option.case_cong if_cong)

lemma skip_entries_iff:
  assumes "wire p W depths" and "depths (Suc d)"
  shows "skip_entries allowed p (unat n) (mrdr pre bs (Suc d) n lk) = Inr m' \<longleftrightarrow>
    (\<exists>ks ws rest. length ks = unat n \<and> length ws = unat n \<and> keys_ok lk ks \<and> list_all allowed ks \<and>
      list_all (W (Suc d) ()) ws \<and> bs = entries ks ws @ rest \<and>
      m' = mrdr (pre @ entries ks ws) rest d 0 (if ks = [] then lk else Some (last ks)))" (is "_ \<longleftrightarrow> ?R n pre bs lk")
proof (induction "unat n" arbitrary: n pre bs lk)
  note dec = wire.dec_wire [OF assms(1)]
  case 0
  then have "n = 0" by (simp add: unat_eq_0)
  then show ?case
    by (subst skip_entries.simps) (auto simp: mr_fwd keys_ok_def split: option.splits)
next
  note dec = wire.dec_wire [OF assms(1)]
  case (Suc k)
  then have n: "n \<noteq> 0" "unat (n - 1) = k"
    by (auto simp: unat_sub word_le_nat_alt)
  have step: "skip_entries allowed p (unat n) (mrdr pre bs (Suc d) n lk) = Inr m' \<longleftrightarrow>
      (\<exists>key w rest. (\<forall>l. lk = Some l \<longrightarrow> l < key) \<and> allowed key \<and> W (Suc d) () w \<and> bs = enc_uint key @ w @ rest \<and>
        skip_entries allowed p (unat (n - 1)) (mrdr (pre @ enc_uint key @ w) rest (Suc d) (n - 1) (Some key)) = Inr m')"
    (is "?L \<longleftrightarrow> ?S")
  proof
    assume ?L
    then have L: "qm manifest_err (mr_next_key (mrdr pre bs (Suc d) n lk)) (\<lambda>(key, m). case key of None \<Rightarrow> Inr m
        | Some key \<Rightarrow> if \<not> allowed key then Inl UnknownCriticalField
            else qm id (mr_on p m) (\<lambda>(_, m). skip_entries allowed p k m)) = Inr m'"
      unfolding Suc.hyps(2) [symmetric] skip_entries_Suc .
    then obtain key m1 where key: "mr_next_key (mrdr pre bs (Suc d) n lk) = Inr (Some key, m1)"
      using n(1) by (cases "mr_next_key (mrdr pre bs (Suc d) n lk)") (auto simp: next_key_None_iff split: option.splits)
    with L have "allowed key" and "\<exists>u m2. mr_on p m1 = Inr (u, m2) \<and> skip_entries allowed p k m2 = Inr m'"
      by (auto simp: res_iff split: if_splits)
    moreover from this(2) key obtain w rest where "W (Suc d) () w" "bs = enc_uint key @ w @ rest"
        "\<forall>l. lk = Some l \<longrightarrow> l < key"
        "skip_entries allowed p (unat (n - 1)) (mrdr (pre @ enc_uint key @ w) rest (Suc d) (n - 1) (Some key)) = Inr m'"
      using dec [OF assms(2)] n(2) by (auto simp: next_key_Some_iff mr_on_iff)
    ultimately show ?S by blast
  next
    assume ?S
    then obtain key w rest where "\<forall>l. lk = Some l \<longrightarrow> l < key" "allowed key" "W (Suc d) () w" "bs = enc_uint key @ w @ rest"
        "skip_entries allowed p k (mrdr (pre @ enc_uint key @ w) rest (Suc d) (n - 1) (Some key)) = Inr m'"
      using n(2) by auto
    moreover have "p (rdr (pre @ enc_uint key) (w @ rest) (Suc d)) = Inr ((), rdr (pre @ enc_uint key @ w) rest (Suc d))"
      using calculation(3) by (subst dec [OF assms(2)]) auto
    ultimately show ?L
      using n(1) unfolding Suc.hyps(2) [symmetric] skip_entries_Suc by (simp add: cbor_fwd)
  qed
  also have "\<dots> \<longleftrightarrow> (\<exists>key w rest. (\<forall>l. lk = Some l \<longrightarrow> l < key) \<and> allowed key \<and> W (Suc d) () w \<and> bs = enc_uint key @ w @ rest \<and>
        ?R (n - 1) (pre @ enc_uint key @ w) rest (Some key))"
    unfolding Suc.hyps(1) [OF n(2) [symmetric]] by simp
  also have "\<dots> \<longleftrightarrow> ?R n pre bs lk" (is "?S \<longleftrightarrow> _")
  proof
    assume ?S
    then obtain key w rest ks ws rest' where "\<forall>l. lk = Some l \<longrightarrow> l < key" "allowed key" "W (Suc d) () w"
        "bs = enc_uint key @ w @ rest" "length ks = k" "length ws = k" "keys_ok (Some key) ks" "list_all allowed ks"
        "list_all (W (Suc d) ()) ws" "rest = entries ks ws @ rest'"
        "m' = mrdr ((pre @ enc_uint key @ w) @ entries ks ws) rest' d 0 (if ks = [] then Some key else Some (last ks))"
      unfolding n(2) by blast
    then show "?R n pre bs lk"
      using Suc.hyps(2) by (intro exI [of _ "key # ks"] exI [of _ "w # ws"] exI [of _ rest']) (auto simp: keys_ok_Cons)
  next
    assume "?R n pre bs lk"
    then obtain key ks w ws rest where "length ks = k" "length ws = k" "keys_ok lk (key # ks)" "list_all allowed (key # ks)"
        "list_all (W (Suc d) ()) (w # ws)" "bs = entries (key # ks) (w # ws) @ rest"
        "m' = mrdr (pre @ entries (key # ks) (w # ws)) rest d 0 (Some (last (key # ks)))"
      using Suc.hyps(2) [symmetric] by (auto simp: length_Suc_conv)
    then show ?S
      unfolding n(2) by (intro exI [of _ key] exI [of _ w] exI [of _ "entries ks ws @ rest"] conjI)
        (auto simp: keys_ok_Cons intro!: exI [of _ ks] exI [of _ ws])
  qed
  finally show ?case .
qed

lemma peek_hdr: "m < 8 \<Longrightarrow> r_peek_major (rdr pre (hdr m v @ rest) d) = Inr m"
proof -
  assume m: "m < 8"
  have "\<exists>ai tl. ai < 32 \<and> hdr m v = (push_bit 5 m OR ai) # tl"
  proof (cases v rule: u64_size_cases)
    case 1
    then have "unat v < 24" by (simp add: word_less_nat_alt)
    then have "(ucast v :: u8) < 32" by (simp add: word_less_nat_alt unsigned_ucast_eq take_bit_nat_eq_self)
    with 1 show ?thesis by (auto simp: hdr_simps)
  next
    case 2
    then show ?thesis by (intro exI [of _ 24]) (simp add: hdr_simps)
  next
    case 3
    then show ?thesis by (intro exI [of _ 25]) (simp add: hdr_simps)
  next
    case 4
    then show ?thesis by (intro exI [of _ 26]) (simp add: hdr_simps)
  next
    case 5
    then show ?thesis by (intro exI [of _ 27]) (simp add: hdr_simps)
  qed
  then obtain ai tl where ai: "ai < 32" "hdr m v = (push_bit 5 m OR ai) # tl" by blast
  then have "drop_bit 5 (push_bit 5 m OR ai) = m"
    using byte_split [OF m ai(1), of "push_bit 5 m OR ai"] by simp
  with ai show ?thesis by (simp add: r_peek_major_def rdr_def)
qed

lemma peek_enc:
  "r_peek_major (rdr pre (enc_uint v @ rest) d) = Inr 0" "r_peek_major (rdr pre (enc_bytes b @ rest) d) = Inr 2"
  "r_peek_major (rdr pre (enc_text b @ rest) d) = Inr 3" "r_peek_major (rdr pre (enc_array v @ rest) d) = Inr 4"
  "r_peek_major (rdr pre (enc_map v @ rest) d) = Inr 5"
  by (simp_all add: enc_uint_def enc_bytes_def enc_text_def enc_array_def enc_map_def major_defs peek_hdr)

lemma list_all_ex_map: "list_all (\<lambda>w. \<exists>v. P v \<and> w = f v) ws \<longleftrightarrow> (\<exists>vs. list_all P vs \<and> ws = map f vs)"
proof
  show "list_all (\<lambda>w. \<exists>v. P v \<and> w = f v) ws \<Longrightarrow> \<exists>vs. list_all P vs \<and> ws = map f vs"
  proof (induction ws)
    case (Cons w ws)
    then obtain v vs where "P v" "w = f v" "list_all P vs" "ws = map f vs" by auto
    then show ?case by (intro exI [of _ "v # vs"]) simp
  qed simp
next
  show "\<exists>vs. list_all P vs \<and> ws = map f vs \<Longrightarrow> list_all (\<lambda>w. \<exists>v. P v \<and> w = f v) ws"
    unfolding list_all_iff by fastforce
qed

lemma val_wire_list:
  "list_all (val_wire d u) ws \<longleftrightarrow> (\<exists>vs. list_all (val_ok d) vs \<and> ws = map enc_val vs)"
  "list_all2 (val_wire d) us ws \<longleftrightarrow> length us = length ws \<and> (\<exists>vs. list_all (val_ok d) vs \<and> ws = map enc_val vs)"
proof -
  show l: "list_all (val_wire d u) ws \<longleftrightarrow> (\<exists>vs. list_all (val_ok d) vs \<and> ws = map enc_val vs)" for u
    unfolding val_wire_def by (rule list_all_ex_map)
  have "list_all2 (val_wire d) us ws \<longleftrightarrow> length us = length ws \<and> list_all (val_wire d ()) ws"
    by (auto simp: list_all2_conv_all_nth list_all_length)
  with l show "list_all2 (val_wire d) us ws \<longleftrightarrow> length us = length ws \<and> (\<exists>vs. list_all (val_ok d) vs \<and> ws = map enc_val vs)"
    by simp
qed

lemma skip_list:
  assumes "wire (skip_nested fuel) val_wire depths" and "depths d"
  shows "(\<exists>us. read_n (skip_nested fuel) (unat n) (rdr pre bs d) = Inr (us, r')) \<longleftrightarrow>
    (\<exists>vs rest. length vs = unat n \<and> list_all (val_ok d) vs \<and> bs = concat (map enc_val vs) @ rest \<and>
      r' = rdr (pre @ concat (map enc_val vs)) rest d)" (is "?L \<longleftrightarrow> ?R")
proof
  assume ?L
  then show ?R
    by (auto simp: wire.read_n_wire [OF assms] val_wire_list)
next
  assume ?R
  then obtain vs rest where vs: "length vs = unat n" "list_all (val_ok d) vs" "bs = concat (map enc_val vs) @ rest"
      "r' = rdr (pre @ concat (map enc_val vs)) rest d" by blast
  then show ?L
    by (intro exI [of _ "replicate (unat n) ()"], subst wire.read_n_wire [OF assms])
       (auto simp: val_wire_list intro!: exI [of _ "map enc_val vs"])
qed

lemma skip_map:
  assumes "wire p val_wire depths" and "depths (Suc d)"
  shows "(\<exists>m. skip_entries (\<lambda>_. True) p (unat n) (mrdr pre bs (Suc d) n None) = Inr m \<and> mr_reader m = r') \<longleftrightarrow>
    (\<exists>ks vs rest. length ks = unat n \<and> length vs = unat n \<and> keys_ok None ks \<and> list_all (val_ok (Suc d)) vs \<and>
      bs = entries ks (map enc_val vs) @ rest \<and> r' = rdr (pre @ entries ks (map enc_val vs)) rest d)" (is "?L \<longleftrightarrow> ?R")
proof
  assume ?L
  then obtain ks ws rest where k: "length ks = unat n" "length ws = unat n" "keys_ok None ks"
      "list_all (val_wire (Suc d) ()) ws" "bs = entries ks ws @ rest" "r' = rdr (pre @ entries ks ws) rest d"
    by (auto simp: skip_entries_iff [OF assms])
  moreover from k(4) obtain vs where "list_all (val_ok (Suc d)) vs" "ws = map enc_val vs"
    by (auto simp: val_wire_list)
  ultimately show ?R by (intro exI [of _ ks] exI [of _ vs]) auto
next
  assume ?R
  then obtain ks vs rest where k: "length ks = unat n" "length vs = unat n" "keys_ok None ks" "list_all (val_ok (Suc d)) vs"
      "bs = entries ks (map enc_val vs) @ rest" "r' = rdr (pre @ entries ks (map enc_val vs)) rest d" by blast
  then have "list_all (val_wire (Suc d) ()) (map enc_val vs)"
    unfolding val_wire_list by blast
  with k show ?L
    unfolding skip_entries_iff [OF assms]
    by (intro exI [of _ "mrdr (pre @ entries ks (map enc_val vs)) rest d 0 (if ks = [] then None else Some (last ks))"])
       (auto simp: list_all_iff intro!: exI [of _ ks] exI [of _ "map enc_val vs"])
qed

definition fuel_depths :: "nat \<Rightarrow> nat \<Rightarrow> bool" where
  "fuel_depths fuel d \<longleftrightarrow> d \<le> MAX_DEPTH \<and> MAX_DEPTH < d + fuel"

lemma skip_nested_sound:
  assumes W: "wire (skip_nested fuel) val_wire (fuel_depths fuel)" and d: "fuel_depths (Suc fuel) d"
    and s: "skip_nested (Suc fuel) (rdr pre bs d) = Inr (u, r')"
  shows "\<exists>v rest. val_ok d v \<and> bs = enc_val v @ rest \<and> r' = rdr (pre @ enc_val v) rest d"
proof -
  have deeper: "d < MAX_DEPTH \<Longrightarrow> fuel_depths fuel (Suc d)" using d by (simp add: fuel_depths_def)
  from s obtain major where "r_peek_major (rdr pre bs d) = Inr major" by (auto simp: res_iff)
  with s consider
      v where "r_uint (rdr pre bs d) = Inr (v, r')"
    | b where "r_bytes (rdr pre bs d) = Inr (b, r')"
    | b where "r_text (rdr pre bs d) = Inr (b, r')"
    | n r1 us r2 where "r_array (rdr pre bs d) = Inr (n, r1)" "read_n (skip_nested fuel) (unat n) r1 = Inr (us, r2)" "r' = r_leave r2"
    | m m2 where "r_map (rdr pre bs d) = Inr m"
        "skip_entries (\<lambda>_. True) (skip_nested fuel) (unat (mr_remaining m)) m = Inr m2" "r' = mr_reader m2"
    by (auto simp: res_iff split: if_splits)
  then show ?thesis
  proof cases
    case 1
    then show ?thesis by (intro exI [of _ "VUint v"]) (simp add: cbor_iff)
  next
    case 2
    then show ?thesis by (intro exI [of _ "VBytes b"]) (simp add: cbor_iff)
  next
    case 3
    then show ?thesis by (intro exI [of _ "VText b"]) (simp add: cbor_iff)
  next
    case 4
    from 4(1) obtain rest where a: "d < MAX_DEPTH" "bs = enc_array n @ rest" "r1 = rdr (pre @ enc_array n) rest (Suc d)"
      by (auto simp: cbor_iff)
    from 4(2) skip_list [OF W deeper [OF a(1)], of n "pre @ enc_array n" rest r2]
    obtain vs rest' where vs: "length vs = unat n" "list_all (val_ok (Suc d)) vs" "rest = concat (map enc_val vs) @ rest'"
        "r2 = rdr ((pre @ enc_array n) @ concat (map enc_val vs)) rest' (Suc d)"
      unfolding a(3) by blast
    have "of_nat (length vs) = n" "length vs < 2 ^ 64" using vs(1) unat_u64_less [of n] by simp_all
    with vs a 4(3) show ?thesis by (intro exI [of _ "VArr vs"] exI [of _ rest']) simp
  next
    case 5
    from 5(1) obtain n rest where a: "d < MAX_DEPTH" "bs = enc_map n @ rest" "m = mrdr (pre @ enc_map n) rest (Suc d) n None"
      by (auto simp: cbor_iff)
    from 5(2) skip_map [OF W deeper [OF a(1)], of n "pre @ enc_map n" rest r'] 5(3)
    obtain ks vs rest' where vs: "length ks = unat n" "length vs = unat n" "keys_ok None ks" "list_all (val_ok (Suc d)) vs"
        "rest = entries ks (map enc_val vs) @ rest'" "r' = rdr ((pre @ enc_map n) @ entries ks (map enc_val vs)) rest' d"
      unfolding a(3) mrdr_simps by blast
    have "of_nat (length ks) = n" "length ks < 2 ^ 64" using vs(1) unat_u64_less [of n] by simp_all
    with vs a show ?thesis by (intro exI [of _ "VMap ks vs"] exI [of _ rest']) simp
  qed
qed

lemma skip_nested_complete:
  assumes W: "wire (skip_nested fuel) val_wire (fuel_depths fuel)" and d: "fuel_depths (Suc fuel) d" and v: "val_ok d v"
  shows "skip_nested (Suc fuel) (rdr pre (enc_val v @ rest) d) = Inr ((), rdr (pre @ enc_val v) rest d)"
proof -
  have deeper: "d < MAX_DEPTH \<Longrightarrow> fuel_depths fuel (Suc d)" using d by (simp add: fuel_depths_def)
  show ?thesis
  proof (cases v)
    case (VArr vs)
    let ?n = "of_nat (length vs) :: u64"
    from v VArr have n: "d < MAX_DEPTH" "unat ?n = length vs" by simp_all
    have "\<exists>us. read_n (skip_nested fuel) (unat ?n) (rdr (pre @ enc_array ?n) (concat (map enc_val vs) @ rest) (Suc d)) =
        Inr (us, rdr ((pre @ enc_array ?n) @ concat (map enc_val vs)) rest (Suc d))"
      unfolding skip_list [OF W deeper [OF n(1)]] using v VArr n by auto
    with n(1) show ?thesis by (auto simp: VArr peek_enc cbor_fwd)
  next
    case (VMap ks vs)
    let ?n = "of_nat (length ks) :: u64"
    from v VMap have n: "d < MAX_DEPTH" "unat ?n = length ks" "length vs = length ks" by simp_all
    have "\<exists>m. skip_entries (\<lambda>_. True) (skip_nested fuel) (unat ?n)
        (mrdr (pre @ enc_map ?n) (entries ks (map enc_val vs) @ rest) (Suc d) ?n None) = Inr m \<and>
        mr_reader m = rdr ((pre @ enc_map ?n) @ entries ks (map enc_val vs)) rest d"
      unfolding skip_map [OF W deeper [OF n(1)]] using v VMap n by auto
    with n(1) show ?thesis by (auto simp: VMap peek_enc cbor_fwd)
  qed (use v in \<open>simp_all add: peek_enc cbor_fwd\<close>)
qed

lemma skip_nested_wire: "wire (skip_nested fuel) val_wire (fuel_depths fuel)"
proof (induction fuel)
  case 0
  show ?case by unfold_locales (auto simp: fuel_depths_def)
next
  case (Suc fuel)
  show ?case
  proof
    fix d pre bs x r' assume d: "fuel_depths (Suc fuel) d"
    show "skip_nested (Suc fuel) (rdr pre bs d) = Inr (x, r') \<longleftrightarrow>
        (\<exists>w rest. val_wire d x w \<and> bs = w @ rest \<and> r' = rdr (pre @ w) rest d)"
      using skip_nested_sound [OF Suc d, of pre bs x r'] skip_nested_complete [OF Suc d]
      by (auto simp: val_wire_def simp del: skip_nested.simps)
  qed
qed

interpretation skip: wire skip_value val_wire "\<lambda>d. d \<le> MAX_DEPTH"
proof
  fix d pre bs x r' assume "d \<le> MAX_DEPTH"
  then have "fuel_depths (MAX_DEPTH + 1) d" by (simp add: fuel_depths_def)
  then show "skip_value (rdr pre bs d) = Inr (x, r') \<longleftrightarrow>
      (\<exists>w rest. val_wire d x w \<and> bs = w @ rest \<and> r' = rdr (pre @ w) rest d)"
    unfolding skip_value_def by (rule wire.dec_wire [OF skip_nested_wire])
qed

text \<open>An extension map is any map of values.\<close>

definition ext_wire :: "nat \<Rightarrow> unit \<Rightarrow> bytes \<Rightarrow> bool" where
  "ext_wire d u w \<longleftrightarrow> (\<exists>ks vs. val_ok d (VMap ks vs) \<and> w = enc_val (VMap ks vs))"

interpretation skip_ext: wire skip_extension_map ext_wire "\<lambda>d. d \<le> MAX_DEPTH"
proof
  fix d pre bs x r' assume d: "d \<le> MAX_DEPTH"
  have "skip_extension_map (rdr pre bs d) = Inr (x, r') \<longleftrightarrow> d < MAX_DEPTH \<and>
      (\<exists>n rest. bs = enc_map n @ rest \<and>
        (\<exists>m. skip_entries (\<lambda>_. True) skip_value (unat n) (mrdr (pre @ enc_map n) rest (Suc d) n None) = Inr m \<and> mr_reader m = r'))"
    by (auto simp: skip_extension_map_def res_iff cbor_iff)
  also have "\<dots> \<longleftrightarrow> (\<exists>w rest. ext_wire d x w \<and> bs = w @ rest \<and> r' = rdr (pre @ w) rest d)"
    (is "?L \<longleftrightarrow> ?R")
  proof
    assume ?L
    then obtain n rest where n: "d < MAX_DEPTH" "bs = enc_map n @ rest"
        "\<exists>m. skip_entries (\<lambda>_. True) skip_value (unat n) (mrdr (pre @ enc_map n) rest (Suc d) n None) = Inr m \<and> mr_reader m = r'"
      by blast
    then have "Suc d \<le> MAX_DEPTH" by simp
    from n(3) [unfolded skip_map [OF skip.wire_axioms this]] obtain ks vs rest' where vs: "length ks = unat n" "length vs = unat n"
        "keys_ok None ks" "list_all (val_ok (Suc d)) vs" "rest = entries ks (map enc_val vs) @ rest'"
        "r' = rdr ((pre @ enc_map n) @ entries ks (map enc_val vs)) rest' d" by blast
    have "of_nat (length ks) = n" "length ks < 2 ^ 64" using vs(1) unat_u64_less [of n] by simp_all
    with vs n(1,2) show ?R
      by (intro exI [of _ "enc_val (VMap ks vs)"] exI [of _ rest']) (auto simp: ext_wire_def intro!: exI [of _ ks] exI [of _ vs])
  next
    assume ?R
    then obtain ks vs rest where vs: "val_ok d (VMap ks vs)" "bs = enc_val (VMap ks vs) @ rest" "r' = rdr (pre @ enc_val (VMap ks vs)) rest d"
      unfolding ext_wire_def by blast
    let ?n = "of_nat (length ks) :: u64"
    from vs(1) have n: "Suc d \<le> MAX_DEPTH" "unat ?n = length ks" "length vs = length ks" by simp_all
    have "\<exists>m. skip_entries (\<lambda>_. True) skip_value (unat ?n)
        (mrdr (pre @ enc_map ?n) (entries ks (map enc_val vs) @ rest) (Suc d) ?n None) = Inr m \<and> mr_reader m = r'"
      unfolding skip_map [OF skip.wire_axioms n(1)] using vs n by auto
    with n(1) vs(2) show ?L by auto
  qed
  finally show "skip_extension_map (rdr pre bs d) = Inr (x, r') \<longleftrightarrow>
      (\<exists>w rest. ext_wire d x w \<and> bs = w @ rest \<and> r' = rdr (pre @ w) rest d)" .
qed

text \<open>What may follow the last field: \<open>n\<close> further entries.\<close>

definition ext_tail :: "nat \<Rightarrow> u64 \<Rightarrow> u64 \<Rightarrow> bytes \<Rightarrow> bool" where
  "ext_tail d key n t \<longleftrightarrow> n = 0 \<and> t = [] \<or> n = 1 \<and> (\<exists>w. ext_wire d () w \<and> t = enc_uint key @ w)"

lemma mr_extension_iff:
  assumes "d < MAX_DEPTH" and "l < key"
  shows "mr_extension key (mrdr pre bs (Suc d) n (Some l)) = Inr r' \<longleftrightarrow>
    (\<exists>t rest. ext_tail (Suc d) key n t \<and> bs = t @ rest \<and> r' = rdr (pre @ t) rest d)" (is "?L \<longleftrightarrow> ?R")
proof -
  have d: "Suc d \<le> MAX_DEPTH" using assms(1) by simp
  show ?thesis
  proof (cases "n = 0")
    case True
    then show ?thesis by (auto simp: mr_extension_def mr_fwd ext_tail_def)
  next
    case n: False
    have "?L \<longleftrightarrow> n = 1 \<and> (\<exists>rest. bs = enc_uint key @ rest \<and>
        (\<exists>w rest'. ext_wire (Suc d) () w \<and> rest = w @ rest' \<and> r' = rdr (pre @ enc_uint key @ w) rest' d))"
    proof
      assume ?L
      then obtain m1 m2 m3 u where m: "mr_next_key (mrdr pre bs (Suc d) n (Some l)) = Inr (Some key, m1)"
          "mr_on skip_extension_map m1 = Inr (u, m2)" "mr_next_key m2 = Inr (None, m3)" "r' = mr_reader m3"
        using n unfolding mr_extension_def
        by (cases "mr_next_key (mrdr pre bs (Suc d) n (Some l))")
           (auto simp: res_iff next_key_None_iff split: option.splits if_splits)
      from m(1) obtain rest where rest: "bs = enc_uint key @ rest" "m1 = mrdr (pre @ enc_uint key) rest (Suc d) (n - 1) (Some key)"
        by (auto simp: next_key_Some_iff)
      from m(2) obtain w rest' where w: "ext_wire (Suc d) () w" "rest = w @ rest'"
          "m2 = mrdr (pre @ enc_uint key @ w) rest' (Suc d) (n - 1) (Some key)"
        unfolding rest(2) by (auto simp: mr_on_iff skip_ext.dec_wire [OF d])
      from m(3) have "n - 1 = 0" "m3 = mrdr (pre @ enc_uint key @ w) rest' d 0 (Some key)"
        unfolding w(3) by (auto simp: next_key_None_iff)
      with rest w m(4) show "n = 1 \<and> (\<exists>rest. bs = enc_uint key @ rest \<and>
          (\<exists>w rest'. ext_wire (Suc d) () w \<and> rest = w @ rest' \<and> r' = rdr (pre @ enc_uint key @ w) rest' d))"
        by auto
    next
      assume "n = 1 \<and> (\<exists>rest. bs = enc_uint key @ rest \<and>
          (\<exists>w rest'. ext_wire (Suc d) () w \<and> rest = w @ rest' \<and> r' = rdr (pre @ enc_uint key @ w) rest' d))"
      then obtain w rest where w: "n = 1" "bs = enc_uint key @ w @ rest" "ext_wire (Suc d) () w" "r' = rdr (pre @ enc_uint key @ w) rest d"
        by blast
      have "skip_extension_map (rdr (pre @ enc_uint key) (w @ rest) (Suc d)) = Inr ((), rdr (pre @ enc_uint key @ w) rest (Suc d))"
        using w(3) by (subst skip_ext.dec_wire [OF d]) auto
      then show ?L
        using assms(2) by (simp add: mr_extension_def w(1,2,4) cbor_fwd)
    qed
    then show ?thesis using n unfolding ext_tail_def by auto
  qed
qed

end
