(* ===== verification/Rtp_Manifest.thy ===== *)
theory Rtp_Manifest
  imports Rtp_Skip Rtp_Crypto Rtp_Object
begin

text \<open>
  The manifests of \<open>rtp2-core/src/manifest.rs\<close>: the public manifest a relay may see, the private manifest sealed for
  the recipient, their encodings and checks, and the commitment that ties them together. The nonce drawn for a
  sealing is an argument. Arithmetic wraps, as in a release build.
\<close>

section \<open>Constants\<close>

definition COMMITMENT_DOMAIN :: bytes where "COMMITMENT_DOMAIN = ascii ''RTP2-MANIFEST-COMMITMENT-v1'' @ [0]"
definition MANIFEST_AAD_DOMAIN :: bytes where "MANIFEST_AAD_DOMAIN = ascii ''RTP2-MANIFEST-AAD-v1''"
definition SCOPE_DOMAIN :: bytes where "SCOPE_DOMAIN = ascii ''RTP2-RECIPIENT-SCOPE-v1''"
definition MANIFEST_MAX_OBJECTS :: nat where "MANIFEST_MAX_OBJECTS = 1024"
definition MAX_TEXT_LEN :: nat where "MAX_TEXT_LEN = 4096"

definition ROUTE_BALANCED :: u8 where "ROUTE_BALANCED = 1"
definition ROUTE_STEALTH_TRANSFER :: u8 where "ROUTE_STEALTH_TRANSFER = 3"
definition ROLE_SIDECAR :: u8 where "ROLE_SIDECAR = 5"
definition PADDING_FIXED_BUCKET :: u8 where "PADDING_FIXED_BUCKET = 3"
definition CAPABILITY_SCHEME :: u64 where "CAPABILITY_SCHEME = 1"

definition valid_route_profile :: "u64 \<Rightarrow> bool" where
  "valid_route_profile v \<longleftrightarrow> v \<le> ucast ROUTE_STEALTH_TRANSFER"

definition valid_role :: "u64 \<Rightarrow> bool" where
  "valid_role v \<longleftrightarrow> v \<le> ucast ROLE_SIDECAR"

definition valid_padding :: "u64 \<Rightarrow> bool" where
  "valid_padding v \<longleftrightarrow> v \<le> ucast PADDING_FIXED_BUCKET"

section \<open>Public manifest\<close>

record object_public =
  op_object_id :: bytes
  op_object_role :: u8
  op_ciphertext_root :: bytes
  op_ciphertext_size :: u64
  op_chunk_ciphertext_size :: u64
  op_chunk_count :: u64
  op_padding_policy :: u8

definition op_encode :: "object_public \<Rightarrow> writer \<Rightarrow> writer option" where
  "op_encode ob w = do {
     let m = mw_begin w 7;
     m \<leftarrow> mw_bytes m 0 (op_object_id ob);
     m \<leftarrow> mw_uint m 1 (ucast (op_object_role ob));
     m \<leftarrow> mw_bytes m 2 (op_ciphertext_root ob);
     m \<leftarrow> mw_uint m 3 (op_ciphertext_size ob);
     m \<leftarrow> mw_uint m 4 (op_chunk_ciphertext_size ob);
     m \<leftarrow> mw_uint m 5 (op_chunk_count ob);
     m \<leftarrow> mw_uint m 6 (ucast (op_padding_policy ob));
     mw_end m }"

definition op_decode :: "reader \<Rightarrow> manifest_error + object_public \<times> reader" where
  "op_decode r =
    qm manifest_err (r_map r) (\<lambda>m.
    qm id (mr_field manifest_err 0 (r_bytes_exact 32) m) (\<lambda>(object_id, m).
    qm id (mr_field manifest_err 1 r_uint m) (\<lambda>(object_role, m).
    qm id (mr_field manifest_err 2 (r_bytes_exact 32) m) (\<lambda>(ciphertext_root, m).
    qm id (mr_field manifest_err 3 r_uint m) (\<lambda>(ciphertext_size, m).
    qm id (mr_field manifest_err 4 r_uint m) (\<lambda>(chunk_ciphertext_size, m).
    qm id (mr_field manifest_err 5 r_uint m) (\<lambda>(chunk_count, m).
    qm id (mr_field manifest_err 6 r_uint m) (\<lambda>(padding_policy, m).
    qm id (mr_extension 7 m) (\<lambda>r.
      if \<not> valid_role object_role \<or> \<not> valid_padding padding_policy then Inl MInvalidValue
      else Inr (\<lparr>op_object_id = object_id, op_object_role = ucast object_role, op_ciphertext_root = ciphertext_root,
             op_ciphertext_size = ciphertext_size, op_chunk_ciphertext_size = chunk_ciphertext_size,
             op_chunk_count = chunk_count, op_padding_policy = ucast padding_policy\<rparr>, r))))))))))"

text \<open>\<open>for object in &self.objects { object.encode(inner) }\<close> behind the array header.\<close>

fun encode_all :: "('a \<Rightarrow> writer \<Rightarrow> writer option) \<Rightarrow> 'a list \<Rightarrow> writer \<Rightarrow> writer option" where
  "encode_all enc [] w = Some w"
| "encode_all enc (x # xs) w = do { w \<leftarrow> enc x w; encode_all enc xs w }"

record public_manifest =
  pm_protocol_minor :: u64
  pm_suite_id :: u16
  pm_transfer_id :: bytes
  pm_created_at :: u64
  pm_expires_at :: u64
  pm_route_profile :: u8
  pm_objects :: "object_public list"
  pm_private_hash :: bytes
  pm_capability_scheme :: u64

definition pm_encode :: "public_manifest \<Rightarrow> bytes option" where
  "pm_encode p = do {
     let m = mw_begin [] 10;
     m \<leftarrow> mw_uint m 0 (ucast PROTOCOL_MAJOR);
     m \<leftarrow> mw_uint m 1 (pm_protocol_minor p);
     m \<leftarrow> mw_uint m 2 (ucast (pm_suite_id p));
     m \<leftarrow> mw_bytes m 3 (pm_transfer_id p);
     m \<leftarrow> mw_uint m 4 (pm_created_at p);
     m \<leftarrow> mw_uint m 5 (pm_expires_at p);
     m \<leftarrow> mw_uint m 6 (ucast (pm_route_profile p));
     m \<leftarrow> mw_nested m 7 (\<lambda>w. encode_all op_encode (pm_objects p) (w_array w (of_nat (length (pm_objects p)))));
     m \<leftarrow> mw_bytes m 8 (pm_private_hash p);
     m \<leftarrow> mw_uint m 9 (pm_capability_scheme p);
     mw_end m }"

text \<open>The loop of \<open>validate\<close> over the objects, with the identifiers seen so far.\<close>

fun validate_objects :: "bytes set \<Rightarrow> object_public list \<Rightarrow> manifest_error + unit" where
  "validate_objects seen [] = Inr ()"
| "validate_objects seen (ob # obs) =
    (if op_object_id ob \<in> seen then Inl MInvalidValue
     else
       qm id (ok_or MInvalidValue (checked_sub (op_chunk_ciphertext_size ob) (of_nat AEAD_TAG_LEN))) (\<lambda>plaintext_chunk.
       if (ucast plaintext_chunk :: u32) \<notin> set ALLOWED_CHUNK_SIZES then Inl MInvalidValue
       else if op_chunk_count ob = 0 then
         (if op_ciphertext_size ob \<noteq> 0 then Inl MInvalidValue
          else validate_objects (insert (op_object_id ob) seen) obs)
       else
         let max_size = op_chunk_count ob * op_chunk_ciphertext_size ob;
             min_size = max_size - op_chunk_ciphertext_size ob + 1 + of_nat AEAD_TAG_LEN
         in if op_ciphertext_size ob > max_size \<or> op_ciphertext_size ob < min_size then Inl MInvalidValue
            else validate_objects (insert (op_object_id ob) seen) obs))"

definition pm_validate :: "public_manifest \<Rightarrow> manifest_error + unit" where
  "pm_validate p =
    (if pm_objects p = [] then Inl MInvalidValue
     else if pm_expires_at p \<le> pm_created_at p then Inl MInvalidValue
     else if pm_capability_scheme p \<noteq> CAPABILITY_SCHEME then Inl MInvalidValue
     else if length (filter (\<lambda>ob. op_object_role ob = ROLE_PRIMARY) (pm_objects p)) \<noteq> 1 then Inl MInvalidValue
     else validate_objects {} (pm_objects p))"

definition r_objects_public :: "reader \<Rightarrow> manifest_error + object_public list \<times> reader" where
  "r_objects_public = r_bounded manifest_err TooManyObjects MANIFEST_MAX_OBJECTS op_decode"

definition pm_decode :: "bytes \<Rightarrow> manifest_error + public_manifest" where
  "pm_decode bs =
    qm manifest_err (r_new bs) (\<lambda>r.
    qm manifest_err (r_map r) (\<lambda>m.
    qm id (mr_field manifest_err 0 r_uint m) (\<lambda>(major, m).
    if major \<noteq> ucast PROTOCOL_MAJOR then Inl UnsupportedVersion else
    qm id (mr_field manifest_err 1 r_uint m) (\<lambda>(protocol_minor, m).
    qm id (mr_field manifest_err 2 r_uint m) (\<lambda>(suite_id, m).
    if suite_id \<noteq> ucast SUITE_ID then Inl UnsupportedSuite else
    qm id (mr_field manifest_err 3 (r_bytes_exact 32) m) (\<lambda>(transfer_id, m).
    qm id (mr_field manifest_err 4 r_uint m) (\<lambda>(created_at, m).
    qm id (mr_field manifest_err 5 r_uint m) (\<lambda>(expires_at, m).
    qm id (mr_field manifest_err 6 r_uint m) (\<lambda>(route_profile, m).
    if \<not> valid_route_profile route_profile then Inl MInvalidValue else
    qm manifest_err (mr_expect_key 7 m) (\<lambda>m.
    qm id (mr_on r_objects_public m) (\<lambda>(objects, m).
    qm id (mr_field manifest_err 8 (r_bytes_exact 32) m) (\<lambda>(private_hash, m).
    qm id (mr_field manifest_err 9 r_uint m) (\<lambda>(capability_scheme, m).
    qm id (mr_extension 10 m) (\<lambda>r.
    qm manifest_err (r_finish r) (\<lambda>_.
    let manifest = \<lparr>pm_protocol_minor = protocol_minor, pm_suite_id = ucast suite_id, pm_transfer_id = transfer_id,
          pm_created_at = created_at, pm_expires_at = expires_at, pm_route_profile = ucast route_profile,
          pm_objects = objects, pm_private_hash = private_hash, pm_capability_scheme = capability_scheme\<rparr>
    in qm id (pm_validate manifest) (\<lambda>_. Inr manifest))))))))))))))))"

definition pm_primary :: "public_manifest \<Rightarrow> object_public option" where
  "pm_primary p = List.find (\<lambda>ob. op_object_role ob = ROLE_PRIMARY) (pm_objects p)"

definition pm_commitment :: "prims \<Rightarrow> public_manifest \<Rightarrow> bytes option" where
  "pm_commitment C p = do {
     e \<leftarrow> pm_encode p;
     Some (blake3 C (COMMITMENT_DOMAIN @ e @ pm_private_hash p)) }"

section \<open>Private manifest\<close>

record recipient_scope =
  rs_scope_type :: u64
  rs_id :: bytes

definition TYPE_DEVICE :: u64 where "TYPE_DEVICE = 0"

definition rs_device :: "bytes \<Rightarrow> recipient_scope" where
  "rs_device device_id = \<lparr>rs_scope_type = TYPE_DEVICE, rs_id = device_id\<rparr>"

definition rs_encode :: "recipient_scope \<Rightarrow> writer \<Rightarrow> writer option" where
  "rs_encode s w = do {
     let m = mw_begin w 2;
     m \<leftarrow> mw_uint m 0 (rs_scope_type s);
     m \<leftarrow> mw_bytes m 1 (rs_id s);
     mw_end m }"

definition rs_decode :: "reader \<Rightarrow> manifest_error + recipient_scope \<times> reader" where
  "rs_decode r =
    qm manifest_err (r_map r) (\<lambda>m.
    qm id (mr_field manifest_err 0 r_uint m) (\<lambda>(scope_type, m).
    qm id (mr_field manifest_err 1 r_bytes m) (\<lambda>(ident, m).
    qm id (mr_no_more manifest_err UnknownCriticalField m) (\<lambda>m.
    if length ident > MAX_TEXT_LEN then Inl MInvalidValue
    else Inr (\<lparr>rs_scope_type = scope_type, rs_id = ident\<rparr>, mr_reader m)))))"

definition rs_hash :: "prims \<Rightarrow> recipient_scope \<Rightarrow> bytes option" where
  "rs_hash C s = do { e \<leftarrow> rs_encode s []; Some (blake3 C (SCOPE_DOMAIN @ e)) }"

record key_policy =
  kp_mode :: u64
  kp_minimum_security_level :: u64
  kp_pqc_required :: bool

record retention_policy =
  rp_expires_at :: u64
  rp_view_once :: bool
  rp_allow_local_save :: bool

record object_private =
  ov_object_id :: bytes
  ov_object_role :: u8
  ov_relationship_to_primary :: u64

definition ov_encode :: "object_private \<Rightarrow> writer \<Rightarrow> writer option" where
  "ov_encode ob w = do {
     let m = mw_begin w 3;
     m \<leftarrow> mw_bytes m 0 (ov_object_id ob);
     m \<leftarrow> mw_uint m 1 (ucast (ov_object_role ob));
     m \<leftarrow> mw_uint m 2 (ov_relationship_to_primary ob);
     mw_end m }"

definition ov_decode :: "reader \<Rightarrow> manifest_error + object_private \<times> reader" where
  "ov_decode r =
    qm manifest_err (r_map r) (\<lambda>m.
    qm id (mr_field manifest_err 0 (r_bytes_exact 32) m) (\<lambda>(object_id, m).
    qm id (mr_field manifest_err 1 r_uint m) (\<lambda>(object_role, m).
    qm id (mr_field manifest_err 2 r_uint m) (\<lambda>(relationship, m).
    qm id (skip_entries (\<lambda>k. 3 \<le> k \<and> k \<le> 5) skip_value (unat (mr_remaining m)) m) (\<lambda>m.
    if \<not> valid_role object_role then Inl MInvalidValue
    else Inr (\<lparr>ov_object_id = object_id, ov_object_role = ucast object_role,
           ov_relationship_to_primary = relationship\<rparr>, mr_reader m))))))"

record private_manifest =
  pv_sender_account_id :: bytes
  pv_sender_device_id :: bytes
  pv_recipient_scope :: recipient_scope
  pv_display_name :: bytes
  pv_original_filename :: bytes
  pv_mime_type :: bytes
  pv_logical_plaintext_size :: u64
  pv_plaintext_digest :: bytes
  pv_created_at :: u64
  pv_user_caption :: "bytes option"
  pv_objects :: "object_private list"
  pv_key_policy :: key_policy
  pv_retention_policy :: retention_policy

definition kp_encode :: "key_policy \<Rightarrow> writer \<Rightarrow> writer option" where
  "kp_encode k w = do {
     let m = mw_begin w 3;
     m \<leftarrow> mw_uint m 0 (kp_mode k);
     m \<leftarrow> mw_uint m 1 (kp_minimum_security_level k);
     m \<leftarrow> mw_boolean m 2 (kp_pqc_required k);
     mw_end m }"

definition rp_encode :: "retention_policy \<Rightarrow> writer \<Rightarrow> writer option" where
  "rp_encode p w = do {
     let m = mw_begin w 3;
     m \<leftarrow> mw_uint m 0 (rp_expires_at p);
     m \<leftarrow> mw_boolean m 1 (rp_view_once p);
     m \<leftarrow> mw_boolean m 2 (rp_allow_local_save p);
     mw_end m }"

definition pv_map :: "private_manifest \<Rightarrow> bytes option" where
  "pv_map p = do {
     let m = mw_begin [] (if pv_user_caption p \<noteq> None then 13 else 12);
     m \<leftarrow> mw_bytes m 0 (pv_sender_account_id p);
     m \<leftarrow> mw_bytes m 1 (pv_sender_device_id p);
     m \<leftarrow> mw_nested m 2 (rs_encode (pv_recipient_scope p));
     m \<leftarrow> mw_text m 3 (pv_display_name p);
     m \<leftarrow> mw_text m 4 (pv_original_filename p);
     m \<leftarrow> mw_text m 5 (pv_mime_type p);
     m \<leftarrow> mw_uint m 6 (pv_logical_plaintext_size p);
     m \<leftarrow> mw_bytes m 7 (pv_plaintext_digest p);
     m \<leftarrow> mw_uint m 8 (pv_created_at p);
     m \<leftarrow> (case pv_user_caption p of Some caption \<Rightarrow> mw_text m 9 caption | None \<Rightarrow> Some m);
     m \<leftarrow> mw_nested m 10 (\<lambda>w. encode_all ov_encode (pv_objects p) (w_array w (of_nat (length (pv_objects p)))));
     m \<leftarrow> mw_nested m 11 (kp_encode (pv_key_policy p));
     m \<leftarrow> mw_nested m 12 (rp_encode (pv_retention_policy p));
     mw_end m }"

definition pv_encode :: "private_manifest \<Rightarrow> (manifest_error + bytes) option" where
  "pv_encode p =
    (if length (pv_display_name p) > MAX_TEXT_LEN \<or> length (pv_original_filename p) > MAX_TEXT_LEN \<or>
        length (pv_mime_type p) > MAX_TEXT_LEN then Some (Inl TextTooLong)
     else if (case pv_user_caption p of Some caption \<Rightarrow> length caption > MAX_TEXT_LEN | None \<Rightarrow> False)
     then Some (Inl TextTooLong)
     else if length (pv_objects p) > MANIFEST_MAX_OBJECTS then Some (Inl TooManyObjects)
     else map_option Inr (pv_map p))"

definition pv_validate :: "private_manifest \<Rightarrow> manifest_error + unit" where
  "pv_validate p =
    (if pv_objects p = [] then Inl MInvalidValue
     else if length (filter (\<lambda>ob. ov_object_role ob = ROLE_PRIMARY) (pv_objects p)) \<noteq> 1 then Inl MInvalidValue
     else if \<not> kp_pqc_required (pv_key_policy p) \<or> kp_minimum_security_level (pv_key_policy p) = 0 then Inl MInvalidValue
     else Inr ())"

definition kp_decode :: "reader \<Rightarrow> manifest_error + key_policy \<times> reader" where
  "kp_decode r =
    qm manifest_err (r_map r) (\<lambda>m.
    qm id (mr_field manifest_err 0 r_uint m) (\<lambda>(mode, m).
    qm id (mr_field manifest_err 1 r_uint m) (\<lambda>(level, m).
    qm id (mr_field manifest_err 2 r_boolean m) (\<lambda>(pqc, m).
    qm id (mr_no_more manifest_err UnknownCriticalField m) (\<lambda>m.
    Inr (\<lparr>kp_mode = mode, kp_minimum_security_level = level, kp_pqc_required = pqc\<rparr>, mr_reader m))))))"

definition rp_decode :: "reader \<Rightarrow> manifest_error + retention_policy \<times> reader" where
  "rp_decode r =
    qm manifest_err (r_map r) (\<lambda>m.
    qm id (mr_field manifest_err 0 r_uint m) (\<lambda>(expires_at, m).
    qm id (mr_field manifest_err 1 r_boolean m) (\<lambda>(view_once, m).
    qm id (mr_field manifest_err 2 r_boolean m) (\<lambda>(allow_local_save, m).
    qm id (mr_no_more manifest_err UnknownCriticalField m) (\<lambda>m.
    Inr (\<lparr>rp_expires_at = expires_at, rp_view_once = view_once, rp_allow_local_save = allow_local_save\<rparr>, mr_reader m))))))"

text \<open>The optional caption under key 9, followed by the mandatory key 10.\<close>

definition r_caption :: "map_reader \<Rightarrow> manifest_error + bytes option \<times> map_reader" where
  "r_caption m =
    qm manifest_err (mr_next_key m) (\<lambda>(k, m).
    qm id (ok_or MEncoding k) (\<lambda>key.
    qm id (if key = 9 then
        qm manifest_err (mr_on r_text m) (\<lambda>(caption, m).
        qm manifest_err (mr_next_key m) (\<lambda>(k, m).
        qm id (ok_or MEncoding k) (\<lambda>key. Inr (Some caption, key, m))))
      else Inr (None, key, m)) (\<lambda>(caption, key, m).
    if key \<noteq> 10 then Inl MEncoding else Inr (caption, m))))"

definition r_objects_private :: "reader \<Rightarrow> manifest_error + object_private list \<times> reader" where
  "r_objects_private = r_bounded manifest_err TooManyObjects MANIFEST_MAX_OBJECTS ov_decode"

definition pv_decode :: "bytes \<Rightarrow> manifest_error + private_manifest" where
  "pv_decode bs =
    qm manifest_err (r_new bs) (\<lambda>r.
    qm manifest_err (r_map r) (\<lambda>m.
    qm id (mr_field manifest_err 0 (r_bytes_exact 32) m) (\<lambda>(sender_account_id, m).
    qm id (mr_field manifest_err 1 (r_bytes_exact 32) m) (\<lambda>(sender_device_id, m).
    qm manifest_err (mr_expect_key 2 m) (\<lambda>m.
    qm id (mr_on rs_decode m) (\<lambda>(scope, m).
    qm id (mr_field manifest_err 3 r_text m) (\<lambda>(display_name, m).
    qm id (mr_field manifest_err 4 r_text m) (\<lambda>(original_filename, m).
    qm id (mr_field manifest_err 5 r_text m) (\<lambda>(mime_type, m).
    qm id (mr_field manifest_err 6 r_uint m) (\<lambda>(logical_plaintext_size, m).
    qm id (mr_field manifest_err 7 (r_bytes_exact 32) m) (\<lambda>(plaintext_digest, m).
    qm id (mr_field manifest_err 8 r_uint m) (\<lambda>(created_at, m).
    qm id (r_caption m) (\<lambda>(user_caption, m).
    qm id (mr_on r_objects_private m) (\<lambda>(objects, m).
    qm manifest_err (mr_expect_key 11 m) (\<lambda>m.
    qm id (mr_on kp_decode m) (\<lambda>(key_policy, m).
    qm manifest_err (mr_expect_key 12 m) (\<lambda>m.
    qm id (mr_on rp_decode m) (\<lambda>(retention_policy, m).
    qm id (mr_extension 13 m) (\<lambda>r.
    qm manifest_err (r_finish r) (\<lambda>_.
    let manifest = \<lparr>pv_sender_account_id = sender_account_id, pv_sender_device_id = sender_device_id,
          pv_recipient_scope = scope, pv_display_name = display_name, pv_original_filename = original_filename,
          pv_mime_type = mime_type, pv_logical_plaintext_size = logical_plaintext_size,
          pv_plaintext_digest = plaintext_digest, pv_created_at = created_at, pv_user_caption = user_caption,
          pv_objects = objects, pv_key_policy = key_policy, pv_retention_policy = retention_policy\<rparr>
    in qm id (pv_validate manifest) (\<lambda>_. Inr manifest)))))))))))))))))))))"

section \<open>Sealing\<close>

definition manifest_aad :: "prims \<Rightarrow> bytes \<Rightarrow> bytes \<Rightarrow> bytes \<Rightarrow> recipient_scope \<Rightarrow> bytes option" where
  "manifest_aad C transfer_id primary_object_id sender_device_id scope = do {
     h \<leftarrow> rs_hash C scope;
     Some (MANIFEST_AAD_DOMAIN @ transfer_id @ primary_object_id @ to_be SUITE_ID @ sender_device_id @ h) }"

record sealed_manifest =
  sm_nonce :: bytes
  sm_ciphertext :: bytes

definition sm_ciphertext_hash :: "prims \<Rightarrow> sealed_manifest \<Rightarrow> bytes" where
  "sm_ciphertext_hash C s = blake3 C (sm_nonce s @ sm_ciphertext s)"

definition seal_private_manifest ::
  "prims \<Rightarrow> bytes \<Rightarrow> private_manifest \<Rightarrow> bytes \<Rightarrow> bytes \<Rightarrow> bytes \<Rightarrow> (manifest_error + sealed_manifest) option" where
  "seal_private_manifest C nonce manifest manifest_key transfer_id primary_object_id =
    (case pv_validate manifest of
       Inl e \<Rightarrow> Some (Inl e)
     | Inr _ \<Rightarrow> do {
         encoded \<leftarrow> pv_encode manifest;
         (case encoded of
            Inl e \<Rightarrow> Some (Inl e)
          | Inr plaintext \<Rightarrow> do {
              aad \<leftarrow> manifest_aad C transfer_id primary_object_id (pv_sender_device_id manifest) (pv_recipient_scope manifest);
              Some (qm id (ok_or MCrypto (aead_encrypt C manifest_key nonce aad plaintext)) (\<lambda>ciphertext.
                Inr \<lparr>sm_nonce = nonce, sm_ciphertext = ciphertext\<rparr>)) }) })"

definition open_private_manifest ::
  "prims \<Rightarrow> sealed_manifest \<Rightarrow> bytes \<Rightarrow> bytes \<Rightarrow> bytes \<Rightarrow> bytes \<Rightarrow> recipient_scope \<Rightarrow>
    (manifest_error + private_manifest) option" where
  "open_private_manifest C sealed manifest_key transfer_id primary_object_id sender_device_id scope = do {
     aad \<leftarrow> manifest_aad C transfer_id primary_object_id sender_device_id scope;
     Some (qm id (ok_or MCrypto (aead_decrypt C manifest_key (sm_nonce sealed) aad (sm_ciphertext sealed))) (\<lambda>plaintext.
       qm id (pv_decode plaintext) (\<lambda>manifest.
       if pv_sender_device_id manifest \<noteq> sender_device_id \<or> pv_recipient_scope manifest \<noteq> scope then Inl MInvalidValue
       else Inr manifest))) }"

definition verify_commitment ::
  "prims \<Rightarrow> public_manifest \<Rightarrow> sealed_manifest \<Rightarrow> bytes \<Rightarrow> (manifest_error + unit) option" where
  "verify_commitment C public sealed expected_commitment =
    (if \<not> ct_eq (pm_private_hash public) (sm_ciphertext_hash C sealed) then Some (Inl CommitmentMismatch)
     else do {
       c \<leftarrow> pm_commitment C public;
       Some (if \<not> ct_eq c expected_commitment then Inl CommitmentMismatch else Inr ()) })"

section \<open>Wire format of the public manifest\<close>

definition op_ok :: "object_public \<Rightarrow> bool" where
  "op_ok ob \<longleftrightarrow> length (op_object_id ob) = 32 \<and> length (op_ciphertext_root ob) = 32 \<and>
    valid_role (ucast (op_object_role ob)) \<and> valid_padding (ucast (op_padding_policy ob))"

definition op_fields :: "object_public \<Rightarrow> bytes" where
  "op_fields ob = enc_uint 0 @ enc_bytes (op_object_id ob) @ enc_uint 1 @ enc_uint (ucast (op_object_role ob)) @
    enc_uint 2 @ enc_bytes (op_ciphertext_root ob) @ enc_uint 3 @ enc_uint (op_ciphertext_size ob) @
    enc_uint 4 @ enc_uint (op_chunk_ciphertext_size ob) @ enc_uint 5 @ enc_uint (op_chunk_count ob) @
    enc_uint 6 @ enc_uint (ucast (op_padding_policy ob))"

definition op_wire :: "nat \<Rightarrow> object_public \<Rightarrow> bytes \<Rightarrow> bool" where
  "op_wire d ob w \<longleftrightarrow> op_ok ob \<and> (\<exists>n t. ext_tail (Suc d) 7 (n - 7) t \<and> w = enc_map n @ op_fields ob @ t)"

lemma op_encode_eq: "op_encode ob w = Some (w @ enc_map 7 @ op_fields ob)"
  by (simp add: op_encode_def mw_simps op_fields_def)

lemma valid_u8:
  "valid_role v \<Longrightarrow> ucast (ucast v :: u8) = v" "valid_padding v \<Longrightarrow> ucast (ucast v :: u8) = v"
  "valid_route_profile v \<Longrightarrow> ucast (ucast v :: u8) = v"
  by (auto simp: valid_role_def valid_padding_def valid_route_profile_def ROLE_SIDECAR_def PADDING_FIXED_BUCKET_def
      ROUTE_STEALTH_TRANSFER_def word_le_nat_alt intro!: ucast_ucast_u64)

lemma ext_tail_count: "ext_tail d k (n - m) t \<Longrightarrow> n = m \<or> n = m + 1"
  by (auto simp: ext_tail_def algebra_simps)

interpretation ops: wire op_decode op_wire "\<lambda>d. d < MAX_DEPTH"
proof
  fix d pre bs ob r' assume d: "d < MAX_DEPTH"
  note ext = mr_extension_iff [OF d]
  show "op_decode (rdr pre bs d) = Inr (ob, r') \<longleftrightarrow> (\<exists>w rest. op_wire d ob w \<and> bs = w @ rest \<and> r' = rdr (pre @ w) rest d)"
    (is "?L \<longleftrightarrow> ?R")
  proof
    assume ?L
    then show ?R
      by (auto simp: op_decode_def res_iff cbor_iff ext op_wire_def op_ok_def op_fields_def valid_u8 split: if_splits)
  next
    assume ?R
    then obtain n t rest where w: "op_ok ob" "ext_tail (Suc d) 7 (n - 7) t" "bs = enc_map n @ op_fields ob @ t @ rest"
        "r' = rdr (pre @ enc_map n @ op_fields ob @ t) rest d" by (auto simp: op_wire_def)
    have "mr_extension 7 (mrdr (pre @ enc_map n @ op_fields ob) (t @ rest) (Suc d) (n - 7) (Some 6)) =
        Inr (rdr (pre @ enc_map n @ op_fields ob @ t) rest d)"
      using w(2) by (subst ext) auto
    moreover have "n = 7 \<or> n = 8" using ext_tail_count [OF w(2)] by simp
    ultimately show ?L
      using d w by (cases ob) (auto simp: op_decode_def op_fields_def op_ok_def cbor_fwd ucast_up_u64)
  qed
qed

lemma encode_all_eq: "(\<And>x w. enc x w = Some (w @ f x)) \<Longrightarrow> encode_all enc xs w = Some (w @ concat (map f xs))"
  by (induction xs arbitrary: w) simp_all

definition pm_ok :: "public_manifest \<Rightarrow> bool" where
  "pm_ok p \<longleftrightarrow> pm_suite_id p = SUITE_ID \<and> length (pm_transfer_id p) = 32 \<and>
    valid_route_profile (ucast (pm_route_profile p)) \<and> length (pm_objects p) \<le> MANIFEST_MAX_OBJECTS \<and> list_all op_ok (pm_objects p) \<and>
    length (pm_private_hash p) = 32"

definition pm_bytes :: "public_manifest \<Rightarrow> u64 \<Rightarrow> bytes \<Rightarrow> bytes \<Rightarrow> bytes" where
  "pm_bytes p n objects t = enc_map n @ enc_uint 0 @ enc_uint (ucast PROTOCOL_MAJOR) @ enc_uint 1 @ enc_uint (pm_protocol_minor p) @
    enc_uint 2 @ enc_uint (ucast (pm_suite_id p)) @ enc_uint 3 @ enc_bytes (pm_transfer_id p) @
    enc_uint 4 @ enc_uint (pm_created_at p) @ enc_uint 5 @ enc_uint (pm_expires_at p) @
    enc_uint 6 @ enc_uint (ucast (pm_route_profile p)) @ enc_uint 7 @ objects @
    enc_uint 8 @ enc_bytes (pm_private_hash p) @ enc_uint 9 @ enc_uint (pm_capability_scheme p) @ t"

definition pm_wire :: "public_manifest \<Rightarrow> bytes \<Rightarrow> bool" where
  "pm_wire p bs \<longleftrightarrow> (\<exists>n objects t. list_wire op_wire 1 (pm_objects p) objects \<and> ext_tail 1 10 (n - 10) t \<and>
    bs = pm_bytes p n objects t)"

definition op_list :: "object_public list \<Rightarrow> bytes" where
  "op_list obs = enc_array (of_nat (length obs)) @ concat (map (\<lambda>ob. enc_map 7 @ op_fields ob) obs)"

lemma pm_encode_eq: "pm_encode p = Some (pm_bytes p 10 (op_list (pm_objects p)) [])"
  by (simp add: pm_encode_def mw_simps encode_all_eq [where f = "\<lambda>ob. enc_map 7 @ op_fields ob"] op_encode_eq pm_bytes_def op_list_def)

lemma op_list_wire: "list_all op_ok obs \<Longrightarrow> list_wire op_wire d obs (op_list obs)"
  unfolding list_wire_def op_list_def
  by (intro exI [of _ "map (\<lambda>ob. enc_map 7 @ op_fields ob) obs"])
     (auto simp: list_all2_map2 list_all2_same list_all_iff op_wire_def ext_tail_def)

lemma list_wire_ok: "(\<And>d x w. W d x w \<Longrightarrow> P x) \<Longrightarrow> list_wire W d xs w \<Longrightarrow> list_all P xs"
  by (auto simp: list_wire_def list_all2_conv_all_nth list_all_length)

lemma r_objects_public_iff: "r_objects_public (rdr pre bs (Suc 0)) = Inr (obs, r') \<longleftrightarrow>
    length obs \<le> MANIFEST_MAX_OBJECTS \<and> (\<exists>w rest. list_wire op_wire (Suc 0) obs w \<and> bs = w @ rest \<and> r' = rdr (pre @ w) rest (Suc 0))"
  unfolding r_objects_public_def by (rule ops.bounded_wire) (simp_all add: MAX_DEPTH_def MANIFEST_MAX_OBJECTS_def)

lemma pm_decode_sound:
  assumes "pm_decode bs = Inr p"
  shows "length bs \<le> MAX_CONTROL_SIZE \<and> pm_ok p \<and> pm_validate p = Inr () \<and> pm_wire p bs"
proof -
  have ok: "list_wire op_wire d obs w \<Longrightarrow> list_all op_ok obs" for d obs w
    by (rule list_wire_ok) (auto simp: op_wire_def)
  have ext: "mr_extension 10 (mrdr pre bs (Suc 0) n (Some 9)) = Inr r' \<longleftrightarrow>
      (\<exists>t rest. ext_tail 1 10 n t \<and> bs = t @ rest \<and> r' = rdr (pre @ t) rest 0)" for pre bs n r'
    by (subst mr_extension_iff) (simp_all add: MAX_DEPTH_def)
  show ?thesis
    using assms ok
    by (auto simp: pm_decode_def res_iff cbor_iff r_objects_public_iff ext pm_wire_def pm_ok_def pm_bytes_def Let_def valid_u8 SUITE_ID_def
        split: if_splits) blast
qed

lemma pm_decode_complete:
  assumes "length bs \<le> MAX_CONTROL_SIZE" "pm_ok p" "pm_validate p = Inr ()" "pm_wire p bs"
  shows "pm_decode bs = Inr p"
proof -
  from assms(4) obtain n objects t where w: "list_wire op_wire 1 (pm_objects p) objects" "ext_tail 1 10 (n - 10) t"
      "bs = pm_bytes p n objects t" by (auto simp: pm_wire_def)
  have ext: "mr_extension 10 (mrdr pre t (Suc 0) (n - 10) (Some 9)) = Inr (rdr (pre @ t) [] 0)" for pre
    using w(2) by (subst mr_extension_iff) (auto simp: MAX_DEPTH_def)
  have obs: "r_objects_public (rdr pre (objects @ rest) (Suc 0)) = Inr (pm_objects p, rdr (pre @ objects) rest (Suc 0))" for pre rest
    using w(1) assms(2) by (subst r_objects_public_iff) (auto simp: pm_ok_def)
  have "n = 10 \<or> n = 11" using ext_tail_count [OF w(2)] by simp
  then show ?thesis
    using assms(1-3) ext obs
    by (cases p) (auto simp: pm_decode_def w(3) pm_bytes_def pm_ok_def r_new_eq cbor_fwd MAX_DEPTH_def ucast_up_u64 SUITE_ID_def)
qed

section \<open>Wire format of the private manifest\<close>

definition rs_bytes :: "recipient_scope \<Rightarrow> bytes" where
  "rs_bytes s = enc_map 2 @ enc_uint 0 @ enc_uint (rs_scope_type s) @ enc_uint 1 @ enc_bytes (rs_id s)"

definition kp_bytes :: "key_policy \<Rightarrow> bytes" where
  "kp_bytes k = enc_map 3 @ enc_uint 0 @ enc_uint (kp_mode k) @ enc_uint 1 @ enc_uint (kp_minimum_security_level k) @
    enc_uint 2 @ enc_bool (kp_pqc_required k)"

definition rp_bytes :: "retention_policy \<Rightarrow> bytes" where
  "rp_bytes p = enc_map 3 @ enc_uint 0 @ enc_uint (rp_expires_at p) @ enc_uint 1 @ enc_bool (rp_view_once p) @
    enc_uint 2 @ enc_bool (rp_allow_local_save p)"

lemma scope_encode_eq: "rs_encode s w = Some (w @ rs_bytes s)" "kp_encode k w = Some (w @ kp_bytes k)" "rp_encode p w = Some (w @ rp_bytes p)"
  by (simp_all add: rs_encode_def kp_encode_def rp_encode_def mw_simps rs_bytes_def kp_bytes_def rp_bytes_def)

interpretation scopes: codec rs_bytes rs_decode "\<lambda>s. length (rs_id s) \<le> MAX_TEXT_LEN" 1
proof
  fix d pre bs s r' assume d: "d + 1 \<le> MAX_DEPTH"
  show "rs_decode (rdr pre bs d) = Inr (s, r') \<longleftrightarrow>
      length (rs_id s) \<le> MAX_TEXT_LEN \<and> (\<exists>rest. bs = rs_bytes s @ rest \<and> r' = rdr (pre @ rs_bytes s) rest d)" (is "?L \<longleftrightarrow> ?R")
  proof
    assume ?L
    then show ?R by (auto simp: rs_decode_def rs_bytes_def res_iff cbor_iff split: if_splits)
  next
    assume ?R
    with d show ?L by (cases s) (auto simp: rs_decode_def rs_bytes_def cbor_fwd MAX_TEXT_LEN_def)
  qed
qed (simp add: MAX_DEPTH_def)

interpretation key_policies: codec kp_bytes kp_decode "\<lambda>_. True" 1
proof
  fix d pre bs k r' assume d: "d + 1 \<le> MAX_DEPTH"
  show "kp_decode (rdr pre bs d) = Inr (k, r') \<longleftrightarrow> True \<and> (\<exists>rest. bs = kp_bytes k @ rest \<and> r' = rdr (pre @ kp_bytes k) rest d)"
    (is "?L \<longleftrightarrow> ?R")
  proof
    assume ?L
    then show ?R by (auto simp: kp_decode_def kp_bytes_def res_iff cbor_iff split: if_splits)
  next
    assume ?R
    with d show ?L by (cases k) (auto simp: kp_decode_def kp_bytes_def cbor_fwd)
  qed
qed (simp add: MAX_DEPTH_def)

interpretation retention_policies: codec rp_bytes rp_decode "\<lambda>_. True" 1
proof
  fix d pre bs p r' assume d: "d + 1 \<le> MAX_DEPTH"
  show "rp_decode (rdr pre bs d) = Inr (p, r') \<longleftrightarrow> True \<and> (\<exists>rest. bs = rp_bytes p @ rest \<and> r' = rdr (pre @ rp_bytes p) rest d)"
    (is "?L \<longleftrightarrow> ?R")
  proof
    assume ?L
    then show ?R by (auto simp: rp_decode_def rp_bytes_def res_iff cbor_iff split: if_splits)
  next
    assume ?R
    with d show ?L by (cases p) (auto simp: rp_decode_def rp_bytes_def cbor_fwd)
  qed
qed (simp add: MAX_DEPTH_def)

definition ov_ok :: "object_private \<Rightarrow> bool" where
  "ov_ok ob \<longleftrightarrow> length (ov_object_id ob) = 32 \<and> valid_role (ucast (ov_object_role ob))"

definition ov_fields :: "object_private \<Rightarrow> bytes" where
  "ov_fields ob = enc_uint 0 @ enc_bytes (ov_object_id ob) @ enc_uint 1 @ enc_uint (ucast (ov_object_role ob)) @
    enc_uint 2 @ enc_uint (ov_relationship_to_primary ob)"

text \<open>Entries under the optional keys, dropped by the decoder.\<close>

definition opt_tail :: "nat \<Rightarrow> u64 \<Rightarrow> bytes \<Rightarrow> bool" where
  "opt_tail d n t \<longleftrightarrow> (\<exists>ks ws. length ks = unat n \<and> length ws = unat n \<and> keys_ok (Some 2) ks \<and>
    list_all (\<lambda>k. 3 \<le> k \<and> k \<le> 5) ks \<and> list_all (val_wire d ()) ws \<and> t = entries ks ws)"

definition ov_wire :: "nat \<Rightarrow> object_private \<Rightarrow> bytes \<Rightarrow> bool" where
  "ov_wire d ob w \<longleftrightarrow> ov_ok ob \<and> (\<exists>n t. opt_tail (Suc d) (n - 3) t \<and> w = enc_map n @ ov_fields ob @ t)"

lemma ov_encode_eq: "ov_encode ob w = Some (w @ enc_map 3 @ ov_fields ob)"
  by (simp add: ov_encode_def mw_simps ov_fields_def)

lemma opt_tail_count:
  assumes "opt_tail d (n - 3) t"
  shows "n \<noteq> 0 \<and> n \<noteq> 1 \<and> n \<noteq> 2"
proof -
  from assms obtain ks :: "u64 list" where ks: "length ks = unat (n - 3)" "sorted_wrt (<) ks" "list_all (\<lambda>k. 3 \<le> k \<and> k \<le> 5) ks"
    by (auto simp: opt_tail_def keys_ok_def)
  have "distinct ks" using ks(2) by (simp add: strict_sorted_iff)
  moreover have "k \<in> {3, 4, 5}" if "3 \<le> k" "k \<le> 5" for k :: u64
  proof -
    have "unat k = 3 \<or> unat k = 4 \<or> unat k = 5" using that by (auto simp: word_le_nat_alt)
    then show ?thesis by (auto simp: word_unat_eq_iff)
  qed
  then have "set ks \<subseteq> {3, 4, 5}" using ks(3) by (auto simp: list_all_iff)
  then have "card (set ks) \<le> card {3, 4, 5 :: u64}" by (intro card_mono) auto
  ultimately have "unat (n - 3) \<le> 3" using ks(1) distinct_card [of ks] by simp
  then have "False" if "n = 0 \<or> n = 1 \<or> n = 2" using that by (elim disjE) (simp_all add: unat_u64_max)
  then show ?thesis by blast
qed

interpretation ovs: wire ov_decode ov_wire "\<lambda>d. d < MAX_DEPTH"
proof
  fix d pre bs ob r' assume d: "d < MAX_DEPTH"
  then have "Suc d \<le> MAX_DEPTH" by simp
  note opt = skip_entries_iff [OF skip.wire_axioms this]
  show "ov_decode (rdr pre bs d) = Inr (ob, r') \<longleftrightarrow> (\<exists>w rest. ov_wire d ob w \<and> bs = w @ rest \<and> r' = rdr (pre @ w) rest d)"
    (is "?L \<longleftrightarrow> ?R")
  proof
    assume ?L
    then obtain n id role rel m rest where m: "valid_role role" "length id = 32"
        "bs = enc_map n @ enc_uint 0 @ enc_bytes id @ enc_uint 1 @ enc_uint role @ enc_uint 2 @ enc_uint rel @ rest"
        "skip_entries (\<lambda>k. 3 \<le> k \<and> k \<le> 5) skip_value (unat (n - 3)) (mrdr (pre @ enc_map n @ enc_uint 0 @ enc_bytes id @
          enc_uint 1 @ enc_uint role @ enc_uint 2 @ enc_uint rel) rest (Suc d) (n - 3) (Some 2)) = Inr m"
        "ob = \<lparr>ov_object_id = id, ov_object_role = ucast role, ov_relationship_to_primary = rel\<rparr>" "r' = mr_reader m"
      by (auto simp: ov_decode_def res_iff cbor_iff split: if_splits)
    from m(4) [unfolded opt] obtain ks ws rest' where k: "length ks = unat (n - 3)" "length ws = unat (n - 3)" "keys_ok (Some 2) ks"
        "list_all (\<lambda>k. 3 \<le> k \<and> k \<le> 5) ks" "list_all (val_wire (Suc d) ()) ws" "rest = entries ks ws @ rest'"
        "mr_reader m = rdr (pre @ enc_map n @ enc_uint 0 @ enc_bytes id @ enc_uint 1 @ enc_uint role @ enc_uint 2 @ enc_uint rel @
          entries ks ws) rest' d" by auto
    then have "opt_tail (Suc d) (n - 3) (entries ks ws)" unfolding opt_tail_def by blast
    with k(6,7) m show ?R
      by (intro exI [of _ "enc_map n @ ov_fields ob @ entries ks ws"] exI [of _ rest'])
         (auto simp: ov_wire_def ov_ok_def ov_fields_def valid_u8)
  next
    assume ?R
    then obtain n t rest where w: "ov_ok ob" "opt_tail (Suc d) (n - 3) t" "bs = enc_map n @ ov_fields ob @ t @ rest"
        "r' = rdr (pre @ enc_map n @ ov_fields ob @ t) rest d" by (auto simp: ov_wire_def)
    from w(2) obtain ks ws where k: "length ks = unat (n - 3)" "length ws = unat (n - 3)" "keys_ok (Some 2) ks"
        "list_all (\<lambda>k. 3 \<le> k \<and> k \<le> 5) ks" "list_all (val_wire (Suc d) ()) ws" "t = entries ks ws"
      unfolding opt_tail_def by blast
    define m where "m = mrdr ((pre @ enc_map n @ ov_fields ob) @ t) rest d 0 (if ks = [] then Some 2 else Some (last ks))"
    have "skip_entries (\<lambda>k. 3 \<le> k \<and> k \<le> 5) skip_value (unat (n - 3))
        (mrdr (pre @ enc_map n @ ov_fields ob) (t @ rest) (Suc d) (n - 3) (Some 2)) = Inr m"
      unfolding opt m_def using k by blast
    moreover have "mr_reader m = r'" by (simp add: m_def w(4))
    ultimately show ?L
      using d w opt_tail_count [OF w(2)]
      by (cases ob) (auto simp: ov_decode_def ov_fields_def ov_ok_def cbor_fwd ucast_up_u64)
  qed
qed

lemma r_objects_private_iff: "r_objects_private (rdr pre bs (Suc 0)) = Inr (obs, r') \<longleftrightarrow>
    length obs \<le> MANIFEST_MAX_OBJECTS \<and> (\<exists>w rest. list_wire ov_wire (Suc 0) obs w \<and> bs = w @ rest \<and> r' = rdr (pre @ w) rest (Suc 0))"
  unfolding r_objects_private_def by (rule ovs.bounded_wire) (simp_all add: MAX_DEPTH_def MANIFEST_MAX_OBJECTS_def)

definition caption_bytes :: "bytes option \<Rightarrow> bytes" where
  "caption_bytes c = (case c of None \<Rightarrow> [] | Some s \<Rightarrow> enc_uint 9 @ enc_text s)"

definition caption_ok :: "bytes option \<Rightarrow> bool" where
  "caption_ok c \<longleftrightarrow> (case c of None \<Rightarrow> True | Some s \<Rightarrow> length s < 2 ^ 64 \<and> utf8_valid s)"

definition caption_count :: "bytes option \<Rightarrow> u64" where
  "caption_count c = (case c of None \<Rightarrow> 0 | Some _ \<Rightarrow> 1)"

lemma r_caption_iff: "r_caption (mrdr pre bs d n (Some 8)) = Inr (c, m') \<longleftrightarrow>
    caption_ok c \<and> n \<noteq> 0 \<and> n \<noteq> caption_count c \<and> (\<exists>rest. bs = caption_bytes c @ enc_uint 10 @ rest \<and>
      m' = mrdr (pre @ caption_bytes c @ enc_uint 10) rest d (n - caption_count c - 1) (Some 10))" (is "?L \<longleftrightarrow> ?R")
proof
  assume ?L
  then show ?R
    by (cases c) (auto simp: r_caption_def res_iff cbor_iff caption_ok_def caption_bytes_def caption_count_def split: if_splits)
next
  assume ?R
  then show ?L
    by (cases c) (auto simp: r_caption_def cbor_fwd caption_ok_def caption_bytes_def caption_count_def)
qed

definition pv_ok :: "private_manifest \<Rightarrow> bool" where
  "pv_ok p \<longleftrightarrow> length (pv_sender_account_id p) = 32 \<and> length (pv_sender_device_id p) = 32 \<and>
    length (rs_id (pv_recipient_scope p)) \<le> MAX_TEXT_LEN \<and> utf8_valid (pv_display_name p) \<and>
    utf8_valid (pv_original_filename p) \<and> utf8_valid (pv_mime_type p) \<and> length (pv_plaintext_digest p) = 32 \<and>
    (case pv_user_caption p of None \<Rightarrow> True | Some c \<Rightarrow> utf8_valid c) \<and>
    length (pv_objects p) \<le> MANIFEST_MAX_OBJECTS \<and> list_all ov_ok (pv_objects p)"

definition pv_bytes :: "private_manifest \<Rightarrow> u64 \<Rightarrow> bytes \<Rightarrow> bytes \<Rightarrow> bytes" where
  "pv_bytes p n objects t = enc_map n @ enc_uint 0 @ enc_bytes (pv_sender_account_id p) @ enc_uint 1 @ enc_bytes (pv_sender_device_id p) @
    enc_uint 2 @ rs_bytes (pv_recipient_scope p) @ enc_uint 3 @ enc_text (pv_display_name p) @
    enc_uint 4 @ enc_text (pv_original_filename p) @ enc_uint 5 @ enc_text (pv_mime_type p) @
    enc_uint 6 @ enc_uint (pv_logical_plaintext_size p) @ enc_uint 7 @ enc_bytes (pv_plaintext_digest p) @
    enc_uint 8 @ enc_uint (pv_created_at p) @ caption_bytes (pv_user_caption p) @ enc_uint 10 @ objects @
    enc_uint 11 @ kp_bytes (pv_key_policy p) @ enc_uint 12 @ rp_bytes (pv_retention_policy p) @ t"

definition pv_count :: "private_manifest \<Rightarrow> u64" where
  "pv_count p = 12 + caption_count (pv_user_caption p)"

definition pv_wire :: "private_manifest \<Rightarrow> bytes \<Rightarrow> bool" where
  "pv_wire p bs \<longleftrightarrow> (\<exists>n objects t. list_wire ov_wire 1 (pv_objects p) objects \<and> ext_tail 1 13 (n - pv_count p) t \<and>
    bs = pv_bytes p n objects t)"

definition ov_list :: "object_private list \<Rightarrow> bytes" where
  "ov_list obs = enc_array (of_nat (length obs)) @ concat (map (\<lambda>ob. enc_map 3 @ ov_fields ob) obs)"

lemma pv_map_eq: "pv_map p = Some (pv_bytes p (pv_count p) (ov_list (pv_objects p)) [])"
  by (cases "pv_user_caption p")
     (simp_all add: pv_map_def mw_simps encode_all_eq [where f = "\<lambda>ob. enc_map 3 @ ov_fields ob"] ov_encode_eq scope_encode_eq
       pv_bytes_def ov_list_def pv_count_def caption_count_def caption_bytes_def)

lemma ov_list_wire: "list_all ov_ok obs \<Longrightarrow> list_wire ov_wire d obs (ov_list obs)"
  unfolding list_wire_def ov_list_def
  by (intro exI [of _ "map (\<lambda>ob. enc_map 3 @ ov_fields ob) obs"])
     (auto simp: list_all2_map2 list_all2_same list_all_iff ov_wire_def opt_tail_def keys_ok_def)

lemma nested_policies:
  "rs_decode (rdr pre bs (Suc 0)) = Inr (s, r') \<longleftrightarrow>
    length (rs_id s) \<le> MAX_TEXT_LEN \<and> (\<exists>rest. bs = rs_bytes s @ rest \<and> r' = rdr (pre @ rs_bytes s) rest (Suc 0))"
  "kp_decode (rdr pre bs (Suc 0)) = Inr (k, r') \<longleftrightarrow> (\<exists>rest. bs = kp_bytes k @ rest \<and> r' = rdr (pre @ kp_bytes k) rest (Suc 0))"
  "rp_decode (rdr pre bs (Suc 0)) = Inr (p, r') \<longleftrightarrow> (\<exists>rest. bs = rp_bytes p @ rest \<and> r' = rdr (pre @ rp_bytes p) rest (Suc 0))"
  using scopes.dec_iff [of "Suc 0" pre bs s r'] key_policies.dec_iff [of "Suc 0" pre bs k r'] retention_policies.dec_iff [of "Suc 0" pre bs p r']
  by (simp_all add: MAX_DEPTH_def)

lemma ext_13: "mr_extension 13 (mrdr pre bs (Suc 0) n (Some 12)) = Inr r' \<longleftrightarrow>
    (\<exists>t rest. ext_tail 1 13 n t \<and> bs = t @ rest \<and> r' = rdr (pre @ t) rest 0)"
  by (subst mr_extension_iff) (simp_all add: MAX_DEPTH_def)

lemma pv_decode_sound:
  assumes "pv_decode bs = Inr p"
  shows "length bs \<le> MAX_CONTROL_SIZE \<and> pv_ok p \<and> pv_validate p = Inr () \<and> pv_wire p bs"
proof -
  have ok: "list_wire ov_wire d obs w \<Longrightarrow> list_all ov_ok obs" for d obs w
    by (rule list_wire_ok) (auto simp: ov_wire_def)
  have "\<exists>n objects t. list_wire ov_wire (Suc 0) (pv_objects p) objects \<and>
      ext_tail 1 13 (n - 9 - caption_count (pv_user_caption p) - 1 - 1 - 1) t \<and> bs = pv_bytes p n objects t \<and>
      length bs \<le> MAX_CONTROL_SIZE \<and> pv_validate p = Inr () \<and> caption_ok (pv_user_caption p) \<and>
      length (pv_sender_account_id p) = 32 \<and> length (pv_sender_device_id p) = 32 \<and>
      length (rs_id (pv_recipient_scope p)) \<le> MAX_TEXT_LEN \<and> utf8_valid (pv_display_name p) \<and>
      utf8_valid (pv_original_filename p) \<and> utf8_valid (pv_mime_type p) \<and> length (pv_plaintext_digest p) = 32 \<and>
      length (pv_objects p) \<le> MANIFEST_MAX_OBJECTS"
    using assms unfolding pv_decode_def pv_bytes_def
    by (auto simp: res_iff cbor_iff r_objects_private_iff r_caption_iff nested_policies ext_13 Let_def) blast
  then obtain n objects t where w: "list_wire ov_wire (Suc 0) (pv_objects p) objects"
      "ext_tail 1 13 (n - 9 - caption_count (pv_user_caption p) - 1 - 1 - 1) t" "bs = pv_bytes p n objects t"
    and rest: "length bs \<le> MAX_CONTROL_SIZE" "pv_validate p = Inr ()" "caption_ok (pv_user_caption p)"
      "length (pv_sender_account_id p) = 32" "length (pv_sender_device_id p) = 32"
      "length (rs_id (pv_recipient_scope p)) \<le> MAX_TEXT_LEN" "utf8_valid (pv_display_name p)"
      "utf8_valid (pv_original_filename p)" "utf8_valid (pv_mime_type p)" "length (pv_plaintext_digest p) = 32"
      "length (pv_objects p) \<le> MANIFEST_MAX_OBJECTS" by blast
  have count: "n - 9 - caption_count (pv_user_caption p) - 1 - 1 - 1 = n - pv_count p" by (simp add: pv_count_def)
  have "pv_wire p bs" unfolding pv_wire_def using w [unfolded count] by auto
  moreover have "pv_ok p"
    using rest ok [OF w(1)] by (simp add: pv_ok_def caption_ok_def split: option.splits)
  ultimately show ?thesis using rest by blast
qed

lemma pv_decode_complete:
  assumes "length bs \<le> MAX_CONTROL_SIZE" "pv_ok p" "pv_validate p = Inr ()" "pv_wire p bs"
  shows "pv_decode bs = Inr p"
proof -
  let ?c = "pv_user_caption p"
  from assms(4) obtain n objects t where w: "list_wire ov_wire 1 (pv_objects p) objects" "ext_tail 1 13 (n - pv_count p) t"
      "bs = pv_bytes p n objects t" by (auto simp: pv_wire_def)
  have "length (pv_display_name p) \<le> length bs" "length (pv_original_filename p) \<le> length bs" "length (pv_mime_type p) \<le> length bs"
      "\<forall>c. ?c = Some c \<longrightarrow> length c \<le> length bs"
    by (simp_all add: w(3) pv_bytes_def enc_text_def caption_bytes_def)
  then have len: "length (pv_display_name p) < 2 ^ 64" "length (pv_original_filename p) < 2 ^ 64" "length (pv_mime_type p) < 2 ^ 64"
      "\<forall>c. ?c = Some c \<longrightarrow> length c < 2 ^ 64"
    using assms(1) by (auto simp: MAX_CONTROL_SIZE_def)
  then have cap: "r_caption (mrdr pre (caption_bytes ?c @ enc_uint 10 @ rest) (Suc 0) m (Some 8)) =
      Inr (?c, mrdr (pre @ caption_bytes ?c @ enc_uint 10) rest (Suc 0) (m - caption_count ?c - 1) (Some 10))"
    if "m \<noteq> 0" "m \<noteq> caption_count ?c" for pre rest m
    using that assms(2) by (subst r_caption_iff) (auto simp: caption_ok_def pv_ok_def split: option.splits)
  have ext: "mr_extension 13 (mrdr pre t (Suc 0) (n - pv_count p) (Some 12)) = Inr (rdr (pre @ t) [] 0)" for pre
    using w(2) by (subst ext_13) auto
  have obs: "r_objects_private (rdr pre (objects @ rest) (Suc 0)) = Inr (pv_objects p, rdr (pre @ objects) rest (Suc 0))" for pre rest
    using w(1) assms(2) by (subst r_objects_private_iff) (auto simp: pv_ok_def)
  have nested: "rs_decode (rdr pre (rs_bytes (pv_recipient_scope p) @ rest) (Suc 0)) =
        Inr (pv_recipient_scope p, rdr (pre @ rs_bytes (pv_recipient_scope p)) rest (Suc 0))"
      "kp_decode (rdr pre (kp_bytes (pv_key_policy p) @ rest) (Suc 0)) =
        Inr (pv_key_policy p, rdr (pre @ kp_bytes (pv_key_policy p)) rest (Suc 0))"
      "rp_decode (rdr pre (rp_bytes (pv_retention_policy p) @ rest) (Suc 0)) =
        Inr (pv_retention_policy p, rdr (pre @ rp_bytes (pv_retention_policy p)) rest (Suc 0))" for pre rest
    using assms(2) by (simp_all add: nested_policies pv_ok_def)
  have n: "n = pv_count p \<or> n = pv_count p + 1" using ext_tail_count [OF w(2)] .
  show ?thesis
  proof (cases ?c)
    case None
    then have "n = 12 \<or> n = 13" "n - pv_count p = n - 12" using n by (simp_all add: pv_count_def caption_count_def)
    then show ?thesis
      using assms(1-3) ext cap obs nested len None
      by (cases p) (auto simp: pv_decode_def w(3) pv_bytes_def pv_ok_def r_new_eq cbor_fwd MAX_DEPTH_def caption_count_def)
  next
    case (Some c)
    then have "n = 13 \<or> n = 14" "n - pv_count p = n - 13" using n by (simp_all add: pv_count_def caption_count_def)
    then show ?thesis
      using assms(1-3) ext cap obs nested len Some
      by (cases p) (auto simp: pv_decode_def w(3) pv_bytes_def pv_ok_def r_new_eq cbor_fwd MAX_DEPTH_def caption_count_def)
  qed
qed

section \<open>Sizes\<close>

lemma length_concat_le: "(\<And>x. x \<in> set xs \<Longrightarrow> length (f x) \<le> b) \<Longrightarrow> length (concat (map f xs)) \<le> length xs * b"
proof (induction xs)
  case (Cons x xs)
  have "length (f x) \<le> b" "length (concat (map f xs)) \<le> length xs * b" using Cons by simp_all
  then show ?case by simp
qed simp

lemma len_app: "length xs \<le> a \<Longrightarrow> length ys \<le> b \<Longrightarrow> length (xs @ ys) \<le> a + b"
  by simp

lemma len_enc_bool: "length (enc_bool c) \<le> 1"
  by (simp add: length_enc)

lemmas len_rules = len_app length_enc(1-5) len_enc_bool

lemma length_op_fields: "op_ok ob \<Longrightarrow> length (enc_map 7 @ op_fields ob) \<le> 209"
  unfolding op_fields_def by (rule order_trans, (rule len_rules)+) (simp add: op_ok_def)

lemma length_pm_bytes_le:
  assumes "pm_ok p"
  shows "length (pm_bytes p 10 (op_list (pm_objects p)) []) \<le> 250000"
proof -
  have "length (op_list (pm_objects p)) \<le> 9 + length (pm_objects p) * 209"
    unfolding op_list_def using assms
    by (intro len_app length_enc length_concat_le length_op_fields) (simp add: pm_ok_def list_all_iff)
  then have "length (op_list (pm_objects p)) \<le> 214025" using assms by (simp add: pm_ok_def MANIFEST_MAX_OBJECTS_def)
  note len = len_rules this
  show ?thesis
    unfolding pm_bytes_def append_Nil2 by (rule order_trans, (rule len)+) (use assms in \<open>simp add: pm_ok_def\<close>)
qed

lemma length_pm_bytes: "pm_ok p \<Longrightarrow> length (pm_bytes p 10 (op_list (pm_objects p)) []) \<le> MAX_CONTROL_SIZE"
  by (rule order_trans, rule length_pm_bytes_le) (simp_all add: MAX_CONTROL_SIZE_def)

lemma length_ov_fields: "ov_ok ob \<Longrightarrow> length (enc_map 3 @ ov_fields ob) \<le> 95"
  unfolding ov_fields_def by (rule order_trans, (rule len_rules)+) (simp add: ov_ok_def)

lemma length_pv_bytes_le:
  assumes "pv_ok p" and "length (pv_display_name p) \<le> MAX_TEXT_LEN" "length (pv_original_filename p) \<le> MAX_TEXT_LEN"
    and "length (pv_mime_type p) \<le> MAX_TEXT_LEN" "\<forall>c. pv_user_caption p = Some c \<longrightarrow> length c \<le> MAX_TEXT_LEN"
  shows "length (pv_bytes p (pv_count p) (ov_list (pv_objects p)) []) \<le> 200000"
proof -
  have "length (ov_list (pv_objects p)) \<le> 9 + length (pv_objects p) * 95"
    unfolding ov_list_def using assms(1)
    by (intro len_app length_enc length_concat_le length_ov_fields) (simp add: pv_ok_def list_all_iff)
  then have obs: "length (ov_list (pv_objects p)) \<le> 97289" using assms(1) by (simp add: pv_ok_def MANIFEST_MAX_OBJECTS_def)
  have cap: "length (caption_bytes (pv_user_caption p)) \<le> 4114"
  proof (cases "pv_user_caption p")
    case (Some c)
    then show ?thesis
      using assms(5) length_enc(1) [of 9] length_enc(5) [of c] by (simp add: caption_bytes_def MAX_TEXT_LEN_def)
  qed (simp add: caption_bytes_def)
  note len = len_rules obs cap
  show ?thesis
    unfolding pv_bytes_def append_Nil2 rs_bytes_def kp_bytes_def rp_bytes_def append_assoc
    by (rule order_trans, (rule len)+) (use assms(1-4) in \<open>simp add: pv_ok_def MAX_TEXT_LEN_def\<close>)
qed

lemma pm_encode_wire: "pm_ok p \<Longrightarrow> pm_wire p (pm_bytes p 10 (op_list (pm_objects p)) [])"
  unfolding pm_wire_def
  by (intro exI [of _ 10] exI [of _ "op_list (pm_objects p)"] exI [of _ "[]"]) (simp add: op_list_wire ext_tail_def pm_ok_def)

lemma pv_encode_wire: "pv_ok p \<Longrightarrow> pv_wire p (pv_bytes p (pv_count p) (ov_list (pv_objects p)) [])"
  unfolding pv_wire_def
  by (intro exI [of _ "pv_count p"] exI [of _ "ov_list (pv_objects p)"] exI [of _ "[]"]) (simp add: ov_list_wire ext_tail_def pv_ok_def)

lemma pm_encode_decode: "pm_ok p \<Longrightarrow> pm_validate p = Inr () \<Longrightarrow> \<exists>e. pm_encode p = Some e \<and> pm_decode e = Inr p"
  by (auto simp: pm_encode_eq intro!: pm_decode_complete length_pm_bytes pm_encode_wire)

lemma pv_encode_decode:
  assumes "pv_ok p" and "pv_validate p = Inr ()" and "pv_encode p = Some (Inr e)"
  shows "pv_decode e = Inr p"
proof -
  have e: "e = pv_bytes p (pv_count p) (ov_list (pv_objects p)) []" and
    short: "length (pv_display_name p) \<le> MAX_TEXT_LEN" "length (pv_original_filename p) \<le> MAX_TEXT_LEN"
      "length (pv_mime_type p) \<le> MAX_TEXT_LEN" "\<forall>c. pv_user_caption p = Some c \<longrightarrow> length c \<le> MAX_TEXT_LEN"
    using assms(3) by (auto simp: pv_encode_def pv_map_eq split: if_splits option.splits)
  show ?thesis
    unfolding e using assms(1,2) length_pv_bytes_le [OF assms(1) short]
    by (intro pv_decode_complete pv_encode_wire) (simp_all add: MAX_CONTROL_SIZE_def)
qed

section \<open>Geometry\<close>

text \<open>The sizes of an object are those of some file in chunks of an allowed size.\<close>

definition geometry_ok :: "object_public \<Rightarrow> bool" where
  "geometry_ok ob \<longleftrightarrow> (\<exists>s \<in> set ALLOWED_CHUNK_SIZES. \<exists>len. unat (op_chunk_ciphertext_size ob) = unat s + 16 \<and>
    unat (op_chunk_count ob) = (len + unat s - 1) div unat s \<and> unat (op_ciphertext_size ob) = len + 16 * unat (op_chunk_count ob))"

definition obj_valid :: "object_public \<Rightarrow> bool" where
  "obj_valid ob \<longleftrightarrow> validate_objects {} [ob] = Inr ()"

lemma validate_objects_iff:
  "validate_objects seen obs = Inr () \<longleftrightarrow>
    list_all obj_valid obs \<and> distinct (map op_object_id obs) \<and> op_object_id ` set obs \<inter> seen = {}"
proof (induction obs arbitrary: seen)
  case (Cons ob obs)
  have "validate_objects seen (ob # obs) = Inr () \<longleftrightarrow>
      op_object_id ob \<notin> seen \<and> obj_valid ob \<and> validate_objects (insert (op_object_id ob) seen) obs = Inr ()"
    by (cases "checked_sub (op_chunk_ciphertext_size ob) (of_nat AEAD_TAG_LEN)") (auto simp: obj_valid_def Let_def)
  then show ?case unfolding Cons.IH by auto
qed simp

lemma ceil_iff:
  fixes s n len :: nat
  assumes "0 < s" and "0 < n"
  shows "n = (len + s - 1) div s \<longleftrightarrow> (n - 1) * s < len \<and> len \<le> n * s"
proof -
  obtain k where n: "n = Suc k" using assms(2) by (cases n) simp_all
  have "(len + s - 1) div s = Suc k \<longleftrightarrow> Suc k \<le> (len + s - 1) div s \<and> (len + s - 1) div s < Suc (Suc k)"
    by auto
  also have "\<dots> \<longleftrightarrow> Suc k * s \<le> len + s - 1 \<and> len + s - 1 < Suc (Suc k) * s"
    using assms(1) by (simp add: less_eq_div_iff_mult_less_eq div_less_iff_less_mult)
  also have "\<dots> \<longleftrightarrow> k * s < len \<and> len \<le> Suc k * s"
    using assms(1) by (auto simp: algebra_simps)
  finally show ?thesis unfolding n by auto
qed

lemma allowed_u32:
  assumes "v \<le> 0xFFFFFFFF"
  shows "(ucast (v :: u64) :: u32) \<in> set ALLOWED_CHUNK_SIZES \<longleftrightarrow> (\<exists>s \<in> set ALLOWED_CHUNK_SIZES. unat v = unat s)"
proof -
  have "unat (ucast v :: u32) = unat v"
    using ucast_ucast_u64(3) [OF assms] by (metis unat_ucast_u32)
  then show ?thesis by (metis word_unat_eq_iff)
qed

lemma chunk_bounds:
  fixes n c :: u64
  assumes "unat n \<le> 2 ^ 32" and "c \<le> 0xFFFFFFFF" and "16 \<le> unat c" and "n \<noteq> 0"
  shows "unat (n * c) = unat n * unat c" and "unat (n * c - c + 1 + 16) = unat n * unat c - unat c + 17"
proof -
  have c: "unat c \<le> 4294967295" using assms(2) by (simp add: word_le_nat_alt)
  then have "unat n * unat c \<le> 2 ^ 32 * 4294967295" using assms(1) by (intro mult_le_mono) simp_all
  then have lt: "unat n * unat c \<le> 18446744069414584320" by simp
  then show m: "unat (n * c) = unat n * unat c" by (simp add: unat_mult)
  have "0 < unat n" using assms(4) by (simp add: word_unat_eq_iff)
  then have "unat c \<le> unat n * unat c" by simp
  then have d: "unat (n * c - c) = unat n * unat c - unat c" using m by (simp add: unat_sub word_le_nat_alt)
  moreover have "unat (n * c - c + 17) = unat (n * c - c) + 17"
    using lt assms(3) by (subst unat_add) (simp_all add: d)
  moreover have e: "n * c - c + 1 + 16 = n * c - c + 17" by simp
  ultimately show "unat (n * c - c + 1 + 16) = unat n * unat c - unat c + 17" unfolding e by simp
qed

lemma obj_valid_iff:
  assumes "unat (op_chunk_count ob) \<le> 2 ^ 32" and "op_chunk_ciphertext_size ob \<le> 0xFFFFFFFF"
  shows "obj_valid ob \<longleftrightarrow> geometry_ok ob"
proof -
  let ?c = "unat (op_chunk_ciphertext_size ob)" and ?n = "unat (op_chunk_count ob)" and ?size = "unat (op_ciphertext_size ob)"
  have sub: "op_chunk_ciphertext_size ob - 16 \<le> 0xFFFFFFFF" "unat (op_chunk_ciphertext_size ob - 16) = ?c - 16" if "16 \<le> ?c"
    using that assms(2) by (simp_all add: word_le_nat_alt unat_sub)
  have valid: "obj_valid ob \<longleftrightarrow> 16 \<le> ?c \<and> (\<exists>s \<in> set ALLOWED_CHUNK_SIZES. ?c - 16 = unat s) \<and>
      (if ?n = 0 then ?size = 0 else ?size \<le> ?n * ?c \<and> ?n * ?c - ?c + 17 \<le> ?size)"
  proof (cases "16 \<le> ?c")
    case True
    then have cs: "checked_sub (op_chunk_ciphertext_size ob) 16 = Some (op_chunk_ciphertext_size ob - 16)"
      by (simp add: checked_sub_def word_le_nat_alt)
    show ?thesis
      using True sub [OF True] chunk_bounds [OF assms True]
      by (auto simp: obj_valid_def cs allowed_u32 AEAD_TAG_LEN_def Let_def word_unat_eq_iff [of "op_chunk_count ob"]
          word_unat_eq_iff [of "op_ciphertext_size ob"] word_less_nat_alt simp del: numeral_plus_one)
  next
    case False
    then show ?thesis by (simp add: obj_valid_def checked_sub_def AEAD_TAG_LEN_def word_le_nat_alt)
  qed
  have geo: "(\<exists>len. ?n = (len + s - 1) div s \<and> ?size = len + 16 * ?n) \<longleftrightarrow>
      (if ?n = 0 then ?size = 0 else ?size \<le> ?n * (s + 16) \<and> ?n * (s + 16) - (s + 16) + 17 \<le> ?size)" if s: "0 < s" for s
  proof (cases "?n = 0")
    case True
    have "0 = (len + s - 1) div s \<longleftrightarrow> len = 0" for len
      using s by (cases len) (auto simp: div_eq_0_iff)
    with True show ?thesis by simp
  next
    case False
    then obtain k where k: "?n = Suc k" by (cases ?n) auto
    have "(\<exists>len. ?n = (len + s - 1) div s \<and> ?size = len + 16 * ?n) \<longleftrightarrow>
        (\<exists>len. k * s < len \<and> len \<le> Suc k * s \<and> ?size = len + 16 * Suc k)"
      using ceil_iff [OF s, of ?n] k by simp
    also have "\<dots> \<longleftrightarrow> k * s + 16 * Suc k < ?size \<and> ?size \<le> Suc k * s + 16 * Suc k"
      by (auto intro!: exI [of _ "?size - 16 * Suc k"])
    finally show ?thesis by (auto simp: k algebra_simps)
  qed
  have pos: "0 < unat s" if "s \<in> set ALLOWED_CHUNK_SIZES" for s using allowed_sizes [OF that] by simp
  have "geometry_ok ob \<longleftrightarrow> (\<exists>s \<in> set ALLOWED_CHUNK_SIZES. ?c = unat s + 16 \<and>
      (if ?n = 0 then ?size = 0 else ?size \<le> ?n * (unat s + 16) \<and> ?n * (unat s + 16) - (unat s + 16) + 17 \<le> ?size))"
    unfolding geometry_ok_def using geo [OF pos] by (intro bex_cong) auto
  also have "\<dots> \<longleftrightarrow> obj_valid ob"
    (is "?G \<longleftrightarrow> _")
  proof
    assume ?G
    then show "obj_valid ob" unfolding valid by force
  next
    assume "obj_valid ob"
    then obtain s where s: "s \<in> set ALLOWED_CHUNK_SIZES" "?c = unat s + 16"
      and r: "if ?n = 0 then ?size = 0 else ?size \<le> ?n * ?c \<and> ?n * ?c - ?c + 17 \<le> ?size"
      unfolding valid by auto
    from r [unfolded s(2)] s show ?G by blast
  qed
  finally show ?thesis by simp
qed

section \<open>Properties\<close>

text \<open>C36: The public and the private manifest are read from exactly the byte strings of their fields in canonical form, with at most an
  extension map of well-formed values behind them, when the checks on the values pass. What the encoders write for a
  manifest that passes its checks is always within the size limit and is read back.\<close>

theorem manifest_exact:
  "(pm_decode bs = Inr p \<longleftrightarrow> length bs \<le> MAX_CONTROL_SIZE \<and> pm_ok p \<and> pm_validate p = Inr () \<and> pm_wire p bs) \<and>
   (pv_decode bs = Inr q \<longleftrightarrow> length bs \<le> MAX_CONTROL_SIZE \<and> pv_ok q \<and> pv_validate q = Inr () \<and> pv_wire q bs) \<and>
   (pm_decode (the (pm_encode p)) = Inr p \<longleftrightarrow> pm_ok p \<and> pm_validate p = Inr ()) \<and>
   (is_ok (the (pv_encode q)) \<longrightarrow>
     (pv_decode (projr (the (pv_encode q))) = Inr q \<longleftrightarrow> pv_ok q \<and> pv_validate q = Inr ()))"
proof (intro conjI impI)
  show pm: "pm_decode bs = Inr p \<longleftrightarrow> length bs \<le> MAX_CONTROL_SIZE \<and> pm_ok p \<and> pm_validate p = Inr () \<and> pm_wire p bs" for bs
    using pm_decode_sound [of bs p] pm_decode_complete [of bs p] by blast
  show pv: "pv_decode bs = Inr q \<longleftrightarrow> length bs \<le> MAX_CONTROL_SIZE \<and> pv_ok q \<and> pv_validate q = Inr () \<and> pv_wire q bs" for bs
    using pv_decode_sound [of bs q] pv_decode_complete [of bs q] by blast
  show "pm_decode (the (pm_encode p)) = Inr p \<longleftrightarrow> pm_ok p \<and> pm_validate p = Inr ()"
    using pm_encode_decode [of p] pm_decode_sound [of "the (pm_encode p)" p] by force
  assume "is_ok (the (pv_encode q))"
  then obtain e where "pv_encode q = Some (Inr e)"
    by (auto simp: pv_encode_def pv_map_eq is_ok_def split: if_splits)
  then show "pv_decode (projr (the (pv_encode q))) = Inr q \<longleftrightarrow> pv_ok q \<and> pv_validate q = Inr ()"
    using pv_encode_decode [of q e] pv_decode_sound [of e q] by auto
qed

definition sample_object :: object_public where
  "sample_object = \<lparr>op_object_id = replicate 32 1, op_object_role = 0, op_ciphertext_root = replicate 32 2,
     op_ciphertext_size = 100032, op_chunk_ciphertext_size = 65552, op_chunk_count = 2, op_padding_policy = 0\<rparr>"

definition sample_private :: private_manifest where
  "sample_private = \<lparr>pv_sender_account_id = replicate 32 1, pv_sender_device_id = replicate 32 1,
     pv_recipient_scope = rs_device (replicate 32 2), pv_display_name = [], pv_original_filename = [], pv_mime_type = [],
     pv_logical_plaintext_size = 100000, pv_plaintext_digest = replicate 32 3, pv_created_at = 5,
     pv_user_caption = None, pv_objects = [\<lparr>ov_object_id = replicate 32 1, ov_object_role = 0, ov_relationship_to_primary = 0\<rparr>],
     pv_key_policy = \<lparr>kp_mode = 0, kp_minimum_security_level = 1, kp_pqc_required = True\<rparr>,
     pv_retention_policy = \<lparr>rp_expires_at = 9, rp_view_once = False, rp_allow_local_save = True\<rparr>\<rparr>"

lemma sample_private_ok: "pv_ok sample_private" "pv_validate sample_private = Inr ()"
    "pv_encode sample_private = Some (Inr (pv_bytes sample_private 12 (ov_list (pv_objects sample_private)) []))"
  by (simp_all add: pv_ok_def sample_private_def rs_device_def MAX_TEXT_LEN_def MANIFEST_MAX_OBJECTS_def ov_ok_def valid_role_def
      pv_validate_def ROLE_PRIMARY_def pv_encode_def pv_map_eq pv_count_def caption_count_def)

theorem manifest_exact_witness:
  "pv_decode (projr (the (pv_encode sample_private))) = Inr sample_private"
  using manifest_exact [of _ _ sample_private] sample_private_ok by (simp add: is_ok_def)

text \<open>C37: For up to 2^32 chunks of less than 4 GiB, the check of an object accepts exactly the sizes of some file cut into chunks of an
  allowed size; a manifest is valid when all its objects are and have different identifiers. Outside those
  bounds the products wrap and the chunk size is truncated: a hundred bytes pass as 2^60 + 1 chunks.\<close>

theorem manifest_geometry:
  assumes "list_all (\<lambda>ob. unat (op_chunk_count ob) \<le> 2 ^ 32 \<and> op_chunk_ciphertext_size ob \<le> 0xFFFFFFFF) obs"
  shows "(validate_objects {} obs = Inr () \<longleftrightarrow> list_all geometry_ok obs \<and> distinct (map op_object_id obs)) \<and>
    validate_objects {} [sample_object\<lparr>op_chunk_count := 2 ^ 60 + 1, op_ciphertext_size := 100\<rparr>] = Inr () \<and>
    validate_objects {} [sample_object\<lparr>op_chunk_ciphertext_size := 2 ^ 32 + 65552, op_chunk_count := 1, op_ciphertext_size := 2 ^ 32\<rparr>] = Inr ()"
proof (intro conjI)
  have "list_all obj_valid obs \<longleftrightarrow> list_all geometry_ok obs"
    using assms obj_valid_iff by (auto simp: list_all_iff)
  then show "validate_objects {} obs = Inr () \<longleftrightarrow> list_all geometry_ok obs \<and> distinct (map op_object_id obs)"
    by (simp add: validate_objects_iff)
qed (simp_all add: sample_object_def checked_sub_def AEAD_TAG_LEN_def ALLOWED_CHUNK_SIZES_def Let_def)

theorem manifest_geometry_witness:
  "geometry_ok sample_object"
proof -
  have "validate_objects {} [sample_object] = Inr ()"
    by (simp add: sample_object_def checked_sub_def AEAD_TAG_LEN_def ALLOWED_CHUNK_SIZES_def Let_def)
  with manifest_geometry [of "[sample_object]"] show ?thesis by (simp add: sample_object_def)
qed

text \<open>C16: A sealed private manifest opens, for a transfer, an object, a sender and a recipient scope, exactly when it is the encryption of
  a readable manifest under associated data naming them, and the manifest names the same sender and scope.
  Sealing a well-formed manifest that passes its check and whose texts are short gives something that opens to it.\<close>

theorem manifest_seal_open:
  assumes "aead_ok C" and "aead_auth C" and "length key = 32" and "length (sm_nonce sealed) = 24"
  shows "(open_private_manifest C sealed key tid oid sender scope = Some (Inr p) \<longleftrightarrow>
      (\<exists>aad pt. manifest_aad C tid oid sender scope = Some aad \<and>
        aead_encrypt C key (sm_nonce sealed) aad pt = Some (sm_ciphertext sealed) \<and> pv_decode pt = Inr p \<and>
        pv_sender_device_id p = sender \<and> pv_recipient_scope p = scope)) \<and>
    (pv_ok p \<and> seal_private_manifest C (sm_nonce sealed) p key tid oid = Some (Inr sealed) \<longrightarrow>
      open_private_manifest C sealed key tid oid (pv_sender_device_id p) (pv_recipient_scope p) = Some (Inr p)) \<and>
    (is_ok (the (seal_private_manifest C (sm_nonce sealed) p key tid oid)) \<longleftrightarrow>
      is_ok (pv_validate p) \<and> is_ok (the (pv_encode p)))"
proof -
  let ?n = "sm_nonce sealed"
  have aad: "manifest_aad C tid oid sd sc \<noteq> None" for sd sc
    by (simp add: manifest_aad_def rs_hash_def scope_encode_eq)
  have dec: "aead_decrypt C key ?n a ct = Some pt \<longleftrightarrow> aead_encrypt C key ?n a pt = Some ct" for a ct pt
    by (rule aead_iff [OF assms])
  have enc: "aead_encrypt C key ?n a pt \<noteq> None" for a pt
    using aead_okD [OF assms(1,3,4)] by (metis option.distinct(1))
  have opn: "open_private_manifest C sealed key tid oid sd sc = Some (Inr p) \<longleftrightarrow>
      (\<exists>aad pt. manifest_aad C tid oid sd sc = Some aad \<and>
        aead_encrypt C key ?n aad pt = Some (sm_ciphertext sealed) \<and> pv_decode pt = Inr p \<and>
        pv_sender_device_id p = sd \<and> pv_recipient_scope p = sc)" for sd sc
    using aad [of sd sc] by (auto simp: open_private_manifest_def res_iff dec split: if_splits)
  moreover have "open_private_manifest C sealed key tid oid (pv_sender_device_id p) (pv_recipient_scope p) = Some (Inr p)"
    if "pv_ok p" and s: "seal_private_manifest C ?n p key tid oid = Some (Inr sealed)"
  proof -
    have "\<exists>e a. pv_validate p = Inr () \<and> pv_encode p = Some (Inr e) \<and>
        manifest_aad C tid oid (pv_sender_device_id p) (pv_recipient_scope p) = Some a \<and>
        aead_encrypt C key ?n a e = Some (sm_ciphertext sealed)"
      using s by (cases sealed) (auto simp: seal_private_manifest_def res_iff split: sum.splits bind_splits)
    with pv_encode_decode \<open>pv_ok p\<close> show ?thesis unfolding opn by blast
  qed
  moreover have "is_ok (the (seal_private_manifest C ?n p key tid oid)) \<longleftrightarrow> is_ok (pv_validate p) \<and> is_ok (the (pv_encode p))"
  proof -
    obtain a where a: "manifest_aad C tid oid (pv_sender_device_id p) (pv_recipient_scope p) = Some a" using aad by blast
    have "pv_encode p \<noteq> None" by (simp add: pv_encode_def pv_map_eq)
    with a obtain r where r: "pv_encode p = Some r" "manifest_aad C tid oid (pv_sender_device_id p) (pv_recipient_scope p) = Some a" by blast
    obtain ct where "aead_encrypt C key ?n a (projr r) = Some ct" using enc [of a "projr r"] by blast
    with r show ?thesis
      by (cases r) (auto simp: seal_private_manifest_def is_ok_def split: sum.splits)
  qed
  ultimately show ?thesis by blast
qed

theorem manifest_seal_open_witness:
  "\<exists>s. seal_private_manifest sample_prims (replicate 24 0) sample_private (replicate 32 7) (replicate 32 8) (replicate 32 1) = Some (Inr s) \<and>
    open_private_manifest sample_prims s (replicate 32 7) (replicate 32 8) (replicate 32 1) (replicate 32 1) (rs_device (replicate 32 2)) =
      Some (Inr sample_private)"
proof -
  let ?seal = "seal_private_manifest sample_prims (replicate 24 0) sample_private (replicate 32 7) (replicate 32 8) (replicate 32 1)"
  obtain s where s: "?seal = Some (Inr s)" "sm_nonce s = replicate 24 0"
    using sample_private_ok
    by (auto simp: seal_private_manifest_def manifest_aad_def rs_hash_def scope_encode_eq sample_prims_def sample_encrypt_def)
  with manifest_seal_open [OF sample_prims_ok(1,2), of "replicate 32 7" s "replicate 32 8" "replicate 32 1" _ _ sample_private]
    sample_private_ok(1)
  show ?thesis by (simp add: sample_private_def)
qed

end
