(* ===== verification/Rtp_Identity.thy ===== *)
theory Rtp_Identity
  imports Rtp_Cbor Rtp_Crypto
begin

text \<open>
  Device identities, \<open>rtp2-core/src/identity.rs\<close>, and the wrappers around the post-quantum primitives,
  \<open>rtp2-core/src/pqc.rs\<close>. Ed25519, X25519, ML-DSA-65 and ML-KEM-768 come from other crates and are fields of a record; random
  values are arguments. Secret keys are kept as the seeds they are computed from.
\<close>

section \<open>Public-key primitives\<close>

record pk_prims =
  ed_public :: "bytes \<Rightarrow> bytes"
  ed_sign :: "bytes \<Rightarrow> bytes \<Rightarrow> bytes"
  ed_valid :: "bytes \<Rightarrow> bool"
  ed_check :: "bytes \<Rightarrow> bytes \<Rightarrow> bytes \<Rightarrow> bool"
  dsa_keys :: "bytes \<Rightarrow> bytes \<times> bytes"
  dsa_sign :: "bytes \<Rightarrow> bytes \<Rightarrow> bytes \<Rightarrow> bytes \<Rightarrow> bytes option"
  dsa_check :: "bytes \<Rightarrow> bytes \<Rightarrow> bytes \<Rightarrow> bytes \<Rightarrow> bool"
  kem_keys :: "bytes \<Rightarrow> bytes \<times> bytes"
  kem_valid :: "bytes \<Rightarrow> bool"
  kem_encap :: "bytes \<Rightarrow> bytes \<Rightarrow> bytes \<times> bytes"
  kem_decap :: "bytes \<Rightarrow> bytes \<Rightarrow> bytes"
  x_public :: "bytes \<Rightarrow> bytes"
  x_dh :: "bytes \<Rightarrow> bytes \<Rightarrow> bytes"

definition MLKEM768_PUBLIC_KEY_LEN :: nat where "MLKEM768_PUBLIC_KEY_LEN = 1184"
definition MLKEM768_CIPHERTEXT_LEN :: nat where "MLKEM768_CIPHERTEXT_LEN = 1088"
definition MLDSA65_VERIFICATION_KEY_LEN :: nat where "MLDSA65_VERIFICATION_KEY_LEN = 1952"
definition MLDSA65_SIGNATURE_LEN :: nat where "MLDSA65_SIGNATURE_LEN = 3309"
definition MLDSA_CONTEXT :: bytes where "MLDSA_CONTEXT = ascii ''RTP2-DEVICE-SIG-v1''"

datatype pqc_error = PqcError

definition decapsulate :: "pk_prims \<Rightarrow> bytes \<Rightarrow> bytes \<Rightarrow> pqc_error + bytes" where
  "decapsulate K secret ciphertext =
    (if length ciphertext \<noteq> MLKEM768_CIPHERTEXT_LEN then Inl PqcError else Inr (kem_decap K secret ciphertext))"

definition mlkem_encapsulate :: "pk_prims \<Rightarrow> bytes \<Rightarrow> bytes \<Rightarrow> pqc_error + bytes \<times> bytes" where
  "mlkem_encapsulate K randomness public_key =
    (if length public_key \<noteq> MLKEM768_PUBLIC_KEY_LEN then Inl PqcError
     else if \<not> kem_valid K public_key then Inl PqcError
     else Inr (kem_encap K public_key randomness))"

definition mldsa_sign :: "pk_prims \<Rightarrow> bytes \<Rightarrow> bytes \<Rightarrow> bytes \<Rightarrow> pqc_error + bytes" where
  "mldsa_sign K randomness signing message = ok_or PqcError (dsa_sign K signing message MLDSA_CONTEXT randomness)"

definition mldsa_verify :: "pk_prims \<Rightarrow> bytes \<Rightarrow> bytes \<Rightarrow> bytes \<Rightarrow> pqc_error + unit" where
  "mldsa_verify K verification_key message signature =
    (if length verification_key \<noteq> MLDSA65_VERIFICATION_KEY_LEN then Inl PqcError
     else if length signature \<noteq> MLDSA65_SIGNATURE_LEN then Inl PqcError
     else if \<not> dsa_check K verification_key message MLDSA_CONTEXT signature then Inl PqcError
     else Inr ())"

section \<open>Device identity\<close>

datatype identity_error = IdentityError

definition SEED_SALT :: bytes where "SEED_SALT = ascii ''RTP2-IDENTITY-SALT-v1''"
definition INFO_DEVICE_ID :: bytes where "INFO_DEVICE_ID = ascii ''RTP2 device id v1''"
definition INFO_ED25519 :: bytes where "INFO_ED25519 = ascii ''RTP2 device ed25519 v1''"
definition INFO_MLDSA :: bytes where "INFO_MLDSA = ascii ''RTP2 device mldsa65 v1''"
definition INFO_ENDPOINT :: bytes where "INFO_ENDPOINT = ascii ''RTP2 device endpoint v1''"

record device_identity =
  id_device_id :: bytes
  id_seed :: bytes
  id_ed25519 :: bytes
  id_mldsa_signing :: bytes
  id_mldsa_verification :: bytes

definition identity_from_seed :: "prims \<Rightarrow> pk_prims \<Rightarrow> bytes \<Rightarrow> device_identity" where
  "identity_from_seed C K seed =
    (let prk = hkdf_extract C SEED_SALT seed;
         device_id = hkdf_expand C 32 prk [INFO_DEVICE_ID];
         ed25519_seed = hkdf_expand C 32 prk [INFO_ED25519];
         mldsa_seed = hkdf_expand C 32 prk [INFO_MLDSA];
         (signing, verification) = dsa_keys K mldsa_seed
     in \<lparr>id_device_id = device_id, id_seed = seed, id_ed25519 = ed25519_seed,
         id_mldsa_signing = signing, id_mldsa_verification = verification\<rparr>)"

definition endpoint_secret :: "prims \<Rightarrow> device_identity \<Rightarrow> bytes" where
  "endpoint_secret C i = (let prk = hkdf_extract C SEED_SALT (id_seed i) in hkdf_expand C 32 prk [INFO_ENDPOINT])"

record device_public =
  dp_device_id :: bytes
  dp_ed25519 :: bytes
  dp_mldsa :: bytes

definition identity_public :: "pk_prims \<Rightarrow> device_identity \<Rightarrow> device_public" where
  "identity_public K i = \<lparr>dp_device_id = id_device_id i, dp_ed25519 = ed_public K (id_ed25519 i), dp_mldsa = id_mldsa_verification i\<rparr>"

record hybrid_signature =
  hs_ed25519 :: bytes
  hs_mldsa :: bytes

definition hybrid_sign :: "pk_prims \<Rightarrow> bytes \<Rightarrow> device_identity \<Rightarrow> bytes \<Rightarrow> identity_error + hybrid_signature" where
  "hybrid_sign K randomness i transcript_hash =
    qm (\<lambda>_. IdentityError) (mldsa_sign K randomness (id_mldsa_signing i) transcript_hash) (\<lambda>mldsa.
      Inr \<lparr>hs_ed25519 = ed_sign K (id_ed25519 i) transcript_hash, hs_mldsa = mldsa\<rparr>)"

definition hybrid_verify :: "pk_prims \<Rightarrow> device_public \<Rightarrow> bytes \<Rightarrow> hybrid_signature \<Rightarrow> identity_error + unit" where
  "hybrid_verify K d transcript_hash sig =
    (if \<not> ed_valid K (dp_ed25519 d) then Inl IdentityError
     else if \<not> ed_check K (dp_ed25519 d) transcript_hash (hs_ed25519 sig) then Inl IdentityError
     else qm (\<lambda>_. IdentityError) (mldsa_verify K (dp_mldsa d) transcript_hash (hs_mldsa sig)) Inr)"

definition dp_encode :: "device_public \<Rightarrow> writer \<Rightarrow> writer option" where
  "dp_encode d w = do {
     let m = mw_begin w 3;
     m \<leftarrow> mw_bytes m 0 (dp_device_id d);
     m \<leftarrow> mw_bytes m 1 (dp_ed25519 d);
     m \<leftarrow> mw_bytes m 2 (dp_mldsa d);
     mw_end m }"

definition dp_decode :: "reader \<Rightarrow> cbor_error + device_public \<times> reader" where
  "dp_decode r =
    qm id (r_map r) (\<lambda>m.
    qm id (mr_field id 0 (r_bytes_exact 32) m) (\<lambda>(device_id, m).
    qm id (mr_field id 1 (r_bytes_exact 32) m) (\<lambda>(ed25519, m).
    qm id (mr_field id 2 (r_bytes_exact MLDSA65_VERIFICATION_KEY_LEN) m) (\<lambda>(mldsa, m).
    qm id (mr_no_more id InvalidValue m) (\<lambda>m.
    Inr (\<lparr>dp_device_id = device_id, dp_ed25519 = ed25519, dp_mldsa = mldsa\<rparr>, mr_reader m))))))"

definition hs_encode :: "hybrid_signature \<Rightarrow> writer \<Rightarrow> writer option" where
  "hs_encode s w = do {
     let m = mw_begin w 2;
     m \<leftarrow> mw_bytes m 0 (hs_ed25519 s);
     m \<leftarrow> mw_bytes m 1 (hs_mldsa s);
     mw_end m }"

definition hs_decode :: "reader \<Rightarrow> cbor_error + hybrid_signature \<times> reader" where
  "hs_decode r =
    qm id (r_map r) (\<lambda>m.
    qm id (mr_field id 0 (r_bytes_exact 64) m) (\<lambda>(ed25519, m).
    qm id (mr_field id 1 (r_bytes_exact MLDSA65_SIGNATURE_LEN) m) (\<lambda>(mldsa, m).
    qm id (mr_no_more id InvalidValue m) (\<lambda>m.
    Inr (\<lparr>hs_ed25519 = ed25519, hs_mldsa = mldsa\<rparr>, mr_reader m)))))"

section \<open>What is relied on\<close>

text \<open>
  \<open>sig_ok\<close>: keys and signatures have their fixed sizes, and a signature made with a key pair, for ML-DSA under the one context the
  code uses, verifies under it, as the two signature standards promise.
  \<open>kem_ok\<close>: ML-KEM key pairs are valid, have the standard sizes, and decapsulation gives the encapsulated secret;
  both sides of an X25519 exchange compute the same secret.
\<close>

definition sig_ok :: "pk_prims \<Rightarrow> bool" where
  "sig_ok K \<longleftrightarrow>
    (\<forall>s. length (ed_public K s) = 32 \<and> ed_valid K (ed_public K s)) \<and>
    (\<forall>s m. length (ed_sign K s m) = 64 \<and> ed_check K (ed_public K s) m (ed_sign K s m)) \<and>
    (\<forall>seed. length (snd (dsa_keys K seed)) = MLDSA65_VERIFICATION_KEY_LEN) \<and>
    (\<forall>seed m r. \<exists>sig. dsa_sign K (fst (dsa_keys K seed)) m MLDSA_CONTEXT r = Some sig \<and> length sig = MLDSA65_SIGNATURE_LEN \<and>
      dsa_check K (snd (dsa_keys K seed)) m MLDSA_CONTEXT sig)"

definition kem_ok :: "pk_prims \<Rightarrow> bool" where
  "kem_ok K \<longleftrightarrow>
    (\<forall>r. length (snd (kem_keys K r)) = MLKEM768_PUBLIC_KEY_LEN \<and> kem_valid K (snd (kem_keys K r))) \<and>
    (\<forall>r r'. length (fst (kem_encap K (snd (kem_keys K r)) r')) = MLKEM768_CIPHERTEXT_LEN \<and>
      kem_decap K (fst (kem_keys K r)) (fst (kem_encap K (snd (kem_keys K r)) r')) = snd (kem_encap K (snd (kem_keys K r)) r')) \<and>
    (\<forall>s. length (x_public K s) = 32) \<and> (\<forall>a b. x_dh K a (x_public K b) = x_dh K b (x_public K a))"

text \<open>
  \<open>not_forged\<close>: a signature is no forgery, given all the signatures the owner of the key has made. For at least one of the two schemes,
  whatever message it verifies for is the only message that one of the owner's signatures verifies for. This is what unforgeability of
  either scheme gives of a signature that somebody presents.
\<close>

definition not_forged :: "pk_prims \<Rightarrow> device_public \<Rightarrow> hybrid_signature set \<Rightarrow> hybrid_signature \<Rightarrow> bool" where
  "not_forged K d made sg \<longleftrightarrow>
    (\<forall>m. ed_check K (dp_ed25519 d) m (hs_ed25519 sg) \<longrightarrow>
      (\<exists>s \<in> made. \<forall>m'. ed_check K (dp_ed25519 d) m' (hs_ed25519 s) \<longrightarrow> m' = m)) \<or>
    (\<forall>m. dsa_check K (dp_mldsa d) m MLDSA_CONTEXT (hs_mldsa sg) \<longrightarrow>
      (\<exists>s \<in> made. \<forall>m'. dsa_check K (dp_mldsa d) m' MLDSA_CONTEXT (hs_mldsa s) \<longrightarrow> m' = m))"

section \<open>Lemmas\<close>

definition dp_bytes :: "device_public \<Rightarrow> bytes" where
  "dp_bytes d = enc_map 3 @ enc_uint 0 @ enc_bytes (dp_device_id d) @ enc_uint 1 @ enc_bytes (dp_ed25519 d) @ enc_uint 2 @ enc_bytes (dp_mldsa d)"

definition dp_ok :: "device_public \<Rightarrow> bool" where
  "dp_ok d \<longleftrightarrow> length (dp_device_id d) = 32 \<and> length (dp_ed25519 d) = 32 \<and> length (dp_mldsa d) = 1952"

definition hs_bytes :: "hybrid_signature \<Rightarrow> bytes" where
  "hs_bytes s = enc_map 2 @ enc_uint 0 @ enc_bytes (hs_ed25519 s) @ enc_uint 1 @ enc_bytes (hs_mldsa s)"

definition hs_ok :: "hybrid_signature \<Rightarrow> bool" where
  "hs_ok s \<longleftrightarrow> length (hs_ed25519 s) = 64 \<and> length (hs_mldsa s) = 3309"

lemma dp_encode_eq: "dp_encode d w = Some (w @ dp_bytes d)"
  by (simp add: dp_encode_def mw_simps dp_bytes_def)

lemma hs_encode_eq: "hs_encode s w = Some (w @ hs_bytes s)"
  by (simp add: hs_encode_def mw_simps hs_bytes_def)

interpretation dps: codec dp_bytes dp_decode dp_ok 1
proof
  fix d pre bs x r' assume d: "d + 1 \<le> MAX_DEPTH"
  show "dp_decode (rdr pre bs d) = Inr (x, r') \<longleftrightarrow> dp_ok x \<and> (\<exists>rest. bs = dp_bytes x @ rest \<and> r' = rdr (pre @ dp_bytes x) rest d)"
    (is "?L \<longleftrightarrow> ?R")
  proof
    assume ?L
    then show ?R by (auto simp: dp_decode_def dp_bytes_def dp_ok_def MLDSA65_VERIFICATION_KEY_LEN_def res_iff cbor_iff)
  next
    assume ?R
    with d show ?L by (cases x) (auto simp: dp_decode_def dp_bytes_def dp_ok_def MLDSA65_VERIFICATION_KEY_LEN_def cbor_fwd)
  qed
qed (simp add: MAX_DEPTH_def)

interpretation sigs: codec hs_bytes hs_decode hs_ok 1
proof
  fix d pre bs x r' assume d: "d + 1 \<le> MAX_DEPTH"
  show "hs_decode (rdr pre bs d) = Inr (x, r') \<longleftrightarrow> hs_ok x \<and> (\<exists>rest. bs = hs_bytes x @ rest \<and> r' = rdr (pre @ hs_bytes x) rest d)"
    (is "?L \<longleftrightarrow> ?R")
  proof
    assume ?L
    then show ?R by (auto simp: hs_decode_def hs_bytes_def hs_ok_def MLDSA65_SIGNATURE_LEN_def res_iff cbor_iff)
  next
    assume ?R
    with d show ?L by (cases x) (auto simp: hs_decode_def hs_bytes_def hs_ok_def MLDSA65_SIGNATURE_LEN_def cbor_fwd)
  qed
qed (simp add: MAX_DEPTH_def)

lemma not_forgedD:
  assumes "not_forged K d made sg" and "hybrid_verify K d m sg = Inr ()"
  shows "\<exists>s \<in> made. \<forall>m'. hybrid_verify K d m' s = Inr () \<longrightarrow> m' = m"
proof -
  have iff: "hybrid_verify K d h s = Inr () \<longleftrightarrow> ed_valid K (dp_ed25519 d) \<and> ed_check K (dp_ed25519 d) h (hs_ed25519 s) \<and>
      length (dp_mldsa d) = MLDSA65_VERIFICATION_KEY_LEN \<and> length (hs_mldsa s) = MLDSA65_SIGNATURE_LEN \<and>
      dsa_check K (dp_mldsa d) h MLDSA_CONTEXT (hs_mldsa s)" for h s
    by (auto simp: hybrid_verify_def mldsa_verify_def)
  show ?thesis using assms unfolding not_forged_def iff by blast
qed

lemma hybrid_sign_verify:
  assumes "sig_ok K" and "i = identity_from_seed C K seed"
  shows "\<exists>sig. hybrid_sign K r i h = Inr sig \<and> hs_ok sig \<and> hybrid_verify K (identity_public K i) h sig = Inr ()"
proof -
  let ?s = "hkdf_expand C 32 (hkdf_extract C SEED_SALT seed) [INFO_MLDSA]"
  obtain sg where sg: "dsa_sign K (fst (dsa_keys K ?s)) h MLDSA_CONTEXT r = Some sg" "length sg = MLDSA65_SIGNATURE_LEN"
      "dsa_check K (snd (dsa_keys K ?s)) h MLDSA_CONTEXT sg"
    using assms(1) unfolding sig_ok_def by blast
  have i: "id_mldsa_signing i = fst (dsa_keys K ?s)" "id_mldsa_verification i = snd (dsa_keys K ?s)"
    by (simp_all add: assms(2) identity_from_seed_def Let_def split: prod.splits)
  with sg assms(1) show ?thesis
    by (auto simp: hybrid_sign_def mldsa_sign_def hybrid_verify_def mldsa_verify_def identity_public_def hs_ok_def sig_ok_def
        MLDSA65_SIGNATURE_LEN_def)
qed

lemma identity_public_ok: "sig_ok K \<Longrightarrow> kdf_lens C \<Longrightarrow> dp_ok (identity_public K (identity_from_seed C K seed))"
  by (auto simp: dp_ok_def identity_public_def identity_from_seed_def Let_def sig_ok_def MLDSA65_VERIFICATION_KEY_LEN_def kdf_lensD
      split: prod.splits) (metis snd_conv)

text \<open>A concrete instance of the primitives: secret keys are public and signatures repeat the message, padded.\<close>

definition fit :: "nat \<Rightarrow> bytes \<Rightarrow> bytes" where
  "fit n x = take n (x @ replicate n 0)"

definition sample_pk :: pk_prims where
  "sample_pk = \<lparr>ed_public = fit 32, ed_sign = (\<lambda>s m. fit 64 (sample_hash (fit 32 s @ m))), ed_valid = (\<lambda>_. True),
     ed_check = (\<lambda>p m sg. sg = fit 64 (sample_hash (p @ m))), dsa_keys = (\<lambda>s. (fit 1952 s, fit 1952 s)),
     dsa_sign = (\<lambda>k m c r. Some (fit 3309 (sample_hash (k @ c @ m)))),
     dsa_check = (\<lambda>k m c sg. sg = fit 3309 (sample_hash (k @ c @ m))),
     kem_keys = (\<lambda>r. (fit 1184 r, fit 1184 r)), kem_valid = (\<lambda>_. True),
     kem_encap = (\<lambda>p r. (fit 1088 r, sample_hash (p @ fit 1088 r))), kem_decap = (\<lambda>s c. sample_hash (s @ c)),
     x_public = fit 32, x_dh = (\<lambda>a b. map2 (\<lambda>x y. x XOR y) (fit 32 a) (fit 32 b))\<rparr>"

lemma length_fit [simp]: "length (fit n x) = n"
  by (simp add: fit_def)

lemma fit_fit [simp]: "fit n (fit n x) = fit n x"
  by (simp add: fit_def)

lemma sample_pk_ok: "sig_ok sample_pk" "kem_ok sample_pk"
proof -
  show "sig_ok sample_pk"
    by (simp add: sig_ok_def sample_pk_def MLDSA65_VERIFICATION_KEY_LEN_def MLDSA65_SIGNATURE_LEN_def)
  have "map2 (\<lambda>x y. x XOR y) a b = map2 (\<lambda>x y. x XOR y) b a" for a b :: bytes
    by (induction a b rule: list_induct2') (simp_all add: xor.commute)
  then show "kem_ok sample_pk"
    by (simp add: kem_ok_def sample_pk_def MLKEM768_PUBLIC_KEY_LEN_def MLKEM768_CIPHERTEXT_LEN_def)
qed

text \<open>A scheme whose Ed25519 signatures show the message, if it is a hash.\<close>

definition show_hash :: "bytes \<Rightarrow> bytes" where
  "show_hash m = (if length m = HASH_LEN then 1 # fit 63 m else replicate 64 0)"

definition showing_pk :: pk_prims where
  "showing_pk = sample_pk\<lparr>ed_sign := (\<lambda>s m. show_hash m), ed_check := (\<lambda>p m sg. sg = show_hash m)\<rparr>"

lemma showing_pk_ok: "sig_ok showing_pk"
  using sample_pk_ok(1) by (simp add: sig_ok_def showing_pk_def show_hash_def)

lemma show_hash_inj:
  assumes "length m = HASH_LEN" and "show_hash m = show_hash m'"
  shows "m' = m"
proof -
  have "length m' = HASH_LEN" and "fit 63 m = fit 63 m'"
    using assms by (auto simp: show_hash_def numeral_eq_Suc split: if_splits)
  then have "take 48 (fit 63 m) = take 48 (fit 63 m')" "length m = 48" "length m' = 48" using assms(1) by (simp_all add: HASH_LEN_def)
  then show ?thesis by (simp add: fit_def)
qed

end
