(* ===== verification/Rtp_Base64.thy ===== *)
theory Rtp_Base64
  imports Rtp_Prelude
begin

text \<open>
  The base64url codec without padding at the end of \<open>rtp2-core/src/offer.rs\<close>. A string is the list of its bytes; the
  only error it raises is \<open>OfferError::Encoding\<close>, so errors are units here and the caller names them.
\<close>

section \<open>Definitions\<close>

definition B64_ALPHABET :: bytes where
  "B64_ALPHABET = ascii ''ABCDEFGHIJKLMNOPQRSTUVWXYZabcdefghijklmnopqrstuvwxyz0123456789-_''"

definition b64_char :: "u32 \<Rightarrow> u8" where
  "b64_char n = B64_ALPHABET ! unat (n AND 63)"

definition b64_enc_chunk :: "bytes \<Rightarrow> bytes" where
  "b64_enc_chunk chunk =
    (let b0 = (ucast (chunk ! 0) :: u32);
         b1 = (if length chunk > 1 then ucast (chunk ! 1) else 0);
         b2 = (if length chunk > 2 then ucast (chunk ! 2) else 0);
         n = push_bit 16 b0 OR push_bit 8 b1 OR b2
     in [b64_char (drop_bit 18 n), b64_char (drop_bit 12 n)] @
        (if length chunk > 1 then [b64_char (drop_bit 6 n)] else []) @
        (if length chunk > 2 then [b64_char n] else []))"

fun base64url_encode :: "bytes \<Rightarrow> bytes" where
  "base64url_encode data = (if data = [] then [] else b64_enc_chunk (take 3 data) @ base64url_encode (drop 3 data))"

definition b64_value :: "u8 \<Rightarrow> u32 option" where
  "b64_value c =
    (if 65 \<le> c \<and> c \<le> 90 then Some (ucast (c - 65))
     else if 97 \<le> c \<and> c \<le> 122 then Some (ucast (c - 97) + 26)
     else if 48 \<le> c \<and> c \<le> 57 then Some (ucast (c - 48) + 52)
     else if c = 45 then Some 62
     else if c = 95 then Some 63
     else None)"

fun b64_accum :: "nat \<Rightarrow> bytes \<Rightarrow> u32 \<Rightarrow> unit + u32" where
  "b64_accum i [] n = Inr n"
| "b64_accum i (c # cs) n =
    qm id (ok_or () (b64_value c)) (\<lambda>v. b64_accum (Suc i) cs (n OR push_bit (18 - 6 * i) v))"

definition b64_dec_chunk :: "bytes \<Rightarrow> unit + bytes" where
  "b64_dec_chunk chunk =
    qm id (b64_accum 0 chunk 0) (\<lambda>n.
      let out = [ucast (drop_bit 16 n)] @ (if length chunk > 2 then [ucast (drop_bit 8 n)] else []) @
            (if length chunk > 3 then [ucast n] else []);
          unused_bits = (if length chunk = 2 then 16 else if length chunk = 3 then 8 else 0)
      in if unused_bits > 0 \<and> n AND (push_bit unused_bits 1 - 1) \<noteq> 0 then Inl () else Inr out)"

fun b64_dec_chunks :: "bytes \<Rightarrow> unit + bytes" where
  "b64_dec_chunks bs =
    (if bs = [] then Inr []
     else qm id (b64_dec_chunk (take 4 bs)) (\<lambda>out. qm id (b64_dec_chunks (drop 4 bs)) (\<lambda>more. Inr (out @ more))))"

definition base64url_decode :: "bytes \<Rightarrow> unit + bytes" where
  "base64url_decode bs = (if length bs mod 4 = 1 then Inl () else b64_dec_chunks bs)"

declare base64url_encode.simps [simp del] b64_dec_chunks.simps [simp del]

section \<open>Characters\<close>

lemma alphabet_value_all: "list_all (\<lambda>v. b64_value (B64_ALPHABET ! v) = Some (of_nat v)) [0..<64]"
  by code_simp

lemma b64_value_nat:
  assumes "b64_value c = Some v"
  shows "65 \<le> unat c \<and> unat c \<le> 90 \<and> unat v = unat c - 65 \<or> 97 \<le> unat c \<and> unat c \<le> 122 \<and> unat v = unat c - 71 \<or>
    48 \<le> unat c \<and> unat c \<le> 57 \<and> unat v = unat c + 4 \<or> unat c = 45 \<and> unat v = 62 \<or> unat c = 95 \<and> unat v = 63"
proof -
  have u: "unat (ucast (x :: u8) :: u32) = unat x" for x
    using unat_byte_less [of x] by (simp add: unsigned_ucast_eq take_bit_nat_eq_self)
  have a: "unat (ucast (x :: u8) + (k :: u32)) = unat x + unat k" if "unat k < 1000" for x k
    using that unat_byte_less [of x] by (subst unat_add) (simp_all add: u)
  show ?thesis
    using assms
    by (auto simp: b64_value_def u a unat_sub word_le_nat_alt split: if_splits)
qed

lemma value_char: "b64_value (b64_char n) = Some (n AND 63)"
proof -
  have "unat (n AND 63) < 64"
  proof -
    have "n AND 63 = take_bit 6 n" by (simp add: take_bit_eq_mask mask_eq_exp_minus_1)
    then show ?thesis by (simp add: take_bit_eq_mod unat_mod)
  qed
  then have "b64_value (B64_ALPHABET ! unat (n AND 63)) = Some (of_nat (unat (n AND 63)))"
    using alphabet_value_all by (simp only: list_all_iff) auto
  then show ?thesis by (simp add: b64_char_def)
qed

lemma char_value:
  assumes "b64_value c = Some v"
  shows "v AND 63 = v" and "b64_char v = c"
proof -
  have v1: "unat v < 64" using b64_value_nat [OF assms] by linarith
  then have "b64_value (B64_ALPHABET ! unat v) = Some v"
    using alphabet_value_all by (simp only: list_all_iff) auto
  from b64_value_nat [OF assms] b64_value_nat [OF this] have "unat (B64_ALPHABET ! unat v) = unat c" by linarith
  with v1 have v: "unat v < 64" "B64_ALPHABET ! unat v = c" by (simp_all add: word_unat_eq_iff)
  have "v AND 63 = take_bit 6 v" by (simp add: take_bit_eq_mask mask_eq_exp_minus_1)
  also have "\<dots> = v" using v(1) by (simp add: take_bit_eq_mod word_unat_eq_iff unat_mod)
  finally show "v AND 63 = v" .
  then show "b64_char v = c" using v(2) by (simp add: b64_char_def)
qed

lemma b64_char_of: "b64_value c = Some v \<Longrightarrow> x AND 63 = v \<Longrightarrow> b64_char x = c"
  using char_value [of c v] by (simp add: b64_char_def)

section \<open>Bits\<close>

lemma and_63: "(x :: u32) AND 63 = take_bit 6 x"
  by (simp add: take_bit_eq_mask mask_eq_exp_minus_1)

lemma sextet_ranges:
  obtains "(k :: nat) < 6" | "6 \<le> k" "k < 12" | "12 \<le> k" "k < 18" | "18 \<le> k" "k < 24" | "24 \<le> k"
  by linarith

lemma sextets: "push_bit 18 (drop_bit 18 (n :: u32) AND 63) OR push_bit 12 (drop_bit 12 n AND 63) OR
    push_bit 6 (drop_bit 6 n AND 63) OR (n AND 63) = take_bit 24 n"
proof (rule bit_eqI)
  fix k :: nat
  show "bit (push_bit 18 (drop_bit 18 n AND 63) OR push_bit 12 (drop_bit 12 n AND 63) OR
    push_bit 6 (drop_bit 6 n AND 63) OR (n AND 63)) k \<longleftrightarrow> bit (take_bit 24 n) k"
    unfolding and_63 by (rule sextet_ranges [of k]) (auto simp: bit_simps)
qed

lemma sextets_of:
  fixes a b c d :: u32
  assumes "a AND 63 = a" "b AND 63 = b" "c AND 63 = c" "d AND 63 = d"
    and n: "n = push_bit 18 a OR push_bit 12 b OR push_bit 6 c OR d"
  shows "drop_bit 18 n AND 63 = a" "drop_bit 12 n AND 63 = b" "drop_bit 6 n AND 63 = c" "n AND 63 = d" "take_bit 24 n = n"
proof -
  have bits: "bit a k \<Longrightarrow> k < 6" "bit b k \<Longrightarrow> k < 6" "bit c k \<Longrightarrow> k < 6" "bit d k \<Longrightarrow> k < 6" for k
    using assms(1-4) unfolding and_63 by (metis bit_take_bit_iff)+
  have n_bit: "bit n k \<longleftrightarrow> 18 \<le> k \<and> k < 24 \<and> bit a (k - 18) \<or> 12 \<le> k \<and> k < 18 \<and> bit b (k - 12) \<or>
      6 \<le> k \<and> k < 12 \<and> bit c (k - 6) \<or> k < 6 \<and> bit d k" for k
    by (auto simp: n bit_simps dest: bits)
  show "drop_bit 18 n AND 63 = a" "drop_bit 12 n AND 63 = b" "drop_bit 6 n AND 63 = c" "n AND 63 = d" "take_bit 24 n = n"
    unfolding and_63 by (rule bit_eqI; auto simp: bit_simps n_bit dest: bits)+
qed

text \<open>The 24 bits of three bytes.\<close>

definition b24 :: "u8 \<Rightarrow> u8 \<Rightarrow> u8 \<Rightarrow> u32" where
  "b24 x y z = push_bit 16 (ucast x) OR push_bit 8 (ucast y) OR ucast z"

lemma b24_bytes: "ucast (drop_bit 16 (b24 x y z)) = x" "ucast (drop_bit 8 (b24 x y z)) = y" "ucast (b24 x y z) = z" "take_bit 24 (b24 x y z) = b24 x y z"
  unfolding b24_def by (rule bit_eqI; use bit_imp_le_length in \<open>fastforce simp: bit_simps\<close>)+

lemma octet_ranges:
  obtains "(k :: nat) < 8" | "8 \<le> k" "k < 16" | "16 \<le> k" "k < 24" | "24 \<le> k"
  by linarith

lemma b24_of:
  assumes "take_bit 24 n = n"
  shows "b24 (ucast (drop_bit 16 n)) (ucast (drop_bit 8 n)) (ucast n) = n"
proof (rule bit_eqI)
  fix k :: nat
  have "bit n k \<Longrightarrow> k < 24" by (metis assms bit_take_bit_iff)
  then show "bit (b24 (ucast (drop_bit 16 n)) (ucast (drop_bit 8 n)) (ucast n)) k \<longleftrightarrow> bit n k"
    unfolding b24_def by (rule_tac octet_ranges [of k]) (auto simp: bit_simps)
qed

lemma low_bits:
  fixes n :: u32
  shows "n AND 255 = 0 \<longleftrightarrow> (ucast n :: u8) = 0"
    and "n AND 65535 = 0 \<longleftrightarrow> (ucast n :: u8) = 0 \<and> (ucast (drop_bit 8 n) :: u8) = 0"
proof -
  have m: "n AND 255 = take_bit 8 n" "n AND 65535 = take_bit 16 n"
    by (simp_all add: take_bit_eq_mask mask_eq_exp_minus_1)
  have "take_bit 8 n = 0 \<longleftrightarrow> (\<forall>k < 8. \<not> bit n k)"
    by (auto simp: bit_eq_iff bit_simps)
  moreover have "(ucast n :: u8) = 0 \<longleftrightarrow> (\<forall>k < 8. \<not> bit n k)"
    by (auto simp: bit_eq_iff bit_simps)
  moreover have "(ucast (drop_bit 8 n) :: u8) = 0 \<longleftrightarrow> (\<forall>k < 8. \<not> bit n (8 + k))"
    by (auto simp: bit_eq_iff bit_simps)
  moreover have "take_bit 16 n = 0 \<longleftrightarrow> (\<forall>k < 16. \<not> bit n k)"
    by (auto simp: bit_eq_iff bit_simps)
  moreover have "(\<forall>k < 16. \<not> bit n k) \<longleftrightarrow> (\<forall>k < 8. \<not> bit n k) \<and> (\<forall>k < 8. \<not> bit n (8 + k))"
    by (auto, metis add_less_cancel_left le_add_diff_inverse not_less numeral_Bit0)
  ultimately show "n AND 255 = 0 \<longleftrightarrow> (ucast n :: u8) = 0"
    "n AND 65535 = 0 \<longleftrightarrow> (ucast n :: u8) = 0 \<and> (ucast (drop_bit 8 n) :: u8) = 0"
    unfolding m by blast+
qed

section \<open>Chunks\<close>

lemma enc_chunk_eq:
  "b64_enc_chunk [x, y, z] = map b64_char [drop_bit 18 (b24 x y z), drop_bit 12 (b24 x y z), drop_bit 6 (b24 x y z), b24 x y z]"
  "b64_enc_chunk [x, y] = map b64_char [drop_bit 18 (b24 x y 0), drop_bit 12 (b24 x y 0), drop_bit 6 (b24 x y 0)]"
  "b64_enc_chunk [x] = map b64_char [drop_bit 18 (b24 x 0 0), drop_bit 12 (b24 x 0 0)]"
  by (simp_all add: b64_enc_chunk_def b24_def Let_def)

lemma dec_chunk_complete:
  "b64_dec_chunk (b64_enc_chunk [x, y, z]) = Inr [x, y, z]" "b64_dec_chunk (b64_enc_chunk [x, y]) = Inr [x, y]"
  "b64_dec_chunk (b64_enc_chunk [x]) = Inr [x]"
proof -
  have z: "n AND 63 = 0" if "(ucast (n :: u32) :: u8) = 0" for n
  proof -
    have "n AND 255 = 0" using that low_bits(1) by simp
    then have "(n AND 255) AND 63 = 0" by simp
    then show ?thesis by (simp add: and.assoc)
  qed
  have y: "drop_bit 6 n AND 63 = 0" if "(ucast (n :: u32) :: u8) = 0" "(ucast (drop_bit 8 n) :: u8) = 0" for n
  proof -
    have "n AND 65535 = 0" using that low_bits(2) by simp
    then have "drop_bit 6 (n AND 65535) AND 63 = 0" by simp
    moreover have "drop_bit 6 (n AND 65535) AND 63 = drop_bit 6 n AND 63" by (simp add: drop_bit_and and.assoc)
    ultimately show ?thesis by simp
  qed
  let ?n = "b24 x y z"
  have "push_bit 18 (drop_bit 18 ?n AND 63) OR push_bit 12 (drop_bit 12 ?n AND 63) OR push_bit 6 (drop_bit 6 ?n AND 63) OR (?n AND 63) = ?n"
    unfolding sextets b24_bytes(4) ..
  then show "b64_dec_chunk (b64_enc_chunk [x, y, z]) = Inr [x, y, z]"
    by (simp add: enc_chunk_eq b64_dec_chunk_def value_char Let_def or.assoc b24_bytes)
  let ?n = "b24 x y 0"
  have "push_bit 18 (drop_bit 18 ?n AND 63) OR push_bit 12 (drop_bit 12 ?n AND 63) OR push_bit 6 (drop_bit 6 ?n AND 63) = ?n"
    using sextets [of ?n] z [of ?n] by (simp add: b24_bytes)
  then show "b64_dec_chunk (b64_enc_chunk [x, y]) = Inr [x, y]"
    using low_bits(1) [of ?n] by (simp add: enc_chunk_eq b64_dec_chunk_def value_char Let_def or.assoc b24_bytes)
  let ?n = "b24 x 0 0"
  have "push_bit 18 (drop_bit 18 ?n AND 63) OR push_bit 12 (drop_bit 12 ?n AND 63) = ?n"
    using sextets [of ?n] z [of ?n] y [of ?n] by (simp add: b24_bytes)
  then show "b64_dec_chunk (b64_enc_chunk [x]) = Inr [x]"
    using low_bits(2) [of ?n] by (simp add: enc_chunk_eq b64_dec_chunk_def value_char Let_def or.assoc b24_bytes)
qed

lemma dec_chunk_sound:
  assumes "b64_dec_chunk chunk = Inr out" and "length chunk = 2 \<or> length chunk = 3 \<or> length chunk = 4"
  shows "length out = length chunk - 1 \<and> b64_enc_chunk out = chunk"
proof -
  from assms(2) consider
      (two) c0 c1 where "chunk = [c0, c1]" | (three) c0 c1 c2 where "chunk = [c0, c1, c2]"
    | (four) c0 c1 c2 c3 where "chunk = [c0, c1, c2, c3]"
    by (auto simp: length_Suc_conv numeral_eq_Suc)
  then show ?thesis
  proof cases
    case two
    with assms(1) obtain v0 v1 where v: "b64_value c0 = Some v0" "b64_value c1 = Some v1"
      by (auto simp: b64_dec_chunk_def res_iff)
    define n where "n = push_bit 18 v0 OR push_bit 12 v1"
    have n: "n = push_bit 18 v0 OR push_bit 12 v1 OR push_bit 6 0 OR 0" by (simp add: n_def)
    note s = sextets_of [OF char_value(1) [OF v(1)] char_value(1) [OF v(2)] _ _ n, simplified]
    from assms(1) two v have out: "n AND 65535 = 0" "out = [ucast (drop_bit 16 n)]"
      by (auto simp: b64_dec_chunk_def n_def Let_def split: if_splits)
    with b24_of [OF s(5)] low_bits(2) [of n] have b: "b24 (ucast (drop_bit 16 n)) 0 0 = n" by simp
    show ?thesis
      using b64_char_of [OF v(1) s(1)] b64_char_of [OF v(2) s(2)] by (simp add: two out(2) enc_chunk_eq b)
  next
    case three
    with assms(1) obtain v0 v1 v2 where v: "b64_value c0 = Some v0" "b64_value c1 = Some v1" "b64_value c2 = Some v2"
      by (auto simp: b64_dec_chunk_def res_iff)
    define n where "n = push_bit 18 v0 OR push_bit 12 v1 OR push_bit 6 v2"
    have n: "n = push_bit 18 v0 OR push_bit 12 v1 OR push_bit 6 v2 OR 0" by (simp add: n_def)
    note s = sextets_of [OF char_value(1) [OF v(1)] char_value(1) [OF v(2)] char_value(1) [OF v(3)] _ n, simplified]
    from assms(1) three v have out: "n AND 255 = 0" "out = [ucast (drop_bit 16 n), ucast (drop_bit 8 n)]"
      by (auto simp: b64_dec_chunk_def n_def Let_def or.assoc split: if_splits)
    with b24_of [OF s(5)] low_bits(1) [of n] have b: "b24 (ucast (drop_bit 16 n)) (ucast (drop_bit 8 n)) 0 = n" by simp
    show ?thesis
      using b64_char_of [OF v(1) s(1)] b64_char_of [OF v(2) s(2)] b64_char_of [OF v(3) s(3)]
      by (simp add: three out(2) enc_chunk_eq b)
  next
    case four
    with assms(1) obtain v0 v1 v2 v3 where v: "b64_value c0 = Some v0" "b64_value c1 = Some v1" "b64_value c2 = Some v2" "b64_value c3 = Some v3"
      by (auto simp: b64_dec_chunk_def res_iff)
    define n where n: "n = push_bit 18 v0 OR push_bit 12 v1 OR push_bit 6 v2 OR v3"
    note s = sextets_of [OF char_value(1) [OF v(1)] char_value(1) [OF v(2)] char_value(1) [OF v(3)] char_value(1) [OF v(4)] n]
    from assms(1) four v have out: "out = [ucast (drop_bit 16 n), ucast (drop_bit 8 n), ucast n]"
      by (auto simp: b64_dec_chunk_def n Let_def or.assoc)
    show ?thesis
      using b64_char_of [OF v(1) s(1)] b64_char_of [OF v(2) s(2)] b64_char_of [OF v(3) s(3)] b64_char_of [OF v(4) s(4)]
      by (simp add: four out enc_chunk_eq b24_of [OF s(5)])
  qed
qed

section \<open>Strings\<close>

lemma dec_chunks_step: "chunk \<noteq> [] \<Longrightarrow> length chunk = 4 \<or> length chunk < 4 \<and> rest = [] \<Longrightarrow>
    b64_dec_chunks (chunk @ rest) = qm id (b64_dec_chunk chunk) (\<lambda>out. qm id (b64_dec_chunks rest) (\<lambda>more. Inr (out @ more)))"
  by (subst b64_dec_chunks.simps) auto

lemma short_cases:
  obtains "data = []" | x where "data = [x]" | x y where "data = [x, y]" | x y z ds where "data = x # y # z # ds"
  by (cases data; cases "tl data"; cases "tl (tl data)") auto

lemma base64_decode_encode: "b64_dec_chunks (base64url_encode data) = Inr data \<and> length (base64url_encode data) mod 4 \<noteq> 1"
proof (induction data rule: base64url_encode.induct)
  case (1 data)
  have enc: "base64url_encode [] = []" by (simp add: base64url_encode.simps)
  have dec: "b64_dec_chunks [] = Inr []" by (simp add: b64_dec_chunks.simps)
  show ?case
  proof (cases data rule: short_cases)
    case 1
    then show ?thesis by (simp add: enc dec)
  next
    case (2 x)
    then have e: "base64url_encode data = b64_enc_chunk [x] @ []" by (subst base64url_encode.simps) (simp add: enc)
    show ?thesis unfolding e by (subst dec_chunks_step) (simp_all add: 2 dec_chunk_complete dec, simp_all add: enc_chunk_eq)
  next
    case (3 x y)
    then have e: "base64url_encode data = b64_enc_chunk [x, y] @ []" by (subst base64url_encode.simps) (simp add: enc)
    show ?thesis unfolding e by (subst dec_chunks_step) (simp_all add: 3 dec_chunk_complete dec, simp_all add: enc_chunk_eq)
  next
    case (4 x y z ds)
    then have e: "base64url_encode data = b64_enc_chunk [x, y, z] @ base64url_encode ds"
      by (subst base64url_encode.simps) simp
    have IH: "b64_dec_chunks (base64url_encode ds) = Inr ds" "length (base64url_encode ds) mod 4 \<noteq> 1"
      using "1" 4 by simp_all
    have len: "length (b64_enc_chunk [x, y, z]) = 4" by (simp add: enc_chunk_eq)
    then have "b64_enc_chunk [x, y, z] \<noteq> []" by auto
    with len IH show ?thesis unfolding e by (subst dec_chunks_step) (simp_all add: 4 dec_chunk_complete)
  qed
qed

lemma base64_encode_decode: "b64_dec_chunks bs = Inr data \<Longrightarrow> length bs mod 4 \<noteq> 1 \<Longrightarrow> base64url_encode data = bs"
proof (induction bs arbitrary: data rule: b64_dec_chunks.induct)
  case (1 bs)
  show ?case
  proof (cases "bs = []")
    case True
    with "1.prems" show ?thesis by (simp add: b64_dec_chunks.simps base64url_encode.simps)
  next
    case False
    let ?c = "take 4 bs" and ?r = "drop 4 bs"
    from "1.prems"(1) False obtain out more where d: "b64_dec_chunk ?c = Inr out" "b64_dec_chunks ?r = Inr more" "data = out @ more"
      by (subst (asm) b64_dec_chunks.simps) (auto simp: res_iff)
    have m: "length ?r mod 4 \<noteq> 1"
    proof (cases "4 \<le> length bs")
      case True
      then have "length bs mod 4 = (length bs - 4) mod 4" by (simp add: le_mod_geq)
      with "1.prems"(2) show ?thesis by simp
    qed simp
    have len: "length ?c = 2 \<or> length ?c = 3 \<or> length ?c = 4"
    proof (cases "4 \<le> length bs")
      case c: False
      then have "length bs = 1 \<or> length bs = 2 \<or> length bs = 3" using False by (cases "length bs") auto
      with "1.prems"(2) show ?thesis by auto
    qed simp
    from dec_chunk_sound [OF d(1) len] have o: "length out = length ?c - 1" "b64_enc_chunk out = ?c" by simp_all
    have more: "base64url_encode more = ?r" using "1.IH" [OF False d(1,2)] m d(2) by simp
    have "out \<noteq> []" using o(1) len by auto
    show ?thesis
    proof (cases "length ?c = 4")
      case True
      then have "length out = 3" using o(1) by simp
      then have "take 3 data = out" "drop 3 data = more" using d(3) by simp_all
      then show ?thesis
        using \<open>out \<noteq> []\<close> o(2) more d(3) by (subst base64url_encode.simps) simp
    next
      case c: False
      then have "?r = []" by simp
      then have "more = []" using d(2) by (simp add: b64_dec_chunks.simps)
      moreover have "length out \<le> 3" using o(1) len by auto
      ultimately show ?thesis
        using \<open>out \<noteq> []\<close> o(2) d(3) \<open>?r = []\<close> more by (subst base64url_encode.simps) simp
    qed
  qed
qed

lemma base64url_decode_iff: "base64url_decode bs = Inr data \<longleftrightarrow> bs = base64url_encode data"
  using base64_decode_encode [of data] base64_encode_decode [of bs data] by (auto simp: base64url_decode_def)

end
