(* ===== verification/Rtp_Offer.thy ===== *)
theory Rtp_Offer
  imports Rtp_Manifest Rtp_Identity Rtp_Base64
begin

text \<open>
  Transfer offers and tickets, \<open>rtp2-core/src/offer.rs\<close>: their encodings, the hash that is signed, the recipient's check of an
  offer, and the ticket URI.
\<close>

section \<open>Offers\<close>

definition OFFER_SIGN_DOMAIN :: bytes where "OFFER_SIGN_DOMAIN = ascii ''RTP2-OFFER-SIGN-v1''"
definition OFFER_MAC_DOMAIN :: bytes where "OFFER_MAC_DOMAIN = ascii ''RTP2-OFFER-MAC-v1''"
definition OFFER_BINDING_DOMAIN :: bytes where "OFFER_BINDING_DOMAIN = ascii ''RTP2-OFFER-BINDING-v1''"
definition TICKET_SCHEME :: bytes where "TICKET_SCHEME = ascii ''rtp2:''"
definition TICKET_VERSION :: u64 where "TICKET_VERSION = 1"
definition MAX_ENVELOPES :: nat where "MAX_ENVELOPES = 64"
definition MAX_PROVIDERS :: nat where "MAX_PROVIDERS = 32"
definition MAX_PROVIDER_ADDR_LEN :: nat where "MAX_PROVIDER_ADDR_LEN = 512"
definition MAX_TICKET_LEN :: nat where "MAX_TICKET_LEN = 8192"

datatype offer_error =
  OEncoding | UnsupportedAuthMode | OUnsupportedVersion | InvalidSignature | OCommitmentMismatch | ScopeMismatch
| OExpired | TooManyEnvelopes | TooManyProviders | ValueTooLong | NoEnvelope

definition offer_err :: "cbor_error \<Rightarrow> offer_error" where
  "offer_err e = OEncoding"

definition offer_of_manifest :: "manifest_error \<Rightarrow> offer_error" where
  "offer_of_manifest e = (case e of CommitmentMismatch \<Rightarrow> OCommitmentMismatch | _ \<Rightarrow> OEncoding)"

datatype auth_mode = BoundSessionMac | StandaloneHybridSignature

fun am_to_u64 :: "auth_mode \<Rightarrow> u64" where
  "am_to_u64 BoundSessionMac = 0"
| "am_to_u64 StandaloneHybridSignature = 1"

definition am_from_u64 :: "u64 \<Rightarrow> offer_error + auth_mode" where
  "am_from_u64 v = (if v = 0 then Inr BoundSessionMac else if v = 1 then Inr StandaloneHybridSignature else Inl UnsupportedAuthMode)"

record key_envelope_entry =
  ke_recipient_device_id :: bytes
  ke_nonce :: bytes
  ke_ciphertext :: bytes

record provider_address =
  pa_kind :: u64
  pa_address :: bytes

definition KIND_SENDER_DEVICE :: u64 where "KIND_SENDER_DEVICE = 0"
definition KIND_RELAY :: u64 where "KIND_RELAY = 1"
definition KIND_VAULT :: u64 where "KIND_VAULT = 2"

text \<open>The signing input of the first draft, which covers the manifest and the scope only.\<close>

definition offer_signing_hash_spec :: "prims \<Rightarrow> bytes \<Rightarrow> recipient_scope \<Rightarrow> bytes option" where
  "offer_signing_hash_spec C manifest_commitment scope = do {
     h \<leftarrow> rs_hash C scope;
     Some (sha384 C [OFFER_SIGN_DOMAIN, manifest_commitment, h]) }"

definition ke_encode :: "key_envelope_entry \<Rightarrow> writer \<Rightarrow> writer option" where
  "ke_encode e w = do {
     let m = mw_begin w 3;
     m \<leftarrow> mw_bytes m 0 (ke_recipient_device_id e);
     m \<leftarrow> mw_bytes m 1 (ke_nonce e);
     m \<leftarrow> mw_bytes m 2 (ke_ciphertext e);
     mw_end m }"

definition pa_encode :: "provider_address \<Rightarrow> writer \<Rightarrow> writer option" where
  "pa_encode p w = do {
     let m = mw_begin w 2;
     m \<leftarrow> mw_uint m 0 (pa_kind p);
     m \<leftarrow> mw_bytes m 1 (pa_address p);
     mw_end m }"

definition offer_binding_hash ::
  "prims \<Rightarrow> key_envelope_entry list \<Rightarrow> provider_address list \<Rightarrow> device_public \<Rightarrow> auth_mode \<Rightarrow> bytes option" where
  "offer_binding_hash C envelopes providers sender_device mode = do {
     let m = mw_begin [] 4;
     m \<leftarrow> mw_nested m 0 (\<lambda>w. encode_all ke_encode envelopes (w_array w (of_nat (length envelopes))));
     m \<leftarrow> mw_nested m 1 (\<lambda>w. encode_all pa_encode providers (w_array w (of_nat (length providers))));
     m \<leftarrow> mw_nested m 2 (dp_encode sender_device);
     m \<leftarrow> mw_uint m 3 (am_to_u64 mode);
     e \<leftarrow> mw_end m;
     Some (blake3 C (OFFER_BINDING_DOMAIN @ e)) }"

definition offer_signing_hash :: "prims \<Rightarrow> bytes \<Rightarrow> recipient_scope \<Rightarrow> bytes \<Rightarrow> bytes option" where
  "offer_signing_hash C manifest_commitment scope offer_binding = do {
     h \<leftarrow> rs_hash C scope;
     Some (sha384 C [OFFER_SIGN_DOMAIN, manifest_commitment, h, offer_binding]) }"

definition offer_mac_message :: "prims \<Rightarrow> bytes \<Rightarrow> recipient_scope \<Rightarrow> bytes option" where
  "offer_mac_message C manifest_commitment scope = do {
     h \<leftarrow> rs_hash C scope;
     Some (OFFER_MAC_DOMAIN @ manifest_commitment @ h) }"

record transfer_offer =
  of_public_manifest_bytes :: bytes
  of_sealed_manifest :: sealed_manifest
  of_key_envelopes :: "key_envelope_entry list"
  of_providers :: "provider_address list"
  of_sender_device :: device_public
  of_recipient_scope :: recipient_scope
  of_auth_mode :: auth_mode
  of_signature :: hybrid_signature

definition offer_create ::
  "prims \<Rightarrow> pk_prims \<Rightarrow> bytes \<Rightarrow> device_identity \<Rightarrow> public_manifest \<Rightarrow> sealed_manifest \<Rightarrow> key_envelope_entry list \<Rightarrow>
    provider_address list \<Rightarrow> recipient_scope \<Rightarrow> (offer_error + transfer_offer) option" where
  "offer_create C K randomness identity public sealed envelopes providers scope =
    (case pm_validate public of
       Inl e \<Rightarrow> Some (Inl (offer_of_manifest e))
     | Inr _ \<Rightarrow>
         if envelopes = [] then Some (Inl NoEnvelope)
         else if length envelopes > MAX_ENVELOPES then Some (Inl TooManyEnvelopes)
         else if length providers > MAX_PROVIDERS then Some (Inl TooManyProviders)
         else do {
           commitment \<leftarrow> pm_commitment C public;
           checked \<leftarrow> verify_commitment C public sealed commitment;
           (case checked of
              Inl e \<Rightarrow> Some (Inl (offer_of_manifest e))
            | Inr _ \<Rightarrow> do {
                let sender_device = identity_public K identity;
                let mode = StandaloneHybridSignature;
                binding \<leftarrow> offer_binding_hash C envelopes providers sender_device mode;
                hash \<leftarrow> offer_signing_hash C commitment scope binding;
                (case hybrid_sign K randomness identity hash of
                   Inl _ \<Rightarrow> Some (Inl InvalidSignature)
                 | Inr sig \<Rightarrow> do {
                     bs \<leftarrow> pm_encode public;
                     Some (Inr \<lparr>of_public_manifest_bytes = bs, of_sealed_manifest = sealed, of_key_envelopes = envelopes,
                       of_providers = providers, of_sender_device = sender_device, of_recipient_scope = scope,
                       of_auth_mode = mode, of_signature = sig\<rparr>) }) }) })"

definition encode_scope :: "recipient_scope \<Rightarrow> writer \<Rightarrow> writer option" where
  "encode_scope s w = do {
     let m = mw_begin w 2;
     m \<leftarrow> mw_uint m 0 (rs_scope_type s);
     m \<leftarrow> mw_bytes m 1 (rs_id s);
     mw_end m }"

definition offer_encode :: "transfer_offer \<Rightarrow> bytes option" where
  "offer_encode ofr = do {
     let m = mw_begin [] 9;
     m \<leftarrow> mw_bytes m 0 (of_public_manifest_bytes ofr);
     m \<leftarrow> mw_bytes m 1 (sm_nonce (of_sealed_manifest ofr));
     m \<leftarrow> mw_bytes m 2 (sm_ciphertext (of_sealed_manifest ofr));
     m \<leftarrow> mw_nested m 3 (\<lambda>w. encode_all ke_encode (of_key_envelopes ofr) (w_array w (of_nat (length (of_key_envelopes ofr)))));
     m \<leftarrow> mw_nested m 4 (\<lambda>w. encode_all pa_encode (of_providers ofr) (w_array w (of_nat (length (of_providers ofr)))));
     m \<leftarrow> mw_nested m 5 (dp_encode (of_sender_device ofr));
     m \<leftarrow> mw_nested m 6 (encode_scope (of_recipient_scope ofr));
     m \<leftarrow> mw_uint m 7 (am_to_u64 (of_auth_mode ofr));
     m \<leftarrow> mw_nested m 8 (hs_encode (of_signature ofr));
     mw_end m }"

definition ke_decode :: "reader \<Rightarrow> offer_error + key_envelope_entry \<times> reader" where
  "ke_decode r =
    qm offer_err (r_map r) (\<lambda>m.
    qm id (mr_field offer_err 0 (r_bytes_exact 32) m) (\<lambda>(recipient_device_id, m).
    qm id (mr_field offer_err 1 (r_bytes_exact 24) m) (\<lambda>(nonce, m).
    qm id (mr_field offer_err 2 r_bytes m) (\<lambda>(ciphertext, m).
    qm id (mr_no_more offer_err OEncoding m) (\<lambda>m.
    Inr (\<lparr>ke_recipient_device_id = recipient_device_id, ke_nonce = nonce, ke_ciphertext = ciphertext\<rparr>, mr_reader m))))))"

definition pa_decode :: "reader \<Rightarrow> offer_error + provider_address \<times> reader" where
  "pa_decode r =
    qm offer_err (r_map r) (\<lambda>m.
    qm id (mr_field offer_err 0 r_uint m) (\<lambda>(kind, m).
    qm id (mr_field offer_err 1 r_bytes m) (\<lambda>(address, m).
    qm id (mr_no_more offer_err OEncoding m) (\<lambda>m.
    if length address > MAX_PROVIDER_ADDR_LEN then Inl ValueTooLong
    else Inr (\<lparr>pa_kind = kind, pa_address = address\<rparr>, mr_reader m)))))"

definition decode_scope :: "reader \<Rightarrow> offer_error + recipient_scope \<times> reader" where
  "decode_scope r =
    qm offer_err (r_map r) (\<lambda>m.
    qm id (mr_field offer_err 0 r_uint m) (\<lambda>(scope_type, m).
    qm id (mr_field offer_err 1 r_bytes m) (\<lambda>(ident, m).
    qm id (mr_no_more offer_err OEncoding m) (\<lambda>m.
    if length ident > MAX_PROVIDER_ADDR_LEN then Inl ValueTooLong
    else Inr (\<lparr>rs_scope_type = scope_type, rs_id = ident\<rparr>, mr_reader m)))))"

definition offer_decode :: "bytes \<Rightarrow> offer_error + transfer_offer" where
  "offer_decode bs =
    qm offer_err (r_new bs) (\<lambda>r.
    qm offer_err (r_map r) (\<lambda>m.
    qm id (mr_field offer_err 0 r_bytes m) (\<lambda>(public_manifest_bytes, m).
    qm id (mr_field offer_err 1 (r_bytes_exact 24) m) (\<lambda>(nonce, m).
    qm id (mr_field offer_err 2 r_bytes m) (\<lambda>(ciphertext, m).
    qm offer_err (mr_expect_key 3 m) (\<lambda>m.
    qm id (mr_on (r_bounded offer_err TooManyEnvelopes MAX_ENVELOPES ke_decode) m) (\<lambda>(key_envelopes, m).
    qm offer_err (mr_expect_key 4 m) (\<lambda>m.
    qm id (mr_on (r_bounded offer_err TooManyProviders MAX_PROVIDERS pa_decode) m) (\<lambda>(providers, m).
    qm id (mr_field offer_err 5 dp_decode m) (\<lambda>(sender_device, m).
    qm offer_err (mr_expect_key 6 m) (\<lambda>m.
    qm id (mr_on decode_scope m) (\<lambda>(scope, m).
    qm id (mr_field offer_err 7 r_uint m) (\<lambda>(mode, m).
    qm id (am_from_u64 mode) (\<lambda>auth_mode.
    qm id (mr_field offer_err 8 hs_decode m) (\<lambda>(signature, m).
    qm id (mr_no_more offer_err OEncoding m) (\<lambda>m.
    qm offer_err (r_finish (mr_reader m)) (\<lambda>_.
    if key_envelopes = [] then Inl NoEnvelope
    else Inr \<lparr>of_public_manifest_bytes = public_manifest_bytes,
           of_sealed_manifest = \<lparr>sm_nonce = nonce, sm_ciphertext = ciphertext\<rparr>, of_key_envelopes = key_envelopes,
           of_providers = providers, of_sender_device = sender_device, of_recipient_scope = scope,
           of_auth_mode = auth_mode, of_signature = signature\<rparr>)))))))))))))))))"

definition offer_verify ::
  "prims \<Rightarrow> pk_prims \<Rightarrow> transfer_offer \<Rightarrow> recipient_scope \<Rightarrow> u64 \<Rightarrow> (offer_error + public_manifest) option" where
  "offer_verify C K ofr expected_scope now =
    (if of_auth_mode ofr \<noteq> StandaloneHybridSignature then Some (Inl UnsupportedAuthMode)
     else if of_recipient_scope ofr \<noteq> expected_scope then Some (Inl ScopeMismatch)
     else
       (case pm_decode (of_public_manifest_bytes ofr) of
          Inl e \<Rightarrow> Some (Inl (offer_of_manifest e))
        | Inr public \<Rightarrow>
            if pm_suite_id public \<noteq> SUITE_ID then Some (Inl OUnsupportedVersion)
            else do {
              commitment \<leftarrow> pm_commitment C public;
              checked \<leftarrow> verify_commitment C public (of_sealed_manifest ofr) commitment;
              (case checked of
                 Inl e \<Rightarrow> Some (Inl (offer_of_manifest e))
               | Inr _ \<Rightarrow> do {
                   binding \<leftarrow> offer_binding_hash C (of_key_envelopes ofr) (of_providers ofr) (of_sender_device ofr) (of_auth_mode ofr);
                   hash \<leftarrow> offer_signing_hash C commitment (of_recipient_scope ofr) binding;
                   Some (case hybrid_verify K (of_sender_device ofr) hash (of_signature ofr) of
                      Inl _ \<Rightarrow> Inl InvalidSignature
                    | Inr _ \<Rightarrow> if now \<ge> pm_expires_at public then Inl OExpired else Inr public) }) }))"

definition envelope_for :: "transfer_offer \<Rightarrow> bytes \<Rightarrow> key_envelope_entry option" where
  "envelope_for ofr device_id = List.find (\<lambda>e. ct_eq (ke_recipient_device_id e) device_id) (of_key_envelopes ofr)"

definition offer_manifest_commitment :: "prims \<Rightarrow> transfer_offer \<Rightarrow> (offer_error + bytes) option" where
  "offer_manifest_commitment C ofr =
    (case pm_decode (of_public_manifest_bytes ofr) of
       Inl e \<Rightarrow> Some (Inl (offer_of_manifest e))
     | Inr public \<Rightarrow> map_option Inr (pm_commitment C public))"

section \<open>Tickets\<close>

record ticket =
  tk_ticket_version :: u64
  tk_transfer_id :: bytes
  tk_manifest_commitment :: bytes
  tk_provider_addresses :: "provider_address list"
  tk_capability_token :: bytes
  tk_expires_at :: u64
  tk_route_profile :: u8

definition tk_encode :: "ticket \<Rightarrow> bytes option" where
  "tk_encode t = do {
     let m = mw_begin [] 7;
     m \<leftarrow> mw_uint m 0 (tk_ticket_version t);
     m \<leftarrow> mw_bytes m 1 (tk_transfer_id t);
     m \<leftarrow> mw_bytes m 2 (tk_manifest_commitment t);
     m \<leftarrow> mw_nested m 3 (\<lambda>w. encode_all pa_encode (tk_provider_addresses t) (w_array w (of_nat (length (tk_provider_addresses t)))));
     m \<leftarrow> mw_bytes m 4 (tk_capability_token t);
     m \<leftarrow> mw_uint m 5 (tk_expires_at t);
     m \<leftarrow> mw_uint m 6 (ucast (tk_route_profile t));
     mw_end m }"

text \<open>The provider list of a ticket, which must not be empty.\<close>

definition r_ticket_providers :: "reader \<Rightarrow> offer_error + provider_address list \<times> reader" where
  "r_ticket_providers r =
    qm offer_err (r_array r) (\<lambda>(count, r).
      if count = 0 \<or> unat count > MAX_PROVIDERS then Inl TooManyProviders
      else qm id (read_n pa_decode (unat count) r) (\<lambda>(ps, r). Inr (ps, r_leave r)))"

definition tk_decode :: "bytes \<Rightarrow> offer_error + ticket" where
  "tk_decode bs =
    qm offer_err (r_new bs) (\<lambda>r.
    qm offer_err (r_map r) (\<lambda>m.
    qm id (mr_field offer_err 0 r_uint m) (\<lambda>(ticket_version, m).
    if ticket_version \<noteq> TICKET_VERSION then Inl OUnsupportedVersion else
    qm id (mr_field offer_err 1 (r_bytes_exact 32) m) (\<lambda>(transfer_id, m).
    qm id (mr_field offer_err 2 (r_bytes_exact 32) m) (\<lambda>(manifest_commitment, m).
    qm offer_err (mr_expect_key 3 m) (\<lambda>m.
    qm id (mr_on r_ticket_providers m) (\<lambda>(provider_addresses, m).
    qm id (mr_field offer_err 4 r_bytes m) (\<lambda>(capability_token, m).
    qm id (mr_field offer_err 5 r_uint m) (\<lambda>(expires_at, m).
    qm id (mr_field offer_err 6 r_uint m) (\<lambda>(route_profile, m).
    if route_profile > 3 then Inl OEncoding else
    qm id (mr_no_more offer_err OEncoding m) (\<lambda>m.
    qm offer_err (r_finish (mr_reader m)) (\<lambda>_.
    Inr \<lparr>tk_ticket_version = ticket_version, tk_transfer_id = transfer_id, tk_manifest_commitment = manifest_commitment,
         tk_provider_addresses = provider_addresses, tk_capability_token = capability_token, tk_expires_at = expires_at,
         tk_route_profile = ucast route_profile\<rparr>))))))))))))"

definition tk_to_uri :: "ticket \<Rightarrow> bytes option" where
  "tk_to_uri t = do { e \<leftarrow> tk_encode t; Some (TICKET_SCHEME @ base64url_encode e) }"

definition strip_prefix :: "bytes \<Rightarrow> bytes \<Rightarrow> bytes option" where
  "strip_prefix p s = (if take (length p) s = p then Some (drop (length p) s) else None)"

definition tk_from_uri :: "bytes \<Rightarrow> offer_error + ticket" where
  "tk_from_uri uri =
    (if length uri > MAX_TICKET_LEN then Inl ValueTooLong
     else
       qm id (ok_or OEncoding (strip_prefix TICKET_SCHEME uri)) (\<lambda>body.
       qm (\<lambda>_. OEncoding) (base64url_decode body) tk_decode))"

definition check_fresh :: "ticket \<Rightarrow> u64 \<Rightarrow> offer_error + unit" where
  "check_fresh t now = (if now \<ge> tk_expires_at t then Inl OExpired else Inr ())"

section \<open>Wire format\<close>

definition ke_bytes :: "key_envelope_entry \<Rightarrow> bytes" where
  "ke_bytes e = enc_map 3 @ enc_uint 0 @ enc_bytes (ke_recipient_device_id e) @ enc_uint 1 @ enc_bytes (ke_nonce e) @
    enc_uint 2 @ enc_bytes (ke_ciphertext e)"

definition ke_ok :: "key_envelope_entry \<Rightarrow> bool" where
  "ke_ok e \<longleftrightarrow> length (ke_recipient_device_id e) = 32 \<and> length (ke_nonce e) = 24 \<and> length (ke_ciphertext e) < 2 ^ 64"

definition pa_bytes :: "provider_address \<Rightarrow> bytes" where
  "pa_bytes p = enc_map 2 @ enc_uint 0 @ enc_uint (pa_kind p) @ enc_uint 1 @ enc_bytes (pa_address p)"

definition pa_ok :: "provider_address \<Rightarrow> bool" where
  "pa_ok p \<longleftrightarrow> length (pa_address p) \<le> MAX_PROVIDER_ADDR_LEN"

lemma ke_encode_eq: "ke_encode e w = Some (w @ ke_bytes e)"
  by (simp add: ke_encode_def mw_simps ke_bytes_def)

lemma pa_encode_eq: "pa_encode p w = Some (w @ pa_bytes p)"
  by (simp add: pa_encode_def mw_simps pa_bytes_def)

lemma encode_scope_eq: "encode_scope s w = Some (w @ rs_bytes s)"
  by (simp add: encode_scope_def mw_simps rs_bytes_def)

lemma encode_lists_eq:
  "encode_all ke_encode es w = Some (w @ concat (map ke_bytes es))" "encode_all pa_encode ps w = Some (w @ concat (map pa_bytes ps))"
  by (simp_all add: encode_all_eq ke_encode_eq pa_encode_eq)

interpretation kes: list_codec ke_bytes ke_decode ke_ok 1 offer_err TooManyEnvelopes MAX_ENVELOPES
proof
  fix d pre bs x r' assume d: "d + 1 \<le> MAX_DEPTH"
  show "ke_decode (rdr pre bs d) = Inr (x, r') \<longleftrightarrow> ke_ok x \<and> (\<exists>rest. bs = ke_bytes x @ rest \<and> r' = rdr (pre @ ke_bytes x) rest d)"
    (is "?L \<longleftrightarrow> ?R")
  proof
    assume ?L
    then show ?R by (auto simp: ke_decode_def ke_bytes_def ke_ok_def res_iff cbor_iff)
  next
    assume ?R
    with d show ?L by (cases x) (auto simp: ke_decode_def ke_bytes_def ke_ok_def cbor_fwd)
  qed
qed (simp_all add: MAX_DEPTH_def MAX_ENVELOPES_def)

interpretation pas: list_codec pa_bytes pa_decode pa_ok 1 offer_err TooManyProviders MAX_PROVIDERS
proof
  fix d pre bs x r' assume d: "d + 1 \<le> MAX_DEPTH"
  show "pa_decode (rdr pre bs d) = Inr (x, r') \<longleftrightarrow> pa_ok x \<and> (\<exists>rest. bs = pa_bytes x @ rest \<and> r' = rdr (pre @ pa_bytes x) rest d)"
    (is "?L \<longleftrightarrow> ?R")
  proof
    assume ?L
    then show ?R by (auto simp: pa_decode_def pa_bytes_def pa_ok_def res_iff cbor_iff split: if_splits)
  next
    assume ?R
    with d show ?L by (cases x) (auto simp: pa_decode_def pa_bytes_def pa_ok_def cbor_fwd MAX_PROVIDER_ADDR_LEN_def)
  qed
qed (simp_all add: MAX_DEPTH_def MAX_PROVIDERS_def)

interpretation offer_scopes: codec rs_bytes decode_scope "\<lambda>s. length (rs_id s) \<le> MAX_PROVIDER_ADDR_LEN" 1
proof
  fix d pre bs s r' assume d: "d + 1 \<le> MAX_DEPTH"
  show "decode_scope (rdr pre bs d) = Inr (s, r') \<longleftrightarrow>
      length (rs_id s) \<le> MAX_PROVIDER_ADDR_LEN \<and> (\<exists>rest. bs = rs_bytes s @ rest \<and> r' = rdr (pre @ rs_bytes s) rest d)" (is "?L \<longleftrightarrow> ?R")
  proof
    assume ?L
    then show ?R by (auto simp: decode_scope_def rs_bytes_def res_iff cbor_iff split: if_splits)
  next
    assume ?R
    with d show ?L by (cases s) (auto simp: decode_scope_def rs_bytes_def cbor_fwd MAX_PROVIDER_ADDR_LEN_def)
  qed
qed (simp add: MAX_DEPTH_def)

text \<open>The nested readers of an offer at the depth of its fields.\<close>

lemma nested_offer:
  "r_bounded offer_err TooManyEnvelopes MAX_ENVELOPES ke_decode (rdr pre bs (Suc 0)) = Inr (es, r') \<longleftrightarrow>
    (length es \<le> MAX_ENVELOPES \<and> list_all ke_ok es) \<and>
    (\<exists>rest. bs = enc_list ke_bytes es @ rest \<and> r' = rdr (pre @ enc_list ke_bytes es) rest (Suc 0))"
  "r_bounded offer_err TooManyProviders MAX_PROVIDERS pa_decode (rdr pre bs (Suc 0)) = Inr (ps, r') \<longleftrightarrow>
    (length ps \<le> MAX_PROVIDERS \<and> list_all pa_ok ps) \<and>
    (\<exists>rest. bs = enc_list pa_bytes ps @ rest \<and> r' = rdr (pre @ enc_list pa_bytes ps) rest (Suc 0))"
  "decode_scope (rdr pre bs (Suc 0)) = Inr (s, r') \<longleftrightarrow>
    length (rs_id s) \<le> MAX_PROVIDER_ADDR_LEN \<and> (\<exists>rest. bs = rs_bytes s @ rest \<and> r' = rdr (pre @ rs_bytes s) rest (Suc 0))"
  "dp_decode (rdr pre bs (Suc 0)) = Inr (dv, r') \<longleftrightarrow>
    dp_ok dv \<and> (\<exists>rest. bs = dp_bytes dv @ rest \<and> r' = rdr (pre @ dp_bytes dv) rest (Suc 0))"
  "hs_decode (rdr pre bs (Suc 0)) = Inr (sg, r') \<longleftrightarrow>
    hs_ok sg \<and> (\<exists>rest. bs = hs_bytes sg @ rest \<and> r' = rdr (pre @ hs_bytes sg) rest (Suc 0))"
  by (simp_all add: kes.bounded_iff pas.bounded_iff offer_scopes.dec_iff dps.dec_iff sigs.dec_iff MAX_DEPTH_def)

definition offer_bytes :: "transfer_offer \<Rightarrow> bytes" where
  "offer_bytes ofr = enc_map 9 @ enc_uint 0 @ enc_bytes (of_public_manifest_bytes ofr) @
    enc_uint 1 @ enc_bytes (sm_nonce (of_sealed_manifest ofr)) @ enc_uint 2 @ enc_bytes (sm_ciphertext (of_sealed_manifest ofr)) @
    enc_uint 3 @ enc_list ke_bytes (of_key_envelopes ofr) @ enc_uint 4 @ enc_list pa_bytes (of_providers ofr) @
    enc_uint 5 @ dp_bytes (of_sender_device ofr) @ enc_uint 6 @ rs_bytes (of_recipient_scope ofr) @
    enc_uint 7 @ enc_uint (am_to_u64 (of_auth_mode ofr)) @ enc_uint 8 @ hs_bytes (of_signature ofr)"

definition offer_ok :: "transfer_offer \<Rightarrow> bool" where
  "offer_ok ofr \<longleftrightarrow> length (sm_nonce (of_sealed_manifest ofr)) = 24 \<and>
    length (of_public_manifest_bytes ofr) < 2 ^ 64 \<and> length (sm_ciphertext (of_sealed_manifest ofr)) < 2 ^ 64 \<and>
    of_key_envelopes ofr \<noteq> [] \<and> length (of_key_envelopes ofr) \<le> MAX_ENVELOPES \<and> list_all ke_ok (of_key_envelopes ofr) \<and>
    length (of_providers ofr) \<le> MAX_PROVIDERS \<and> list_all pa_ok (of_providers ofr) \<and> dp_ok (of_sender_device ofr) \<and>
    length (rs_id (of_recipient_scope ofr)) \<le> MAX_PROVIDER_ADDR_LEN \<and> hs_ok (of_signature ofr)"

lemma offer_encode_eq: "offer_encode ofr = Some (offer_bytes ofr)"
  by (simp add: offer_encode_def mw_simps encode_lists_eq dp_encode_eq hs_encode_eq encode_scope_eq offer_bytes_def enc_list_def)

lemma am_from_u64_iff [res_iff]: "am_from_u64 v = Inr a \<longleftrightarrow> v = am_to_u64 a"
  by (cases a) (auto simp: am_from_u64_def)

lemma am_from_to [simp]: "am_from_u64 (am_to_u64 a) = Inr a"
  by (simp add: am_from_u64_iff)

lemma offer_decode_sound:
  assumes "offer_decode bs = Inr ofr"
  shows "length bs \<le> MAX_CONTROL_SIZE \<and> offer_ok ofr \<and> bs = offer_bytes ofr"
  using assms
  by (auto simp: offer_decode_def res_iff cbor_iff nested_offer offer_ok_def offer_bytes_def split: if_splits)

lemma hs_decode_end: "hs_ok sg \<Longrightarrow> hs_decode (rdr pre (hs_bytes sg) (Suc 0)) = Inr (sg, rdr (pre @ hs_bytes sg) [] (Suc 0))"
  using nested_offer(5) [of pre "hs_bytes sg" sg] by simp

lemma offer_decode_complete:
  assumes "length (offer_bytes ofr) \<le> MAX_CONTROL_SIZE" and "offer_ok ofr"
  shows "offer_decode (offer_bytes ofr) = Inr ofr"
proof (cases ofr)
  case (fields pb sealed es ps sd sc am sg)
  obtain n c where "sealed = \<lparr>sm_nonce = n, sm_ciphertext = c\<rparr>" by (cases sealed)
  with assms show ?thesis
    by (auto simp: fields offer_decode_def offer_bytes_def offer_ok_def r_new_eq cbor_fwd MAX_DEPTH_def nested_offer hs_decode_end)
qed

section \<open>Sizes\<close>

lemma length_ke_bytes: "ke_ok e \<Longrightarrow> length (ke_ciphertext e) \<le> 4096 \<Longrightarrow> length (ke_bytes e) \<le> 4215"
  unfolding ke_bytes_def by (rule order_trans, (rule len_rules)+) (simp add: ke_ok_def)

lemma length_pa_bytes: "pa_ok p \<Longrightarrow> length (pa_bytes p) \<le> 557"
  unfolding pa_bytes_def by (rule order_trans, (rule len_rules)+) (simp add: pa_ok_def MAX_PROVIDER_ADDR_LEN_def)

lemma length_enc_list: "(\<And>x. x \<in> set xs \<Longrightarrow> length (enc x) \<le> b) \<Longrightarrow> length xs \<le> n \<Longrightarrow> length (enc_list enc xs) \<le> 9 + n * b"
  unfolding enc_list_def by (intro len_app length_enc order_trans [OF length_concat_le]) (auto intro: mult_le_mono1)

lemma length_offer_bytes:
  assumes "offer_ok ofr" and "length (of_public_manifest_bytes ofr) \<le> 250000"
    and "length (sm_ciphertext (of_sealed_manifest ofr)) \<le> 250000"
    and "list_all (\<lambda>e. length (ke_ciphertext e) \<le> 4096) (of_key_envelopes ofr)"
  shows "length (offer_bytes ofr) \<le> 900000"
proof -
  have "length (enc_list ke_bytes (of_key_envelopes ofr)) \<le> 9 + 64 * 4215"
    using assms(1,4) by (intro length_enc_list length_ke_bytes) (simp_all add: offer_ok_def list_all_iff MAX_ENVELOPES_def)
  moreover have "length (enc_list pa_bytes (of_providers ofr)) \<le> 9 + 32 * 557"
    using assms(1) by (intro length_enc_list length_pa_bytes) (simp_all add: offer_ok_def list_all_iff MAX_PROVIDERS_def)
  ultimately have lists: "length (enc_list ke_bytes (of_key_envelopes ofr)) \<le> 269769" "length (enc_list pa_bytes (of_providers ofr)) \<le> 17833"
    by simp_all
  note len = lists len_rules
  show ?thesis
    unfolding offer_bytes_def dp_bytes_def rs_bytes_def hs_bytes_def append_assoc
    by (rule order_trans, (rule len)+)
       (use assms(1-3) in \<open>simp add: offer_ok_def dp_ok_def hs_ok_def MAX_PROVIDER_ADDR_LEN_def\<close>)
qed

section \<open>What is signed\<close>

definition manifest_image :: "public_manifest \<Rightarrow> bytes" where
  "manifest_image p = COMMITMENT_DOMAIN @ pm_bytes p 10 (op_list (pm_objects p)) [] @ pm_private_hash p"

definition scope_image :: "recipient_scope \<Rightarrow> bytes" where
  "scope_image s = SCOPE_DOMAIN @ rs_bytes s"

definition binding_image :: "key_envelope_entry list \<Rightarrow> provider_address list \<Rightarrow> device_public \<Rightarrow> auth_mode \<Rightarrow> bytes" where
  "binding_image es ps sd mode = OFFER_BINDING_DOMAIN @ enc_map 4 @ enc_uint 0 @ enc_list ke_bytes es @
    enc_uint 1 @ enc_list pa_bytes ps @ enc_uint 2 @ dp_bytes sd @ enc_uint 3 @ enc_uint (am_to_u64 mode)"

definition offer_image :: "transfer_offer \<Rightarrow> bytes" where
  "offer_image ofr = binding_image (of_key_envelopes ofr) (of_providers ofr) (of_sender_device ofr) (of_auth_mode ofr)"

definition sign_image :: "prims \<Rightarrow> transfer_offer \<Rightarrow> public_manifest \<Rightarrow> bytes" where
  "sign_image C ofr p = OFFER_SIGN_DOMAIN @ blake3 C (manifest_image p) @ blake3 C (scope_image (of_recipient_scope ofr)) @
    blake3 C (offer_image ofr)"

definition blake3_inputs :: "transfer_offer \<Rightarrow> public_manifest \<Rightarrow> bytes list" where
  "blake3_inputs ofr p = [manifest_image p, scope_image (of_recipient_scope ofr), offer_image ofr,
    sm_nonce (of_sealed_manifest ofr) @ sm_ciphertext (of_sealed_manifest ofr)]"

lemma pm_commitment_eq: "pm_commitment C p = Some (blake3 C (manifest_image p))"
  by (simp add: pm_commitment_def pm_encode_eq manifest_image_def)

lemma signing_hash_eq: "offer_signing_hash C c s b = Some (sha384 C [OFFER_SIGN_DOMAIN, c, blake3 C (scope_image s), b])"
  by (simp add: offer_signing_hash_def rs_hash_def scope_encode_eq scope_image_def)

lemma binding_hash_eq:
  "offer_binding_hash C es ps sd mode = Some (blake3 C (binding_image es ps sd mode))"
  by (simp add: offer_binding_hash_def mw_simps encode_lists_eq dp_encode_eq binding_image_def enc_list_def)

lemma verify_commitment_eq:
  "verify_commitment C p s (blake3 C (manifest_image p)) =
    Some (if pm_private_hash p = sm_ciphertext_hash C s then Inr () else Inl CommitmentMismatch)"
  by (simp add: verify_commitment_def pm_commitment_eq)

lemma pm_decode_suite: "pm_decode bs = Inr p \<Longrightarrow> pm_suite_id p = SUITE_ID"
  using pm_decode_sound [of bs p] by (simp add: pm_ok_def)

lemma offer_verify_iff:
  "offer_verify C K ofr scope now = Some (Inr p) \<longleftrightarrow>
    of_auth_mode ofr = StandaloneHybridSignature \<and> of_recipient_scope ofr = scope \<and> pm_decode (of_public_manifest_bytes ofr) = Inr p \<and>
    pm_private_hash p = sm_ciphertext_hash C (of_sealed_manifest ofr) \<and> now < pm_expires_at p \<and>
    hybrid_verify K (of_sender_device ofr) (prim_sha384 C (sign_image C ofr p)) (of_signature ofr) = Inr ()"
  by (auto simp: offer_verify_def pm_commitment_eq verify_commitment_eq binding_hash_eq signing_hash_eq sha384_def sign_image_def offer_image_def
      dest: pm_decode_suite split: sum.splits if_splits)

lemma offer_verify_total: "offer_verify C K ofr scope now \<noteq> None"
  by (auto simp: offer_verify_def pm_commitment_eq verify_commitment_eq binding_hash_eq signing_hash_eq split: sum.splits)

lemma manifest_image_inj:
  assumes "pm_decode bs = Inr p" "pm_decode bs' = Inr p'" and "manifest_image p = manifest_image p'"
  shows "p = p'"
proof -
  have "length (pm_private_hash p) = length (pm_private_hash p')"
    using assms(1,2) by (simp add: pm_decode_sound [THEN conjunct2, THEN conjunct1, unfolded pm_ok_def])
  with assms(3) have "pm_encode p = pm_encode p'" by (simp add: manifest_image_def pm_encode_eq)
  then show ?thesis
    using assms(1,2) pm_decode_sound [of bs p] pm_decode_sound [of bs' p'] pm_encode_decode [of p] pm_encode_decode [of p'] by force
qed

lemma binding_image_inj:
  assumes "offer_ok a" "offer_ok b" and "offer_image a = offer_image b"
  shows "of_key_envelopes a = of_key_envelopes b \<and> of_providers a = of_providers b \<and> of_sender_device a = of_sender_device b"
  using assms by (simp add: offer_image_def binding_image_def offer_ok_def kes.lists.enc_app pas.lists.enc_app dps.enc_app)

lemma scope_image_inj:
  "offer_ok a \<Longrightarrow> offer_ok b \<Longrightarrow> scope_image (of_recipient_scope a) = scope_image (of_recipient_scope b) \<Longrightarrow>
    of_recipient_scope a = of_recipient_scope b"
  using offer_scopes.enc_app [of "of_recipient_scope a" "of_recipient_scope b" "[]" "[]"] by (simp add: scope_image_def offer_ok_def)

section \<open>Wire format of a ticket\<close>

definition tk_bytes :: "ticket \<Rightarrow> bytes" where
  "tk_bytes t = enc_map 7 @ enc_uint 0 @ enc_uint (tk_ticket_version t) @ enc_uint 1 @ enc_bytes (tk_transfer_id t) @
    enc_uint 2 @ enc_bytes (tk_manifest_commitment t) @ enc_uint 3 @ enc_list pa_bytes (tk_provider_addresses t) @
    enc_uint 4 @ enc_bytes (tk_capability_token t) @ enc_uint 5 @ enc_uint (tk_expires_at t) @
    enc_uint 6 @ enc_uint (ucast (tk_route_profile t))"

definition tk_ok :: "ticket \<Rightarrow> bool" where
  "tk_ok t \<longleftrightarrow> tk_ticket_version t = TICKET_VERSION \<and> length (tk_transfer_id t) = 32 \<and> length (tk_manifest_commitment t) = 32 \<and>
    tk_provider_addresses t \<noteq> [] \<and> length (tk_provider_addresses t) \<le> MAX_PROVIDERS \<and> list_all pa_ok (tk_provider_addresses t) \<and>
    length (tk_capability_token t) < 2 ^ 64 \<and> tk_route_profile t \<le> 3"

lemma tk_encode_eq: "tk_encode t = Some (tk_bytes t)"
  by (simp add: tk_encode_def mw_simps encode_lists_eq tk_bytes_def enc_list_def)

lemma ticket_providers_iff:
  "r_ticket_providers (rdr pre bs (Suc 0)) = Inr (ps, r') \<longleftrightarrow>
    (ps \<noteq> [] \<and> length ps \<le> MAX_PROVIDERS \<and> list_all pa_ok ps) \<and>
    (\<exists>rest. bs = enc_list pa_bytes ps @ rest \<and> r' = rdr (pre @ enc_list pa_bytes ps) rest (Suc 0))" (is "?L \<longleftrightarrow> ?R")
proof
  have n: "read_n pa_decode n (rdr pre bs (Suc (Suc 0))) = Inr (ps, r) \<longleftrightarrow> length ps = n \<and> list_all pa_ok ps \<and>
      (\<exists>rest. bs = concat (map pa_bytes ps) @ rest \<and> r = rdr (pre @ concat (map pa_bytes ps)) rest (Suc (Suc 0)))" for n pre bs r
    by (rule pas.read_n_iff) (simp add: MAX_DEPTH_def)
  { assume ?L
    then obtain count rest r where h: "bs = enc_array count @ rest" "count \<noteq> 0" "unat count \<le> MAX_PROVIDERS"
        "read_n pa_decode (unat count) (rdr (pre @ enc_array count) rest (Suc (Suc 0))) = Inr (ps, r)" "r' = r_leave r"
      by (auto simp: r_ticket_providers_def res_iff cbor_iff not_less split: if_splits)
    then have "length ps = unat count" by (simp add: n)
    with h show ?R by (auto simp: n enc_list_def unat_eq_0) }
  assume r: ?R
  then have "unat (of_nat (length ps) :: u64) = length ps" "(of_nat (length ps) :: u64) \<noteq> 0"
    by (auto simp: MAX_PROVIDERS_def unat_of_nat_small unat_eq_0 [symmetric])
  with r show ?L
    by (auto simp: r_ticket_providers_def cbor_fwd enc_list_def MAX_DEPTH_def pas.read_n_fwd)
qed

lemma unat_ucast_u8: "unat (ucast (v :: u8) :: u64) = unat v"
  using unat_byte_less [of v] by (simp add: unsigned_ucast_eq take_bit_nat_eq_self)

lemma route_byte:
  "v \<le> 3 \<Longrightarrow> ucast (ucast v :: u8) = (v :: u64)" "(3 :: u64) < ucast (w :: u8) \<longleftrightarrow> \<not> w \<le> 3"
  "v \<le> 3 \<Longrightarrow> (ucast v :: u8) \<le> 3"
proof -
  show u: "v \<le> 3 \<Longrightarrow> ucast (ucast v :: u8) = (v :: u64)" for v :: u64
    by (intro ucast_ucast_u64) (simp add: word_le_nat_alt)
  show "(3 :: u64) < ucast (w :: u8) \<longleftrightarrow> \<not> w \<le> 3"
    by (simp add: word_le_nat_alt word_less_nat_alt unat_ucast_u8 not_le)
  show "v \<le> 3 \<Longrightarrow> (ucast v :: u8) \<le> 3"
    using u [of v] unat_ucast_u8 [of "ucast v"] by (simp add: word_le_nat_alt)
qed

lemma tk_decode_sound:
  assumes "tk_decode bs = Inr t"
  shows "length bs \<le> MAX_CONTROL_SIZE \<and> tk_ok t \<and> bs = tk_bytes t"
  using assms
  by (auto simp: tk_decode_def res_iff cbor_iff ticket_providers_iff tk_ok_def tk_bytes_def route_byte not_less
      split: if_splits)

lemma tk_decode_complete:
  assumes "length (tk_bytes t) \<le> MAX_CONTROL_SIZE" and "tk_ok t"
  shows "tk_decode (tk_bytes t) = Inr t"
  using assms
  by (cases t) (auto simp: tk_decode_def tk_bytes_def tk_ok_def r_new_eq cbor_fwd MAX_DEPTH_def ticket_providers_iff route_byte(2) ucast_up_u64)

lemma tk_decode_iff: "tk_decode bs = Inr t \<longleftrightarrow> length bs \<le> MAX_CONTROL_SIZE \<and> tk_ok t \<and> bs = tk_bytes t"
  using tk_decode_sound [of bs t] tk_decode_complete [of t] by blast

lemma length_base64: "length data \<le> length (base64url_encode data)"
proof (induction data rule: base64url_encode.induct)
  case (1 data)
  show ?case
  proof (cases data rule: short_cases)
    case (4 x y z ds)
    then have "base64url_encode data = b64_enc_chunk [x, y, z] @ base64url_encode ds" by (subst base64url_encode.simps) simp
    with 1 4 show ?thesis by (simp add: enc_chunk_eq)
  qed (subst base64url_encode.simps, simp add: enc_chunk_eq)+
qed

lemma strip_prefix_iff: "strip_prefix p s = Some b \<longleftrightarrow> s = p @ b"
  by (auto simp: strip_prefix_def) (metis append_take_drop_id)

lemma tk_from_uri_iff: "tk_from_uri uri = Inr t \<longleftrightarrow> length uri \<le> MAX_TICKET_LEN \<and> tk_ok t \<and> uri = TICKET_SCHEME @ base64url_encode (tk_bytes t)"
proof -
  have "length (tk_bytes t) \<le> MAX_CONTROL_SIZE" if "length (TICKET_SCHEME @ base64url_encode (tk_bytes t)) \<le> MAX_TICKET_LEN"
    using that length_base64 [of "tk_bytes t"] by (simp add: MAX_TICKET_LEN_def MAX_CONTROL_SIZE_def)
  then show ?thesis
    by (auto simp: tk_from_uri_def res_iff strip_prefix_iff base64url_decode_iff tk_decode_iff ok_or_eq_Inr)
qed

section \<open>Offers that are made\<close>

lemma offer_made:
  assumes "sig_ok K" and "kdf_lens C" and "pm_ok public" and "pm_validate public = Inr ()"
    and "pm_private_hash public = sm_ciphertext_hash C sealed" and "length (sm_nonce sealed) = 24"
    and "length (sm_ciphertext sealed) \<le> 250000"
    and "envelopes \<noteq> []" and "length envelopes \<le> MAX_ENVELOPES"
    and "list_all (\<lambda>e. ke_ok e \<and> length (ke_ciphertext e) \<le> 4096) envelopes"
    and "length providers \<le> MAX_PROVIDERS" and "list_all pa_ok providers" and "length (rs_id scope) \<le> MAX_PROVIDER_ADDR_LEN"
  shows "\<exists>ofr bs. offer_create C K randomness (identity_from_seed C K seed) public sealed envelopes providers scope = Some (Inr ofr) \<and>
    offer_encode ofr = Some bs \<and> offer_decode bs = Inr ofr \<and>
    (\<forall>now. offer_verify C K ofr scope now = Some (if now < pm_expires_at public then Inr public else Inl OExpired))"
proof -
  let ?i = "identity_from_seed C K seed" and ?m = StandaloneHybridSignature
  let ?d = "identity_public K ?i"
  let ?h = "sha384 C [OFFER_SIGN_DOMAIN, blake3 C (manifest_image public), blake3 C (scope_image scope), blake3 C (binding_image envelopes providers ?d ?m)]"
  obtain sg where sg: "hybrid_sign K randomness ?i ?h = Inr sg" "hs_ok sg" "hybrid_verify K ?d ?h sg = Inr ()"
    using hybrid_sign_verify [OF assms(1) refl, of randomness C seed ?h] by blast
  define e where "e = pm_bytes public 10 (op_list (pm_objects public)) []"
  define ofr where "ofr = \<lparr>of_public_manifest_bytes = e, of_sealed_manifest = sealed, of_key_envelopes = envelopes,
    of_providers = providers, of_sender_device = ?d, of_recipient_scope = scope, of_auth_mode = ?m, of_signature = sg\<rparr>"
  have e: "pm_encode public = Some e" "pm_decode e = Inr public" "length e \<le> 250000"
    using pm_encode_decode [OF assms(3,4)] length_pm_bytes_le [OF assms(3)] by (auto simp: e_def pm_encode_eq)
  have ok: "offer_ok ofr"
    using assms(6-) e(3) sg(2) identity_public_ok [OF assms(1,2), of seed] by (simp add: offer_ok_def ofr_def list_all_iff)
  have "length (offer_bytes ofr) \<le> 900000"
    using ok e(3) assms(7,10) by (intro length_offer_bytes) (simp_all add: ofr_def list_all_iff)
  then have "length (offer_bytes ofr) \<le> MAX_CONTROL_SIZE" by (simp add: MAX_CONTROL_SIZE_def)
  then have dec: "offer_decode (offer_bytes ofr) = Inr ofr" using ok by (rule offer_decode_complete)
  have create: "offer_create C K randomness ?i public sealed envelopes providers scope = Some (Inr ofr)"
    using assms(4,5,8,9,11) sg(1) e(1)
    by (simp add: offer_create_def pm_commitment_eq verify_commitment_eq binding_hash_eq signing_hash_eq ofr_def Let_def)
  have "offer_verify C K ofr scope now = Some (if now < pm_expires_at public then Inr public else Inl OExpired)" for now
    using e(2) sg(3) assms(3,5)
    by (auto simp: offer_verify_def ofr_def pm_commitment_eq verify_commitment_eq binding_hash_eq signing_hash_eq pm_ok_def not_less)
  with create dec show ?thesis by (intro exI [of _ ofr] exI [of _ "offer_bytes ofr"] conjI allI) (simp_all only: offer_encode_eq)
qed

text \<open>What \<open>offer_create\<close> signs.\<close>

lemma offer_create_parts:
  assumes "offer_create C K rnd identity public sealed envelopes providers scope = Some (Inr a)" and "pm_ok public"
  shows "pm_decode (of_public_manifest_bytes a) = Inr public" and "of_auth_mode a = StandaloneHybridSignature"
    and "of_sender_device a = identity_public K identity" and "pm_private_hash public = sm_ciphertext_hash C (of_sealed_manifest a)"
    and "hybrid_sign K rnd identity (prim_sha384 C (sign_image C a public)) = Inr (of_signature a)"
  using assms pm_encode_decode [OF assms(2)]
  by (auto simp: offer_create_def pm_commitment_eq verify_commitment_eq binding_hash_eq signing_hash_eq sha384_def sign_image_def offer_image_def Let_def
      split: sum.splits if_splits Option.bind_splits)

text \<open>Two offers with the same hash agree in everything the hash covers.\<close>

lemma sign_image_inj:
  assumes "kdf_lens C" and ok: "offer_ok a" "offer_ok b"
    and a: "pm_decode (of_public_manifest_bytes a) = Inr p" "of_auth_mode a = StandaloneHybridSignature" "pm_private_hash p = sm_ciphertext_hash C (of_sealed_manifest a)"
    and b: "pm_decode (of_public_manifest_bytes b) = Inr q" "of_auth_mode b = StandaloneHybridSignature" "pm_private_hash q = sm_ciphertext_hash C (of_sealed_manifest b)"
    and same: "sign_image C a p = sign_image C b q"
    and b3: "no_collision (blake3 C) (blake3_inputs a p) (blake3_inputs b q)"
  shows "p = q \<and> b = a\<lparr>of_public_manifest_bytes := of_public_manifest_bytes b, of_signature := of_signature b\<rparr>"
proof -
  have h: "blake3 C (manifest_image p) = blake3 C (manifest_image q)"
      "blake3 C (scope_image (of_recipient_scope a)) = blake3 C (scope_image (of_recipient_scope b))"
      "blake3 C (offer_image a) = blake3 C (offer_image b)"
    using same by (simp_all add: sign_image_def kdf_lensD [OF assms(1)])
  note nc = b3 [unfolded no_collision_def blake3_inputs_def list.rel_inject]
  have i: "manifest_image p = manifest_image q" "scope_image (of_recipient_scope a) = scope_image (of_recipient_scope b)"
      "offer_image a = offer_image b"
    using nc h by simp_all
  have p: "p = q" using a(1) b(1) i(1) manifest_image_inj by blast
  have "of_recipient_scope a = of_recipient_scope b" using ok i(2) by (rule scope_image_inj)
  moreover have "of_key_envelopes a = of_key_envelopes b \<and> of_providers a = of_providers b \<and> of_sender_device a = of_sender_device b"
    using ok i(3) by (rule binding_image_inj)
  moreover have "sm_nonce (of_sealed_manifest a) @ sm_ciphertext (of_sealed_manifest a) = sm_nonce (of_sealed_manifest b) @ sm_ciphertext (of_sealed_manifest b)"
    using nc a(3) b(3) p unfolding sm_ciphertext_hash_def by metis
  then have "of_sealed_manifest a = of_sealed_manifest b"
    using ok by (intro sealed_manifest.equality) (simp_all add: offer_ok_def)
  ultimately show ?thesis using a(2) b(2) p by (intro conjI transfer_offer.equality) simp_all
qed

section \<open>Examples\<close>

definition sample_sealed :: sealed_manifest where
  "sample_sealed = \<lparr>sm_nonce = replicate 24 0, sm_ciphertext = replicate 16 7\<rparr>"

definition sample_public :: public_manifest where
  "sample_public = \<lparr>pm_protocol_minor = 0, pm_suite_id = SUITE_ID, pm_transfer_id = replicate 32 4, pm_created_at = 5, pm_expires_at = 9,
     pm_route_profile = 0, pm_objects = [sample_object], pm_private_hash = sm_ciphertext_hash sample_prims sample_sealed,
     pm_capability_scheme = CAPABILITY_SCHEME\<rparr>"

definition sample_envelope :: key_envelope_entry where
  "sample_envelope = \<lparr>ke_recipient_device_id = replicate 32 2, ke_nonce = replicate 24 0, ke_ciphertext = replicate 64 8\<rparr>"

definition sample_provider :: provider_address where
  "sample_provider = \<lparr>pa_kind = KIND_SENDER_DEVICE, pa_address = replicate 20 6\<rparr>"

lemma sample_public_ok: "pm_ok sample_public" "pm_validate sample_public = Inr ()"
  by (simp_all add: pm_ok_def sample_public_def sample_object_def op_ok_def sm_ciphertext_hash_def kdf_lensD [OF sample_prims_ok(3)]
      valid_role_def valid_padding_def valid_route_profile_def MANIFEST_MAX_OBJECTS_def pm_validate_def ROLE_PRIMARY_def
      checked_sub_def AEAD_TAG_LEN_def ALLOWED_CHUNK_SIZES_def Let_def)

lemma sample_parts_ok:
  "ke_ok sample_envelope" "length (ke_ciphertext sample_envelope) \<le> 4096" "pa_ok sample_provider"
  "length (sm_nonce sample_sealed) = 24" "length (sm_ciphertext sample_sealed) \<le> 250000"
  "pm_private_hash sample_public = sm_ciphertext_hash sample_prims sample_sealed"
  by (simp_all add: ke_ok_def sample_envelope_def pa_ok_def sample_provider_def MAX_PROVIDER_ADDR_LEN_def sample_sealed_def sample_public_def)

text \<open>The same manifest with an empty extension map behind it.\<close>

definition extended_bytes :: "public_manifest \<Rightarrow> bytes" where
  "extended_bytes p = pm_bytes p 11 (op_list (pm_objects p)) (enc_uint 10 @ enc_map 0)"

lemma extended_bytes_decode:
  assumes "pm_ok p" and "pm_validate p = Inr ()"
  shows "pm_decode (extended_bytes p) = Inr p"
proof (rule pm_decode_complete [OF _ assms])
  have "length (extended_bytes p) \<le> length (pm_bytes p 10 (op_list (pm_objects p)) []) + 27"
    using length_enc(2) [of 11] length_enc(1) [of 10] length_enc(2) [of 0] by (simp add: extended_bytes_def pm_bytes_def)
  then show "length (extended_bytes p) \<le> MAX_CONTROL_SIZE"
    using length_pm_bytes_le [OF assms(1)] by (simp add: MAX_CONTROL_SIZE_def)
  have "ext_wire 1 () (enc_map 0)"
    unfolding ext_wire_def by (intro exI [of _ "[]"]) (simp add: keys_ok_def entries_def MAX_DEPTH_def)
  then have "ext_tail 1 10 (11 - 10) (enc_uint 10 @ enc_map 0)" by (auto simp: ext_tail_def)
  then show "pm_wire p (extended_bytes p)"
    unfolding pm_wire_def extended_bytes_def
    using assms(1) by (intro exI [of _ 11] exI [of _ "op_list (pm_objects p)"] exI [of _ "enc_uint 10 @ enc_map 0"]) (simp add: op_list_wire pm_ok_def)
qed

section \<open>Properties\<close>

text \<open>C38: An offer is read from exactly the bytes the encoder writes for a well-formed offer: one to 64 envelopes, at most 32 providers with
  addresses of at most 512 bytes, keys and signatures of their fixed sizes, a known authentication mode, and the whole within
  the size limit of a control message. A ticket URI within its own limit is read exactly when it is the one made from a well-formed
  ticket: no second spelling of it is accepted.\<close>

theorem offer_exact:
  "(offer_decode bs = Inr ofr \<longleftrightarrow> length bs \<le> MAX_CONTROL_SIZE \<and> offer_ok ofr \<and> offer_encode ofr = Some bs) \<and>
   (tk_from_uri uri = Inr t \<longleftrightarrow> length uri \<le> MAX_TICKET_LEN \<and> tk_ok t \<and> tk_to_uri t = Some uri)"
proof (intro conjI)
  show "offer_decode bs = Inr ofr \<longleftrightarrow> length bs \<le> MAX_CONTROL_SIZE \<and> offer_ok ofr \<and> offer_encode ofr = Some bs"
    using offer_decode_sound [of bs ofr] offer_decode_complete [of ofr] by (auto simp: offer_encode_eq)
  show "tk_from_uri uri = Inr t \<longleftrightarrow> length uri \<le> MAX_TICKET_LEN \<and> tk_ok t \<and> tk_to_uri t = Some uri"
    by (auto simp: tk_from_uri_iff tk_to_uri_def tk_encode_eq)
qed

text \<open>C39: An offer that a device makes from a valid manifest is read back by the recipient and passes the check for its scope at every
  time before the manifest expires, and at no later time, for a sealed manifest of at most 250000 bytes, up to 64 envelopes of at most 4096 bytes, up to 32
  providers, and addresses and a scope of at most 512 bytes.\<close>

theorem offer_accepted:
  assumes "sig_ok K" and "kdf_lens C" and "pm_ok public" and "pm_validate public = Inr ()"
    and "pm_private_hash public = sm_ciphertext_hash C sealed" and "length (sm_nonce sealed) = 24"
    and "length (sm_ciphertext sealed) \<le> 250000"
    and "envelopes \<noteq> []" and "length envelopes \<le> MAX_ENVELOPES"
    and "list_all (\<lambda>e. ke_ok e \<and> length (ke_ciphertext e) \<le> 4096) envelopes"
    and "length providers \<le> MAX_PROVIDERS" and "list_all pa_ok providers" and "length (rs_id scope) \<le> MAX_PROVIDER_ADDR_LEN"
  shows "\<exists>ofr bs. offer_create C K randomness (identity_from_seed C K seed) public sealed envelopes providers scope = Some (Inr ofr) \<and>
    offer_encode ofr = Some bs \<and> offer_decode bs = Inr ofr \<and>
    (\<forall>now. offer_verify C K ofr scope now = Some (if now < pm_expires_at public then Inr public else Inl OExpired))"
  using assms by (rule offer_made)

theorem offer_accepted_witness:
  "\<exists>ofr. offer_create sample_prims sample_pk [] (identity_from_seed sample_prims sample_pk [1]) sample_public sample_sealed [sample_envelope]
      [sample_provider] (rs_device (replicate 32 2)) = Some (Inr ofr) \<and>
    offer_verify sample_prims sample_pk ofr (rs_device (replicate 32 2)) 8 = Some (Inr sample_public)"
  using offer_accepted [OF sample_pk_ok(1) sample_prims_ok(3) sample_public_ok sample_parts_ok(6,4,5),
      of "[sample_envelope]" "[sample_provider]" "rs_device (replicate 32 2)" "[]" "[1]"] sample_parts_ok
  by (auto simp: MAX_ENVELOPES_def MAX_PROVIDERS_def MAX_PROVIDER_ADDR_LEN_def rs_device_def sample_public_def)

text \<open>C7: A recipient accepts under a sender's keys only what that sender offered. Given all the offers a device ever made, an offer that is received,
  carries the device's keys and passes \<open>offer_verify\<close> with a signature that is no forgery is one of those offers in everything: public
  manifest, sealed manifest, envelopes, providers, sending device, scope and mode. That holds when the hash functions have no collision among
  the inputs hashed, and it is enough that one of the two signature schemes is unforgeable. Only the signature itself and the
  bytes around the public manifest may differ: the signature covers what the manifest decodes to, so extension bytes behind it are
  not protected, and any other bytes of the same manifest are accepted in their place.\<close>

theorem offer_tamper_evident:
  assumes C: "kdf_lens C" and K: "sig_ok K" and identity: "identity = identity_from_seed C K seed"
    and made: "\<And>a. a \<in> made \<Longrightarrow> offer_ok a \<and> (\<exists>rnd public sealed envelopes providers scope. pm_ok public \<and>
      offer_create C K rnd identity public sealed envelopes providers scope = Some (Inr a))"
    and b: "offer_decode bs = Inr b" "offer_verify C K b scope now = Some (Inr q)" "of_sender_device b = identity_public K identity"
    and honest: "not_forged K (identity_public K identity) (of_signature ` made) (of_signature b)"
    and hashes: "\<And>a p. a \<in> made \<Longrightarrow> pm_decode (of_public_manifest_bytes a) = Inr p \<Longrightarrow>
      no_collision (blake3 C) (blake3_inputs a p) (blake3_inputs b q) \<and> no_collision (prim_sha384 C) [sign_image C a p] [sign_image C b q]"
  shows "(\<exists>a \<in> made. pm_decode (of_public_manifest_bytes a) = Inr q \<and>
      b = a\<lparr>of_public_manifest_bytes := of_public_manifest_bytes b, of_signature := of_signature b\<rparr>) \<and>
    (\<forall>e. pm_decode e = Inr q \<longrightarrow> offer_verify C K (b\<lparr>of_public_manifest_bytes := e\<rparr>) scope now = Some (Inr q))"
proof -
  note vb = offer_verify_iff [THEN iffD1, OF b(2)]
  obtain a where a: "a \<in> made" "\<forall>m'. hybrid_verify K (identity_public K identity) m' (of_signature a) = Inr () \<longrightarrow> m' = prim_sha384 C (sign_image C b q)"
    using not_forgedD [OF honest, of "prim_sha384 C (sign_image C b q)"] vb b(3) by auto
  obtain rnd public sealed envelopes providers scope' where p: "pm_ok public" "offer_ok a"
    "offer_create C K rnd identity public sealed envelopes providers scope' = Some (Inr a)" using made [OF a(1)] by blast
  note pa = offer_create_parts [OF p(3,1)]
  have "hybrid_verify K (identity_public K identity) (prim_sha384 C (sign_image C a public)) (of_signature a) = Inr ()"
    using hybrid_sign_verify [OF K identity, of rnd "prim_sha384 C (sign_image C a public)"] pa(5) by auto
  then have "sign_image C a public = sign_image C b q"
    using a(2) hashes [OF a(1) pa(1)] by (auto simp: no_collision_def)
  then have "public = q \<and> b = a\<lparr>of_public_manifest_bytes := of_public_manifest_bytes b, of_signature := of_signature b\<rparr>"
    using hashes [OF a(1) pa(1)] vb offer_decode_sound [OF b(1)] by (intro sign_image_inj [OF C p(2) _ pa(1,2,4)]) simp_all
  moreover have "pm_decode e = Inr q \<Longrightarrow> offer_verify C K (b\<lparr>of_public_manifest_bytes := e\<rparr>) scope now = Some (Inr q)" for e
    using vb by (auto simp: offer_verify_iff sign_image_def offer_image_def)
  ultimately show ?thesis using a(1) pa(1) by blast
qed

theorem offer_tamper_evident_witness:
  "\<exists>a b. offer_verify sample_prims showing_pk b (rs_device (replicate 32 2)) 8 = Some (Inr sample_public) \<and>
    b = a\<lparr>of_public_manifest_bytes := of_public_manifest_bytes b, of_signature := of_signature b\<rparr> \<and>
    offer_verify sample_prims showing_pk (b\<lparr>of_public_manifest_bytes := extended_bytes sample_public\<rparr>) (rs_device (replicate 32 2)) 8 =
      Some (Inr sample_public)"
proof -
  let ?s = "rs_device (replicate 32 2)" and ?i = "identity_from_seed sample_prims showing_pk [1]"
  obtain a bs where a: "offer_create sample_prims showing_pk [] ?i sample_public sample_sealed [sample_envelope] [sample_provider] ?s = Some (Inr a)"
      "offer_decode bs = Inr a" "offer_verify sample_prims showing_pk a ?s 8 = Some (Inr sample_public)"
    using offer_made [OF showing_pk_ok sample_prims_ok(3) sample_public_ok sample_parts_ok(6,4,5),
      of "[sample_envelope]" "[sample_provider]" ?s "[]" "[1]"] sample_parts_ok
    by (auto simp: MAX_ENVELOPES_def MAX_PROVIDERS_def MAX_PROVIDER_ADDR_LEN_def rs_device_def sample_public_def)
  note parts = offer_create_parts [OF a(1) sample_public_ok(1)]
  let ?h = "prim_sha384 sample_prims (sign_image sample_prims a sample_public)"
  have len: "length ?h = HASH_LEN" using sample_prims_ok(3) by (simp add: kdf_lens_def)
  have "hs_ed25519 (of_signature a) = show_hash ?h"
    using parts(5) by (cases "of_signature a") (auto simp: hybrid_sign_def showing_pk_def res_iff)
  then have "not_forged showing_pk (identity_public showing_pk ?i) (of_signature ` {a}) (of_signature a)"
    using show_hash_inj [OF len] by (auto simp: not_forged_def showing_pk_def)
  moreover have "offer_ok a" using offer_decode_sound [OF a(2)] by simp
  then have "offer_ok x \<and> (\<exists>rnd public sealed envelopes providers scope. pm_ok public \<and>
      offer_create sample_prims showing_pk rnd ?i public sealed envelopes providers scope = Some (Inr x))" if "x \<in> {a}" for x
    using that a(1) sample_public_ok(1) by blast
  moreover have "no_collision (blake3 sample_prims) (blake3_inputs x p) (blake3_inputs a sample_public) \<and>
      no_collision (prim_sha384 sample_prims) [sign_image sample_prims x p] [sign_image sample_prims a sample_public]"
    if "x \<in> {a}" "pm_decode (of_public_manifest_bytes x) = Inr p" for x p
    using that parts(1) by (simp add: no_collision_refl)
  ultimately have "offer_verify sample_prims showing_pk (a\<lparr>of_public_manifest_bytes := e\<rparr>) ?s 8 = Some (Inr sample_public)"
    if "pm_decode e = Inr sample_public" for e
    using offer_tamper_evident [OF sample_prims_ok(3) showing_pk_ok refl, of "{a}" "[1]" bs a ?s 8 sample_public] a(2,3) parts(3) that by blast
  then show ?thesis using a(3) extended_bytes_decode [OF sample_public_ok] by (intro exI [of _ a]) simp
qed

end
