(* ===== verification/Rtp_Handshake.thy ===== *)
theory Rtp_Handshake
  imports Rtp_Manifest Rtp_Identity Rtp_Control
begin

text \<open>
  The hybrid handshake, \<open>rtp2-core/src/handshake.rs\<close>: the messages, the replay cache, the key schedule, the two state
  machines and session resumption. Random values and the clock are arguments. An encoder gives
  \<^term>\<open>None\<close> only where the source would panic.
\<close>

section \<open>Errors, keys and the replay cache\<close>

definition TH1_DOMAIN :: bytes where "TH1_DOMAIN = ascii ''RTP2-HS-TH1-v1''"
definition TH2_DOMAIN :: bytes where "TH2_DOMAIN = ascii ''RTP2-HS-TH2-v1''"
definition SALT_DOMAIN :: bytes where "SALT_DOMAIN = ascii ''RTP2-HYBRID-SALT-v1''"
definition TIMESTAMP_WINDOW_SECS :: u64 where "TIMESTAMP_WINDOW_SECS = 300"
definition REPLAY_CACHE_CAP :: nat where "REPLAY_CACHE_CAP = 4096"

datatype handshake_error =
  HDecode | HUnsupportedVersion | UnsupportedSuite | PolicyViolation | InvalidKey | HInvalidSignature | InvalidMac
| HReplay | EndpointMismatch | HState

definition hs_err :: "cbor_error \<Rightarrow> handshake_error" where
  "hs_err e = HDecode"

definition hs_of_pqc :: "pqc_error \<Rightarrow> handshake_error" where
  "hs_of_pqc e = InvalidKey"

datatype role = Initiator | Responder

record session_keys =
  sk_role :: role
  sk_handshake_prk :: bytes
  sk_th2 :: bytes
  sk_control_key_c2s :: bytes
  sk_control_key_s2c :: bytes
  sk_transfer_wrap_key :: bytes
  sk_session_resumption_secret :: bytes
  sk_peer :: device_public
  sk_peer_endpoint_id :: bytes

record replay_cache =
  rc_seen :: "bytes set"
  rc_order :: "bytes list"

definition rc_default :: replay_cache where
  "rc_default = \<lparr>rc_seen = {}, rc_order = []\<rparr>"

definition check_and_insert :: "replay_cache \<Rightarrow> bytes \<Rightarrow> bytes \<Rightarrow> bool \<times> replay_cache" where
  "check_and_insert rc device_id nonce =
    (let key = device_id @ nonce
     in if key \<in> rc_seen rc then (False, rc)
        else
          let rc = (if length (rc_order rc) \<ge> REPLAY_CACHE_CAP
                    then (case rc_order rc of
                            [] \<Rightarrow> rc
                          | old # order \<Rightarrow> rc\<lparr>rc_order := order, rc_seen := rc_seen rc - {old}\<rparr>)
                    else rc)
          in (True, rc\<lparr>rc_seen := insert key (rc_seen rc), rc_order := rc_order rc @ [key]\<rparr>))"

section \<open>Messages\<close>

definition MODE_STANDALONE :: u64 where "MODE_STANDALONE = 0"
definition MODE_BOUND_SESSION :: u64 where "MODE_BOUND_SESSION = 1"
definition MODE_ASYNC_PREKEY :: u64 where "MODE_ASYNC_PREKEY = 2"
definition MODE_RESUMPTION :: u64 where "MODE_RESUMPTION = 3"

record client_hello =
  ch_protocol_minor :: u64
  ch_handshake_mode :: u64
  ch_alpn :: bytes
  ch_suites :: "u16 list"
  ch_nonce :: bytes
  ch_ex_pk :: bytes
  ch_kem_pk :: bytes
  ch_pqc_required :: bool
  ch_minimum_security_level :: u64
  ch_cert :: device_public
  ch_endpoint_id :: bytes
  ch_timestamp :: u64

definition w_suite :: "u16 \<Rightarrow> writer \<Rightarrow> writer option" where
  "w_suite s w = Some (w_uint w (ucast s))"

definition w_policy :: "bool \<Rightarrow> u64 \<Rightarrow> writer \<Rightarrow> writer option" where
  "w_policy pqc_required level w = do {
     let m = mw_begin w 2;
     m \<leftarrow> mw_boolean m 0 pqc_required;
     m \<leftarrow> mw_uint m 1 level;
     mw_end m }"

definition ch_encode :: "client_hello \<Rightarrow> bytes option" where
  "ch_encode c = do {
     let m = mw_begin [] 12;
     m \<leftarrow> mw_uint m 0 (ucast PROTOCOL_MAJOR);
     m \<leftarrow> mw_uint m 1 (ch_protocol_minor c);
     m \<leftarrow> mw_uint m 2 (ch_handshake_mode c);
     m \<leftarrow> mw_bytes m 3 (ch_alpn c);
     m \<leftarrow> mw_nested m 4 (\<lambda>w. encode_all w_suite (ch_suites c) (w_array w (of_nat (length (ch_suites c)))));
     m \<leftarrow> mw_bytes m 5 (ch_nonce c);
     m \<leftarrow> mw_bytes m 6 (ch_ex_pk c);
     m \<leftarrow> mw_bytes m 7 (ch_kem_pk c);
     m \<leftarrow> mw_nested m 8 (w_policy (ch_pqc_required c) (ch_minimum_security_level c));
     m \<leftarrow> mw_nested m 9 (dp_encode (ch_cert c));
     m \<leftarrow> mw_bytes m 10 (ch_endpoint_id c);
     m \<leftarrow> mw_uint m 11 (ch_timestamp c);
     mw_end m }"

definition r_suite :: "reader \<Rightarrow> handshake_error + u16 \<times> reader" where
  "r_suite r = qm hs_err (r_uint r) (\<lambda>(s, r). if s > 0xFFFF then Inl HDecode else Inr (ucast s, r))"

definition r_suites :: "reader \<Rightarrow> handshake_error + u16 list \<times> reader" where
  "r_suites r =
    qm hs_err (r_array r) (\<lambda>(n, r).
      if n = 0 \<or> n > 32 then Inl HDecode
      else qm id (read_n r_suite (unat n) r) (\<lambda>(suites, r). Inr (suites, r_leave r)))"

definition r_policy :: "reader \<Rightarrow> handshake_error + (bool \<times> u64) \<times> reader" where
  "r_policy r =
    qm hs_err (r_map r) (\<lambda>m.
    qm id (mr_field hs_err 0 r_boolean m) (\<lambda>(req, m).
    qm id (mr_field hs_err 1 r_uint m) (\<lambda>(level, m).
    qm id (mr_no_more hs_err HDecode m) (\<lambda>m.
    Inr ((req, level), mr_reader m)))))"

definition ch_decode :: "bytes \<Rightarrow> handshake_error + client_hello" where
  "ch_decode bs =
    qm hs_err (r_new bs) (\<lambda>r.
    qm hs_err (r_map r) (\<lambda>m.
    qm id (mr_field hs_err 0 r_uint m) (\<lambda>(major, m).
    if major \<noteq> ucast PROTOCOL_MAJOR then Inl HUnsupportedVersion else
    qm id (mr_field hs_err 1 r_uint m) (\<lambda>(protocol_minor, m).
    qm id (mr_field hs_err 2 r_uint m) (\<lambda>(handshake_mode, m).
    qm id (mr_field hs_err 3 r_bytes m) (\<lambda>(alpn, m).
    if length alpn > 64 then Inl HDecode else
    qm hs_err (mr_expect_key 4 m) (\<lambda>m.
    qm id (mr_on r_suites m) (\<lambda>(suites, m).
    qm id (mr_field hs_err 5 (r_bytes_exact 32) m) (\<lambda>(nonce, m).
    qm id (mr_field hs_err 6 (r_bytes_exact 32) m) (\<lambda>(ex_pk, m).
    qm id (mr_field hs_err 7 (r_bytes_exact MLKEM768_PUBLIC_KEY_LEN) m) (\<lambda>(kem_pk, m).
    qm hs_err (mr_expect_key 8 m) (\<lambda>m.
    qm id (mr_on r_policy m) (\<lambda>((pqc_required, minimum_security_level), m).
    qm id (mr_field hs_err 9 dp_decode m) (\<lambda>(cert, m).
    qm id (mr_field hs_err 10 (r_bytes_exact 32) m) (\<lambda>(endpoint_id, m).
    qm id (mr_field hs_err 11 r_uint m) (\<lambda>(timestamp, m).
    qm id (mr_no_more hs_err HDecode m) (\<lambda>m.
    qm hs_err (r_finish (mr_reader m)) (\<lambda>_.
    Inr \<lparr>ch_protocol_minor = protocol_minor, ch_handshake_mode = handshake_mode, ch_alpn = alpn, ch_suites = suites,
         ch_nonce = nonce, ch_ex_pk = ex_pk, ch_kem_pk = kem_pk, ch_pqc_required = pqc_required,
         ch_minimum_security_level = minimum_security_level, ch_cert = cert, ch_endpoint_id = endpoint_id,
         ch_timestamp = timestamp\<rparr>))))))))))))))))))"

record server_hello =
  sh_selected_minor :: u64
  sh_handshake_mode :: u64
  sh_alpn :: bytes
  sh_selected_suite :: u16
  sh_nonce :: bytes
  sh_ex_pk :: bytes
  sh_kem_pk :: bytes
  sh_ct_to_a :: bytes
  sh_cert :: device_public
  sh_endpoint_id :: bytes
  sh_signature :: "hybrid_signature option"

definition sh_encode :: "server_hello \<Rightarrow> bool \<Rightarrow> bytes option" where
  "sh_encode s with_signature = do {
     let m = mw_begin [] (if with_signature then 12 else 11);
     m \<leftarrow> mw_uint m 0 (ucast PROTOCOL_MAJOR);
     m \<leftarrow> mw_uint m 1 (sh_selected_minor s);
     m \<leftarrow> mw_uint m 2 (sh_handshake_mode s);
     m \<leftarrow> mw_bytes m 3 (sh_alpn s);
     m \<leftarrow> mw_uint m 4 (ucast (sh_selected_suite s));
     m \<leftarrow> mw_bytes m 5 (sh_nonce s);
     m \<leftarrow> mw_bytes m 6 (sh_ex_pk s);
     m \<leftarrow> mw_bytes m 7 (sh_kem_pk s);
     m \<leftarrow> mw_bytes m 8 (sh_ct_to_a s);
     m \<leftarrow> mw_nested m 9 (dp_encode (sh_cert s));
     m \<leftarrow> mw_bytes m 10 (sh_endpoint_id s);
     m \<leftarrow> (if with_signature then do { sig \<leftarrow> sh_signature s; mw_nested m 11 (hs_encode sig) } else Some m);
     mw_end m }"

definition sh_decode :: "bytes \<Rightarrow> handshake_error + server_hello" where
  "sh_decode bs =
    qm hs_err (r_new bs) (\<lambda>r.
    qm hs_err (r_map r) (\<lambda>m.
    qm id (mr_field hs_err 0 r_uint m) (\<lambda>(major, m).
    if major \<noteq> ucast PROTOCOL_MAJOR then Inl HUnsupportedVersion else
    qm id (mr_field hs_err 1 r_uint m) (\<lambda>(selected_minor, m).
    qm id (mr_field hs_err 2 r_uint m) (\<lambda>(handshake_mode, m).
    qm id (mr_field hs_err 3 r_bytes m) (\<lambda>(alpn, m).
    if length alpn > 64 then Inl HDecode else
    qm id (mr_field hs_err 4 r_uint m) (\<lambda>(selected, m).
    if selected > 0xFFFF then Inl HDecode else
    qm id (mr_field hs_err 5 (r_bytes_exact 32) m) (\<lambda>(nonce, m).
    qm id (mr_field hs_err 6 (r_bytes_exact 32) m) (\<lambda>(ex_pk, m).
    qm id (mr_field hs_err 7 (r_bytes_exact MLKEM768_PUBLIC_KEY_LEN) m) (\<lambda>(kem_pk, m).
    qm id (mr_field hs_err 8 (r_bytes_exact MLKEM768_CIPHERTEXT_LEN) m) (\<lambda>(ct_to_a, m).
    qm id (mr_field hs_err 9 dp_decode m) (\<lambda>(cert, m).
    qm id (mr_field hs_err 10 (r_bytes_exact 32) m) (\<lambda>(endpoint_id, m).
    qm id (mr_field hs_err 11 hs_decode m) (\<lambda>(signature, m).
    qm id (mr_no_more hs_err HDecode m) (\<lambda>m.
    qm hs_err (r_finish (mr_reader m)) (\<lambda>_.
    Inr \<lparr>sh_selected_minor = selected_minor, sh_handshake_mode = handshake_mode, sh_alpn = alpn,
         sh_selected_suite = ucast selected, sh_nonce = nonce, sh_ex_pk = ex_pk, sh_kem_pk = kem_pk, sh_ct_to_a = ct_to_a,
         sh_cert = cert, sh_endpoint_id = endpoint_id, sh_signature = Some signature\<rparr>))))))))))))))))"

record client_finish =
  cf_ct_to_b :: bytes
  cf_signature :: "hybrid_signature option"
  cf_finished_mac :: "bytes option"

definition cf_encode_bare :: "bytes \<Rightarrow> bytes option" where
  "cf_encode_bare ct_to_b = do {
     let m = mw_begin [] 1;
     m \<leftarrow> mw_bytes m 0 ct_to_b;
     mw_end m }"

definition cf_encode_full :: "client_finish \<Rightarrow> bytes option" where
  "cf_encode_full c = do {
     let m = mw_begin [] 3;
     m \<leftarrow> mw_bytes m 0 (cf_ct_to_b c);
     sig \<leftarrow> cf_signature c;
     m \<leftarrow> mw_nested m 1 (hs_encode sig);
     mac \<leftarrow> cf_finished_mac c;
     m \<leftarrow> mw_bytes m 2 mac;
     mw_end m }"

definition cf_decode :: "bytes \<Rightarrow> handshake_error + client_finish" where
  "cf_decode bs =
    qm hs_err (r_new bs) (\<lambda>r.
    qm hs_err (r_map r) (\<lambda>m.
    qm id (mr_field hs_err 0 (r_bytes_exact MLKEM768_CIPHERTEXT_LEN) m) (\<lambda>(ct_to_b, m).
    qm id (mr_field hs_err 1 hs_decode m) (\<lambda>(signature, m).
    qm id (mr_field hs_err 2 (r_bytes_exact 48) m) (\<lambda>(finished_mac, m).
    qm id (mr_no_more hs_err HDecode m) (\<lambda>m.
    qm hs_err (r_finish (mr_reader m)) (\<lambda>_.
    Inr \<lparr>cf_ct_to_b = ct_to_b, cf_signature = Some signature, cf_finished_mac = Some finished_mac\<rparr>)))))))"

definition encode_server_finish :: "bytes \<Rightarrow> bytes option" where
  "encode_server_finish mac = do {
     let m = mw_begin [] 1;
     m \<leftarrow> mw_bytes m 0 mac;
     mw_end m }"

definition decode_server_finish :: "bytes \<Rightarrow> handshake_error + bytes" where
  "decode_server_finish bs =
    qm hs_err (r_new bs) (\<lambda>r.
    qm hs_err (r_map r) (\<lambda>m.
    qm id (mr_field hs_err 0 (r_bytes_exact 48) m) (\<lambda>(mac, m).
    qm id (mr_no_more hs_err HDecode m) (\<lambda>m.
    qm hs_err (r_finish (mr_reader m)) (\<lambda>_.
    Inr mac)))))"

section \<open>Key schedule\<close>

record derived_keys =
  dk_handshake_prk :: bytes
  dk_client_finished_key :: bytes
  dk_server_finished_key :: bytes
  dk_control_key_c2s :: bytes
  dk_control_key_s2c :: bytes
  dk_transfer_wrap_key :: bytes
  dk_session_resumption_secret :: bytes

definition prefixed :: "bytes \<Rightarrow> bytes" where
  "prefixed ss = to_be (of_nat (length ss) :: u16) @ ss"

definition derive_keys ::
  "prims \<Rightarrow> bytes \<Rightarrow> bytes \<Rightarrow> bytes \<Rightarrow> bytes \<Rightarrow> bytes \<Rightarrow> bytes \<Rightarrow> bytes \<Rightarrow> derived_keys" where
  "derive_keys C ch sh_wo_sig cf_bare th2 ss_x ss_pq_a ss_pq_b =
    (let salt = sha384 C [SALT_DOMAIN, ch, sh_wo_sig, cf_bare];
         ikm = concat (map prefixed [ss_x, ss_pq_a, ss_pq_b]);
         prk = hkdf_extract C salt ikm
     in \<lparr>dk_handshake_prk = prk,
         dk_client_finished_key = hkdf_expand C 48 prk [ascii ''RTP2 client finished v1'', th2],
         dk_server_finished_key = hkdf_expand C 48 prk [ascii ''RTP2 server finished v1'', th2],
         dk_control_key_c2s = hkdf_expand C 32 prk [ascii ''RTP2 control c2s v1'', th2],
         dk_control_key_s2c = hkdf_expand C 32 prk [ascii ''RTP2 control s2c v1'', th2],
         dk_transfer_wrap_key = hkdf_expand C 32 prk [ascii ''RTP2 transfer wrap v1'', th2],
         dk_session_resumption_secret = hkdf_expand C 48 prk [ascii ''RTP2 resumption v1'', th2]\<rparr>)"

definition x25519_agree :: "pk_prims \<Rightarrow> bytes \<Rightarrow> bytes \<Rightarrow> handshake_error + bytes" where
  "x25519_agree K secret peer =
    (let shared = x_dh K secret peer in if shared = replicate 32 0 then Inl InvalidKey else Inr shared)"

definition session_of :: "role \<Rightarrow> derived_keys \<Rightarrow> bytes \<Rightarrow> device_public \<Rightarrow> bytes \<Rightarrow> session_keys" where
  "session_of rl keys th2 peer peer_endpoint_id =
    \<lparr>sk_role = rl, sk_handshake_prk = dk_handshake_prk keys, sk_th2 = th2, sk_control_key_c2s = dk_control_key_c2s keys,
     sk_control_key_s2c = dk_control_key_s2c keys, sk_transfer_wrap_key = dk_transfer_wrap_key keys,
     sk_session_resumption_secret = dk_session_resumption_secret keys, sk_peer = peer, sk_peer_endpoint_id = peer_endpoint_id\<rparr>"

section \<open>Initiator\<close>

text \<open>A key pair of the KEM is the pair of its secret and public key.\<close>

datatype initiator_state =
  AwaitServerHello (ih_ex_secret: bytes) (ih_kem: "bytes \<times> bytes") (ih_ch_bytes: bytes) (ih_expected_peer_endpoint: bytes)
| AwaitServerFinish derived_keys bytes bytes device_public bytes
| InitiatorDone
| InitiatorFailed

definition initiator_start ::
  "pk_prims \<Rightarrow> bytes \<Rightarrow> bytes \<Rightarrow> bytes \<Rightarrow> u64 \<Rightarrow> device_identity \<Rightarrow> bytes \<Rightarrow> bytes \<Rightarrow> (initiator_state \<times> bytes) option" where
  "initiator_start K ex_secret kem_randomness nonce now identity local_endpoint_id expected_peer_endpoint = do {
     let ex_pk = x_public K ex_secret;
     let kem = kem_keys K kem_randomness;
     ch_bytes \<leftarrow> ch_encode \<lparr>ch_protocol_minor = ucast PROTOCOL_MINOR, ch_handshake_mode = MODE_STANDALONE, ch_alpn = ALPN,
       ch_suites = [SUITE_ID], ch_nonce = nonce, ch_ex_pk = ex_pk, ch_kem_pk = snd kem, ch_pqc_required = True,
       ch_minimum_security_level = 1, ch_cert = identity_public K identity, ch_endpoint_id = local_endpoint_id,
       ch_timestamp = now\<rparr>;
     Some (AwaitServerHello ex_secret kem ch_bytes expected_peer_endpoint, ch_bytes) }"

text \<open>The checks of a server hello, up to the shared secrets.\<close>

definition check_server_hello :: "prims \<Rightarrow> pk_prims \<Rightarrow> bytes \<Rightarrow> bytes \<Rightarrow> server_hello \<Rightarrow> (handshake_error + bytes) option" where
  "check_server_hello C K ch_bytes expected_peer_endpoint sh =
    (if sh_selected_minor sh \<noteq> ucast PROTOCOL_MINOR then Some (Inl HUnsupportedVersion)
     else if sh_handshake_mode sh \<noteq> MODE_STANDALONE \<or> sh_alpn sh \<noteq> ALPN then Some (Inl PolicyViolation)
     else if sh_selected_suite sh \<noteq> SUITE_ID then Some (Inl UnsupportedSuite)
     else if sh_endpoint_id sh \<noteq> expected_peer_endpoint then Some (Inl EndpointMismatch)
     else do {
       sh_wo_sig \<leftarrow> sh_encode sh False;
       let th1 = sha384 C [TH1_DOMAIN, ch_bytes, sh_wo_sig];
       Some (qm id (ok_or HDecode (sh_signature sh)) (\<lambda>signature.
         qm (\<lambda>_. HInvalidSignature) (hybrid_verify K (sh_cert sh) th1 signature) (\<lambda>_. Inr sh_wo_sig))) })"

definition initiator_secrets ::
  "pk_prims \<Rightarrow> bytes \<Rightarrow> bytes \<Rightarrow> bytes \<times> bytes \<Rightarrow> server_hello \<Rightarrow> handshake_error + bytes \<times> bytes \<times> bytes \<times> bytes" where
  "initiator_secrets K randomness ex_secret kem sh =
    qm id (x25519_agree K ex_secret (sh_ex_pk sh)) (\<lambda>ss_x.
    qm hs_of_pqc (decapsulate K (fst kem) (sh_ct_to_a sh)) (\<lambda>ss_pq_a.
    qm hs_of_pqc (mlkem_encapsulate K randomness (sh_kem_pk sh)) (\<lambda>(ct_to_b, ss_pq_b).
    if length ct_to_b \<noteq> MLKEM768_CIPHERTEXT_LEN then Inl InvalidKey
    else Inr (ss_x, ss_pq_a, ss_pq_b, ct_to_b))))"

definition on_server_hello ::
  "prims \<Rightarrow> pk_prims \<Rightarrow> bytes \<Rightarrow> bytes \<Rightarrow> device_identity \<Rightarrow> initiator_state \<Rightarrow> bytes \<Rightarrow>
    ((handshake_error + bytes) \<times> initiator_state) option" where
  "on_server_hello C K kem_randomness sig_randomness identity state sh_bytes =
    (case state of
       AwaitServerHello ex_secret kem ch_bytes expected_peer_endpoint \<Rightarrow>
         (case sh_decode sh_bytes of
            Inl e \<Rightarrow> Some (Inl e, InitiatorFailed)
          | Inr sh \<Rightarrow> do {
              checked \<leftarrow> check_server_hello C K ch_bytes expected_peer_endpoint sh;
              (case checked of
                 Inl e \<Rightarrow> Some (Inl e, InitiatorFailed)
               | Inr sh_wo_sig \<Rightarrow>
                   (case initiator_secrets K kem_randomness ex_secret kem sh of
                      Inl e \<Rightarrow> Some (Inl e, InitiatorFailed)
                    | Inr (ss_x, ss_pq_a, ss_pq_b, ct_to_b) \<Rightarrow> do {
                        sh_full \<leftarrow> sh_encode sh True;
                        cf_bare \<leftarrow> cf_encode_bare ct_to_b;
                        let th2 = sha384 C [TH2_DOMAIN, ch_bytes, sh_full, cf_bare];
                        let keys = derive_keys C ch_bytes sh_wo_sig cf_bare th2 ss_x ss_pq_a ss_pq_b;
                        (case hybrid_sign K sig_randomness identity th2 of
                           Inl _ \<Rightarrow> Some (Inl HInvalidSignature, InitiatorFailed)
                         | Inr signature \<Rightarrow> do {
                             let finished_mac_a = hmac_sha384 C (dk_client_finished_key keys) th2;
                             cf_bytes \<leftarrow> cf_encode_full \<lparr>cf_ct_to_b = ct_to_b, cf_signature = Some signature,
                               cf_finished_mac = Some finished_mac_a\<rparr>;
                             Some (Inr cf_bytes, AwaitServerFinish keys th2 finished_mac_a (sh_cert sh) (sh_endpoint_id sh)) }) })) })
     | _ \<Rightarrow> Some (Inl HState, InitiatorFailed))"

definition on_server_finish :: "prims \<Rightarrow> initiator_state \<Rightarrow> bytes \<Rightarrow> (handshake_error + session_keys) \<times> initiator_state" where
  "on_server_finish C state sf_bytes =
    (case state of
       AwaitServerFinish keys th2 finished_mac_a peer peer_endpoint_id \<Rightarrow>
         (case decode_server_finish sf_bytes of
            Inl e \<Rightarrow> (Inl e, InitiatorFailed)
          | Inr mac_b \<Rightarrow>
              let expected = hmac_sha384 C (dk_server_finished_key keys) (sha384 C [th2, finished_mac_a])
              in if \<not> ct_eq mac_b expected then (Inl InvalidMac, InitiatorFailed)
                 else (Inr (session_of Initiator keys th2 peer peer_endpoint_id), InitiatorDone))
     | _ \<Rightarrow> (Inl HState, InitiatorFailed))"

section \<open>Responder\<close>

datatype responder_state =
  AwaitClientHello
| AwaitClientFinish (rh_ex_secret: bytes) (rh_kem: "bytes \<times> bytes") (rh_ss_pq_a: bytes) (rh_ch_bytes: bytes)
    (rh_sh_wo_sig: bytes) (rh_sh_full: bytes) (rh_client_ex_pk: bytes) (rh_client_cert: device_public) (rh_client_endpoint_id: bytes)
| ResponderDone
| ResponderFailed

definition abs_diff :: "u64 \<Rightarrow> u64 \<Rightarrow> u64" where
  "abs_diff a b = (if a \<le> b then b - a else a - b)"

definition check_client_hello ::
  "client_hello \<Rightarrow> bytes \<Rightarrow> u64 \<Rightarrow> replay_cache \<Rightarrow> (handshake_error + u64) \<times> replay_cache" where
  "check_client_hello ch observed_peer_endpoint now replay =
    (if ch_alpn ch \<noteq> ALPN then (Inl PolicyViolation, replay)
     else if ch_handshake_mode ch \<noteq> MODE_STANDALONE then (Inl PolicyViolation, replay)
     else
       let selected_minor = min (ch_protocol_minor ch) (ucast PROTOCOL_MINOR)
       in if SUITE_ID \<notin> set (ch_suites ch) then (Inl UnsupportedSuite, replay)
          else if \<not> ch_pqc_required ch \<or> ch_minimum_security_level ch < 1 then (Inl PolicyViolation, replay)
          else if ch_endpoint_id ch \<noteq> observed_peer_endpoint then (Inl EndpointMismatch, replay)
          else if abs_diff (ch_timestamp ch) now > TIMESTAMP_WINDOW_SECS then (Inl HReplay, replay)
          else (case check_and_insert replay (dp_device_id (ch_cert ch)) (ch_nonce ch) of
                  (False, replay) \<Rightarrow> (Inl HReplay, replay)
                | (True, replay) \<Rightarrow> (Inr selected_minor, replay)))"

definition on_client_hello ::
  "prims \<Rightarrow> pk_prims \<Rightarrow> bytes \<Rightarrow> bytes \<Rightarrow> bytes \<Rightarrow> bytes \<Rightarrow> bytes \<Rightarrow> u64 \<Rightarrow> device_identity \<Rightarrow> bytes \<Rightarrow> responder_state \<Rightarrow>
    bytes \<Rightarrow> bytes \<Rightarrow> replay_cache \<Rightarrow> ((handshake_error + bytes) \<times> responder_state \<times> replay_cache) option" where
  "on_client_hello C K ex_secret kem_randomness enc_randomness nonce sig_randomness now identity local_endpoint_id state
     ch_bytes observed_peer_endpoint replay =
    (if state \<noteq> AwaitClientHello then Some (Inl HState, ResponderFailed, replay)
     else
       (case ch_decode ch_bytes of
          Inl e \<Rightarrow> Some (Inl e, ResponderFailed, replay)
        | Inr ch \<Rightarrow>
            (case check_client_hello ch observed_peer_endpoint now replay of
               (Inl e, replay) \<Rightarrow> Some (Inl e, ResponderFailed, replay)
             | (Inr selected_minor, replay) \<Rightarrow>
                 let ex_pk = x_public K ex_secret;
                     kem = kem_keys K kem_randomness
                 in (case mlkem_encapsulate K enc_randomness (ch_kem_pk ch) of
                       Inl e \<Rightarrow> Some (Inl (hs_of_pqc e), ResponderFailed, replay)
                     | Inr (ct_to_a, ss_pq_a) \<Rightarrow>
                         if length ct_to_a \<noteq> MLKEM768_CIPHERTEXT_LEN then Some (Inl InvalidKey, ResponderFailed, replay)
                         else do {
                           let sh = \<lparr>sh_selected_minor = selected_minor, sh_handshake_mode = MODE_STANDALONE, sh_alpn = ALPN,
                             sh_selected_suite = SUITE_ID, sh_nonce = nonce, sh_ex_pk = ex_pk, sh_kem_pk = snd kem,
                             sh_ct_to_a = ct_to_a, sh_cert = identity_public K identity, sh_endpoint_id = local_endpoint_id,
                             sh_signature = None\<rparr>;
                           sh_wo_sig \<leftarrow> sh_encode sh False;
                           let th1 = sha384 C [TH1_DOMAIN, ch_bytes, sh_wo_sig];
                           (case hybrid_sign K sig_randomness identity th1 of
                              Inl _ \<Rightarrow> Some (Inl HInvalidSignature, ResponderFailed, replay)
                            | Inr signature \<Rightarrow> do {
                                sh_full \<leftarrow> sh_encode (sh\<lparr>sh_signature := Some signature\<rparr>) True;
                                Some (Inr sh_full,
                                  AwaitClientFinish ex_secret kem ss_pq_a ch_bytes sh_wo_sig sh_full (ch_ex_pk ch) (ch_cert ch)
                                    (ch_endpoint_id ch), replay) }) }))))"

definition responder_secrets :: "pk_prims \<Rightarrow> bytes \<Rightarrow> bytes \<times> bytes \<Rightarrow> bytes \<Rightarrow> bytes \<Rightarrow> handshake_error + bytes \<times> bytes" where
  "responder_secrets K ex_secret kem client_ex_pk ct_to_b =
    qm id (x25519_agree K ex_secret client_ex_pk) (\<lambda>ss_x.
    qm hs_of_pqc (decapsulate K (fst kem) ct_to_b) (\<lambda>ss_pq_b.
    Inr (ss_x, ss_pq_b)))"

definition on_client_finish ::
  "prims \<Rightarrow> pk_prims \<Rightarrow> responder_state \<Rightarrow> bytes \<Rightarrow> ((handshake_error + bytes \<times> session_keys) \<times> responder_state) option" where
  "on_client_finish C K state cf_bytes =
    (case state of
       AwaitClientFinish ex_secret kem ss_pq_a ch_bytes sh_wo_sig sh_full client_ex_pk client_cert client_endpoint_id \<Rightarrow>
         (case cf_decode cf_bytes of
            Inl e \<Rightarrow> Some (Inl e, ResponderFailed)
          | Inr cf \<Rightarrow> do {
              cf_bare \<leftarrow> cf_encode_bare (cf_ct_to_b cf);
              let th2 = sha384 C [TH2_DOMAIN, ch_bytes, sh_full, cf_bare];
              (case qm id (ok_or HDecode (cf_signature cf)) (\<lambda>signature.
                    qm (\<lambda>_. HInvalidSignature) (hybrid_verify K client_cert th2 signature) (\<lambda>_.
                    responder_secrets K ex_secret kem client_ex_pk (cf_ct_to_b cf))) of
                 Inl e \<Rightarrow> Some (Inl e, ResponderFailed)
               | Inr (ss_x, ss_pq_b) \<Rightarrow>
                   let keys = derive_keys C ch_bytes sh_wo_sig cf_bare th2 ss_x ss_pq_a ss_pq_b
                   in (case cf_finished_mac cf of
                         None \<Rightarrow> Some (Inl HDecode, ResponderFailed)
                       | Some mac_a \<Rightarrow>
                           if \<not> ct_eq mac_a (hmac_sha384 C (dk_client_finished_key keys) th2)
                           then Some (Inl InvalidMac, ResponderFailed)
                           else do {
                             let mac_b = hmac_sha384 C (dk_server_finished_key keys) (sha384 C [th2, mac_a]);
                             sf_bytes \<leftarrow> encode_server_finish mac_b;
                             Some (Inr (sf_bytes, session_of Responder keys th2 client_cert client_endpoint_id), ResponderDone) })) })
     | _ \<Rightarrow> Some (Inl HState, ResponderFailed))"

section \<open>Session resumption\<close>

definition RESUME_TH_DOMAIN :: bytes where "RESUME_TH_DOMAIN = ascii ''RTP2-RESUME-TH-v1''"

definition resumption_id :: "prims \<Rightarrow> bytes \<Rightarrow> bytes" where
  "resumption_id C secret = hkdf_expand C 16 secret [ascii ''RTP2 resumption id v1'']"

record resumed_session =
  rs_handshake_prk :: bytes
  rs_th_r :: bytes
  rs_control_key_c2s :: bytes
  rs_control_key_s2c :: bytes
  rs_transfer_wrap_key :: bytes
  rs_session_resumption_secret :: bytes

record resumption_hello =
  rh_protocol_minor :: u64
  rh_alpn :: bytes
  rh_suite_id :: u16
  rh_resumption_id :: bytes
  rh_nonce :: bytes
  rh_timestamp :: u64
  rh_endpoint_id :: bytes

definition rh_new :: "prims \<Rightarrow> bytes \<Rightarrow> u64 \<Rightarrow> bytes \<Rightarrow> bytes \<Rightarrow> resumption_hello" where
  "rh_new C nonce now secret endpoint_id =
    \<lparr>rh_protocol_minor = ucast PROTOCOL_MINOR, rh_alpn = ALPN, rh_suite_id = SUITE_ID, rh_resumption_id = resumption_id C secret,
     rh_nonce = nonce, rh_timestamp = now, rh_endpoint_id = endpoint_id\<rparr>"

definition rh_encode :: "resumption_hello \<Rightarrow> bytes option" where
  "rh_encode h = do {
     let m = mw_begin [] 9;
     m \<leftarrow> mw_uint m 0 (ucast PROTOCOL_MAJOR);
     m \<leftarrow> mw_uint m 1 (rh_protocol_minor h);
     m \<leftarrow> mw_uint m 2 MODE_RESUMPTION;
     m \<leftarrow> mw_bytes m 3 (rh_alpn h);
     m \<leftarrow> mw_uint m 4 (ucast (rh_suite_id h));
     m \<leftarrow> mw_bytes m 5 (rh_resumption_id h);
     m \<leftarrow> mw_bytes m 6 (rh_nonce h);
     m \<leftarrow> mw_uint m 7 (rh_timestamp h);
     m \<leftarrow> mw_bytes m 8 (rh_endpoint_id h);
     mw_end m }"

definition rh_decode :: "bytes \<Rightarrow> handshake_error + resumption_hello" where
  "rh_decode bs =
    qm hs_err (r_new bs) (\<lambda>r.
    qm hs_err (r_map r) (\<lambda>m.
    qm id (mr_field hs_err 0 r_uint m) (\<lambda>(major, m).
    if major \<noteq> ucast PROTOCOL_MAJOR then Inl HUnsupportedVersion else
    qm id (mr_field hs_err 1 r_uint m) (\<lambda>(protocol_minor, m).
    qm id (mr_field hs_err 2 r_uint m) (\<lambda>(mode, m).
    if mode \<noteq> MODE_RESUMPTION then Inl PolicyViolation else
    qm id (mr_field hs_err 3 r_bytes m) (\<lambda>(alpn, m).
    if alpn \<noteq> ALPN then Inl PolicyViolation else
    qm id (mr_field hs_err 4 r_uint m) (\<lambda>(suite_id, m).
    if suite_id \<noteq> ucast SUITE_ID then Inl UnsupportedSuite else
    qm id (mr_field hs_err 5 (r_bytes_exact 16) m) (\<lambda>(ident, m).
    qm id (mr_field hs_err 6 (r_bytes_exact 32) m) (\<lambda>(nonce, m).
    qm id (mr_field hs_err 7 r_uint m) (\<lambda>(timestamp, m).
    qm id (mr_field hs_err 8 (r_bytes_exact 32) m) (\<lambda>(endpoint_id, m).
    qm id (mr_no_more hs_err HDecode m) (\<lambda>m.
    qm hs_err (r_finish (mr_reader m)) (\<lambda>_.
    Inr \<lparr>rh_protocol_minor = protocol_minor, rh_alpn = alpn, rh_suite_id = ucast suite_id, rh_resumption_id = ident,
         rh_nonce = nonce, rh_timestamp = timestamp, rh_endpoint_id = endpoint_id\<rparr>)))))))))))))"

record resumption_accept =
  rx_nonce :: bytes
  rx_endpoint_id :: bytes
  rx_timestamp :: u64

definition rx_new :: "bytes \<Rightarrow> u64 \<Rightarrow> bytes \<Rightarrow> resumption_accept" where
  "rx_new nonce now endpoint_id = \<lparr>rx_nonce = nonce, rx_endpoint_id = endpoint_id, rx_timestamp = now\<rparr>"

definition rx_encode :: "resumption_accept \<Rightarrow> bytes option" where
  "rx_encode a = do {
     let m = mw_begin [] 3;
     m \<leftarrow> mw_bytes m 0 (rx_nonce a);
     m \<leftarrow> mw_bytes m 1 (rx_endpoint_id a);
     m \<leftarrow> mw_uint m 2 (rx_timestamp a);
     mw_end m }"

definition rx_decode :: "bytes \<Rightarrow> handshake_error + resumption_accept" where
  "rx_decode bs =
    qm hs_err (r_new bs) (\<lambda>r.
    qm hs_err (r_map r) (\<lambda>m.
    qm id (mr_field hs_err 0 (r_bytes_exact 32) m) (\<lambda>(nonce, m).
    qm id (mr_field hs_err 1 (r_bytes_exact 32) m) (\<lambda>(endpoint_id, m).
    qm id (mr_field hs_err 2 r_uint m) (\<lambda>(timestamp, m).
    qm id (mr_no_more hs_err HDecode m) (\<lambda>m.
    qm hs_err (r_finish (mr_reader m)) (\<lambda>_.
    Inr \<lparr>rx_nonce = nonce, rx_endpoint_id = endpoint_id, rx_timestamp = timestamp\<rparr>)))))))"

definition resumption_keys :: "prims \<Rightarrow> bytes \<Rightarrow> bytes \<Rightarrow> bytes \<Rightarrow> resumed_session" where
  "resumption_keys C secret hello_bytes accept_bytes =
    (let th_r = sha384 C [RESUME_TH_DOMAIN, hello_bytes, accept_bytes];
         prk = hkdf_extract C th_r secret
     in \<lparr>rs_handshake_prk = prk, rs_th_r = th_r,
         rs_control_key_c2s = hkdf_expand C 32 prk [ascii ''RTP2 control c2s v1'', th_r],
         rs_control_key_s2c = hkdf_expand C 32 prk [ascii ''RTP2 control s2c v1'', th_r],
         rs_transfer_wrap_key = hkdf_expand C 32 prk [ascii ''RTP2 transfer wrap v1'', th_r],
         rs_session_resumption_secret = hkdf_expand C 48 prk [ascii ''RTP2 resumption v1'', th_r]\<rparr>)"

definition resumption_finished_mac :: "prims \<Rightarrow> bytes \<Rightarrow> bytes \<Rightarrow> bytes" where
  "resumption_finished_mac C secret th_r =
    (let prk = hkdf_extract C th_r secret;
         key = hkdf_expand C 48 prk [ascii ''RTP2 resumption finished v1'', th_r]
     in hmac_sha384 C key th_r)"

section \<open>Views of the messages\<close>

definition server_hello_without_signature :: "bytes \<Rightarrow> bytes option option" where
  "server_hello_without_signature bs = (case sh_decode bs of Inl _ \<Rightarrow> Some None | Inr sh \<Rightarrow> map_option Some (sh_encode sh False))"

definition server_hello_signature :: "bytes \<Rightarrow> hybrid_signature option" where
  "server_hello_signature bs = (case sh_decode bs of Inl _ \<Rightarrow> None | Inr sh \<Rightarrow> sh_signature sh)"

definition client_finish_bare :: "bytes \<Rightarrow> bytes option option" where
  "client_finish_bare bs = (case cf_decode bs of Inl _ \<Rightarrow> Some None | Inr cf \<Rightarrow> map_option Some (cf_encode_bare (cf_ct_to_b cf)))"

definition client_finish_signature :: "bytes \<Rightarrow> hybrid_signature option" where
  "client_finish_signature bs = (case cf_decode bs of Inl _ \<Rightarrow> None | Inr cf \<Rightarrow> cf_signature cf)"

definition client_finish_mac :: "bytes \<Rightarrow> bytes option" where
  "client_finish_mac bs = (case cf_decode bs of Inl _ \<Rightarrow> None | Inr cf \<Rightarrow> cf_finished_mac cf)"

definition server_finish_mac :: "bytes \<Rightarrow> bytes option" where
  "server_finish_mac bs = (case decode_server_finish bs of Inl _ \<Rightarrow> None | Inr mac \<Rightarrow> Some mac)"

section \<open>Wire format\<close>

definition suite_bytes :: "u16 \<Rightarrow> bytes" where
  "suite_bytes s = enc_uint (ucast s)"

definition policy_bytes :: "bool \<times> u64 \<Rightarrow> bytes" where
  "policy_bytes p = enc_map 2 @ enc_uint 0 @ enc_bool (fst p) @ enc_uint 1 @ enc_uint (snd p)"

definition chello_bytes :: "client_hello \<Rightarrow> bytes" where
  "chello_bytes c = enc_map 12 @ enc_uint 0 @ enc_uint (ucast PROTOCOL_MAJOR) @ enc_uint 1 @ enc_uint (ch_protocol_minor c) @
    enc_uint 2 @ enc_uint (ch_handshake_mode c) @ enc_uint 3 @ enc_bytes (ch_alpn c) @ enc_uint 4 @ enc_list suite_bytes (ch_suites c) @
    enc_uint 5 @ enc_bytes (ch_nonce c) @ enc_uint 6 @ enc_bytes (ch_ex_pk c) @ enc_uint 7 @ enc_bytes (ch_kem_pk c) @
    enc_uint 8 @ policy_bytes (ch_pqc_required c, ch_minimum_security_level c) @ enc_uint 9 @ dp_bytes (ch_cert c) @
    enc_uint 10 @ enc_bytes (ch_endpoint_id c) @ enc_uint 11 @ enc_uint (ch_timestamp c)"

definition chello_ok :: "client_hello \<Rightarrow> bool" where
  "chello_ok c \<longleftrightarrow> length (ch_alpn c) \<le> 64 \<and> ch_suites c \<noteq> [] \<and> length (ch_suites c) \<le> 32 \<and> length (ch_nonce c) = 32 \<and>
    length (ch_ex_pk c) = 32 \<and> length (ch_kem_pk c) = 1184 \<and> dp_ok (ch_cert c) \<and> length (ch_endpoint_id c) = 32"

definition shello_fields :: "server_hello \<Rightarrow> bytes" where
  "shello_fields s = enc_uint 0 @ enc_uint (ucast PROTOCOL_MAJOR) @ enc_uint 1 @ enc_uint (sh_selected_minor s) @
    enc_uint 2 @ enc_uint (sh_handshake_mode s) @ enc_uint 3 @ enc_bytes (sh_alpn s) @ enc_uint 4 @ enc_uint (ucast (sh_selected_suite s)) @
    enc_uint 5 @ enc_bytes (sh_nonce s) @ enc_uint 6 @ enc_bytes (sh_ex_pk s) @ enc_uint 7 @ enc_bytes (sh_kem_pk s) @
    enc_uint 8 @ enc_bytes (sh_ct_to_a s) @ enc_uint 9 @ dp_bytes (sh_cert s) @ enc_uint 10 @ enc_bytes (sh_endpoint_id s)"

definition shello_bare :: "server_hello \<Rightarrow> bytes" where
  "shello_bare s = enc_map 11 @ shello_fields s"

definition shello_bytes :: "server_hello \<Rightarrow> hybrid_signature \<Rightarrow> bytes" where
  "shello_bytes s sig = enc_map 12 @ shello_fields s @ enc_uint 11 @ hs_bytes sig"

definition shello_ok :: "server_hello \<Rightarrow> bool" where
  "shello_ok s \<longleftrightarrow> length (sh_alpn s) \<le> 64 \<and> length (sh_nonce s) = 32 \<and> length (sh_ex_pk s) = 32 \<and> length (sh_kem_pk s) = 1184 \<and>
    length (sh_ct_to_a s) = 1088 \<and> dp_ok (sh_cert s) \<and> length (sh_endpoint_id s) = 32"

definition cbare_bytes :: "bytes \<Rightarrow> bytes" where
  "cbare_bytes ct = enc_map 1 @ enc_uint 0 @ enc_bytes ct"

definition cfinish_bytes :: "bytes \<Rightarrow> hybrid_signature \<Rightarrow> bytes \<Rightarrow> bytes" where
  "cfinish_bytes ct sig mac = enc_map 3 @ enc_uint 0 @ enc_bytes ct @ enc_uint 1 @ hs_bytes sig @ enc_uint 2 @ enc_bytes mac"

lemma w_suites_eq: "encode_all w_suite ss w = Some (w @ concat (map suite_bytes ss))"
  by (rule encode_all_eq) (simp add: w_suite_def w_simps suite_bytes_def)

lemma w_policy_eq: "w_policy a b w = Some (w @ policy_bytes (a, b))"
  by (simp add: w_policy_def mw_simps policy_bytes_def)

lemma hello_encode_eq:
  "ch_encode c = Some (chello_bytes c)" "sh_encode s False = Some (shello_bare s)"
  "sh_signature s = Some sg \<Longrightarrow> sh_encode s True = Some (shello_bytes s sg)"
  "cf_encode_bare ct = Some (cbare_bytes ct)" "encode_server_finish ct = Some (cbare_bytes ct)"
  "cf_encode_full \<lparr>cf_ct_to_b = ct, cf_signature = Some sig, cf_finished_mac = Some mac\<rparr> = Some (cfinish_bytes ct sig mac)"
  by (simp_all add: ch_encode_def mw_simps w_suites_eq w_policy_eq dp_encode_eq chello_bytes_def enc_list_def sh_encode_def
      shello_bare_def shello_fields_def shello_bytes_def hs_encode_eq cf_encode_bare_def cbare_bytes_def encode_server_finish_def
      cf_encode_full_def cfinish_bytes_def split: option.splits)

interpretation suites: list_codec suite_bytes r_suite "\<lambda>_. True" 0 hs_err HDecode 32
  by unfold_locales (auto simp: r_suite_def suite_bytes_def res_iff cbor_iff cbor_fwd ucast_ucast_u64 ucast_up_u64 not_less
      ucast_up_le(2) MAX_DEPTH_def split: if_splits)

interpretation policies: codec policy_bytes r_policy "\<lambda>_. True" 1
proof
  fix d pre bs x r' assume d: "d + 1 \<le> MAX_DEPTH"
  show "r_policy (rdr pre bs d) = Inr (x, r') \<longleftrightarrow> True \<and> (\<exists>rest. bs = policy_bytes x @ rest \<and> r' = rdr (pre @ policy_bytes x) rest d)"
    (is "?L \<longleftrightarrow> ?R")
  proof
    assume ?L
    then show ?R by (cases x) (auto simp: r_policy_def policy_bytes_def res_iff cbor_iff)
  next
    assume ?R
    with d show ?L by (cases x) (auto simp: r_policy_def policy_bytes_def cbor_fwd)
  qed
qed (simp add: MAX_DEPTH_def)

lemma r_suites_iff:
  "r_suites (rdr pre bs (Suc 0)) = Inr (ss, r') \<longleftrightarrow>
    (ss \<noteq> [] \<and> length ss \<le> 32) \<and> (\<exists>rest. bs = enc_list suite_bytes ss @ rest \<and> r' = rdr (pre @ enc_list suite_bytes ss) rest (Suc 0))"
    (is "?L \<longleftrightarrow> ?R")
proof
  have n: "read_n r_suite n (rdr pre bs (Suc (Suc 0))) = Inr (ss, r) \<longleftrightarrow> length ss = n \<and>
      (\<exists>rest. bs = concat (map suite_bytes ss) @ rest \<and> r = rdr (pre @ concat (map suite_bytes ss)) rest (Suc (Suc 0)))" for n pre bs r
    using suites.read_n_iff [of "Suc (Suc 0)" n pre bs ss r] by (simp add: MAX_DEPTH_def list_all_iff)
  { assume ?L
    then obtain count rest r where h: "bs = enc_array count @ rest" "count \<noteq> 0" "count \<le> 32"
        "read_n r_suite (unat count) (rdr (pre @ enc_array count) rest (Suc (Suc 0))) = Inr (ss, r)" "r' = r_leave r"
      by (auto simp: r_suites_def res_iff cbor_iff not_less split: if_splits)
    then have "length ss = unat count" by (simp add: n)
    with h show ?R by (auto simp: n enc_list_def unat_eq_0 word_le_nat_alt) }
  assume r: ?R
  then have "unat (of_nat (length ss) :: u64) = length ss" "(of_nat (length ss) :: u64) \<noteq> 0" "\<not> (32 :: u64) < of_nat (length ss)"
    by (auto simp: unat_of_nat_small unat_eq_0 [symmetric] word_less_nat_alt)
  moreover have "read_n r_suite (length ss) (rdr p (concat (map suite_bytes ss) @ rest) (Suc (Suc 0))) =
      Inr (ss, rdr (p @ concat (map suite_bytes ss)) rest (Suc (Suc 0)))" for p rest
    by (rule suites.read_n_fwd) (simp_all add: MAX_DEPTH_def list_all_iff)
  ultimately show ?L
    using r by (auto simp: r_suites_def cbor_fwd enc_list_def MAX_DEPTH_def)
qed

lemma nested_hello:
  "r_policy (rdr pre bs (Suc 0)) = Inr (p, r') \<longleftrightarrow> (\<exists>rest. bs = policy_bytes p @ rest \<and> r' = rdr (pre @ policy_bytes p) rest (Suc 0))"
  "dp_decode (rdr pre bs (Suc 0)) = Inr (dv, r') \<longleftrightarrow>
    dp_ok dv \<and> (\<exists>rest. bs = dp_bytes dv @ rest \<and> r' = rdr (pre @ dp_bytes dv) rest (Suc 0))"
  "hs_decode (rdr pre bs (Suc 0)) = Inr (sg, r') \<longleftrightarrow>
    hs_ok sg \<and> (\<exists>rest. bs = hs_bytes sg @ rest \<and> r' = rdr (pre @ hs_bytes sg) rest (Suc 0))"
  using policies.dec_iff [of "Suc 0" pre bs p r'] by (simp_all add: dps.dec_iff sigs.dec_iff MAX_DEPTH_def)

lemma hs_decode_last: "hs_ok sg \<Longrightarrow> hs_decode (rdr pre (hs_bytes sg) (Suc 0)) = Inr (sg, rdr (pre @ hs_bytes sg) [] (Suc 0))"
  using nested_hello(3) [of pre "hs_bytes sg" sg] by simp

lemma ch_decode_sound:
  assumes "ch_decode bs = Inr c"
  shows "length bs \<le> MAX_CONTROL_SIZE \<and> chello_ok c \<and> bs = chello_bytes c"
  using assms
  by (auto simp: ch_decode_def res_iff cbor_iff r_suites_iff nested_hello chello_ok_def chello_bytes_def MLKEM768_PUBLIC_KEY_LEN_def
      split: if_splits prod.splits)

lemma length_suites: "length ss \<le> 32 \<Longrightarrow> length (enc_list suite_bytes ss) \<le> 9 + 32 * 9"
  unfolding enc_list_def by (intro len_app length_enc order_trans [OF length_concat_le [where b = 9]]) (auto simp: suite_bytes_def length_enc)

lemma length_chello: "chello_ok c \<Longrightarrow> length (chello_bytes c) \<le> MAX_CONTROL_SIZE"
proof -
  assume ok: "chello_ok c"
  then have "length (enc_list suite_bytes (ch_suites c)) \<le> 297" using length_suites [of "ch_suites c"] by (simp add: chello_ok_def)
  note len = this len_rules
  show ?thesis
    unfolding chello_bytes_def dp_bytes_def policy_bytes_def append_assoc
    by (rule order_trans, (rule len)+) (use ok in \<open>simp add: chello_ok_def dp_ok_def MAX_CONTROL_SIZE_def\<close>)
qed

lemma ch_decode_complete:
  assumes "chello_ok c"
  shows "ch_decode (chello_bytes c) = Inr c"
  using assms length_chello [OF assms]
  by (cases c) (auto simp: ch_decode_def chello_bytes_def chello_ok_def r_new_eq cbor_fwd MAX_DEPTH_def r_suites_iff nested_hello
      MLKEM768_PUBLIC_KEY_LEN_def)

lemma sh_decode_sound:
  assumes "sh_decode bs = Inr s"
  shows "\<exists>sig. length bs \<le> MAX_CONTROL_SIZE \<and> shello_ok s \<and> sh_signature s = Some sig \<and> hs_ok sig \<and> bs = shello_bytes s sig"
  using assms
  by (auto simp: sh_decode_def res_iff cbor_iff nested_hello shello_ok_def shello_bytes_def shello_fields_def MLKEM768_PUBLIC_KEY_LEN_def
      MLKEM768_CIPHERTEXT_LEN_def ucast_ucast_u64 not_less split: if_splits)

lemma length_shello: "shello_ok s \<Longrightarrow> hs_ok sig \<Longrightarrow> length (shello_bytes s sig) \<le> MAX_CONTROL_SIZE"
  unfolding shello_bytes_def shello_fields_def dp_bytes_def hs_bytes_def append_assoc
  by (rule order_trans, (rule len_rules)+) (simp add: shello_ok_def dp_ok_def hs_ok_def MAX_CONTROL_SIZE_def)

lemma sh_decode_complete:
  assumes "shello_ok s" and "sh_signature s = Some sig" and "hs_ok sig"
  shows "sh_decode (shello_bytes s sig) = Inr s"
  using assms length_shello [OF assms(1,3)]
  by (cases s) (auto simp: sh_decode_def shello_bytes_def shello_fields_def shello_ok_def r_new_eq cbor_fwd MAX_DEPTH_def nested_hello
      MLKEM768_PUBLIC_KEY_LEN_def MLKEM768_CIPHERTEXT_LEN_def hs_decode_last ucast_up_u64 ucast_up_le(2) [THEN leD])

lemma cf_decode_sound:
  assumes "cf_decode bs = Inr c"
  shows "\<exists>ct sig mac. c = \<lparr>cf_ct_to_b = ct, cf_signature = Some sig, cf_finished_mac = Some mac\<rparr> \<and> bs = cfinish_bytes ct sig mac \<and>
    length ct = 1088 \<and> hs_ok sig \<and> length mac = 48"
  using assms
  by (auto simp: cf_decode_def res_iff cbor_iff nested_hello cfinish_bytes_def MLKEM768_CIPHERTEXT_LEN_def)

lemma length_cfinish: "length ct = 1088 \<Longrightarrow> hs_ok sig \<Longrightarrow> length mac = 48 \<Longrightarrow> length (cfinish_bytes ct sig mac) \<le> MAX_CONTROL_SIZE"
  unfolding cfinish_bytes_def hs_bytes_def append_assoc
  by (rule order_trans, (rule len_rules)+) (simp add: hs_ok_def MAX_CONTROL_SIZE_def)

lemma cf_decode_complete:
  "length ct = 1088 \<Longrightarrow> hs_ok sig \<Longrightarrow> length mac = 48 \<Longrightarrow>
    cf_decode (cfinish_bytes ct sig mac) = Inr \<lparr>cf_ct_to_b = ct, cf_signature = Some sig, cf_finished_mac = Some mac\<rparr>"
  using length_cfinish [of ct sig mac]
  by (auto simp: cf_decode_def cfinish_bytes_def r_new_eq cbor_fwd MAX_DEPTH_def nested_hello MLKEM768_CIPHERTEXT_LEN_def)

lemma sf_decode_iff: "decode_server_finish bs = Inr mac \<longleftrightarrow> length mac = 48 \<and> bs = cbare_bytes mac"
proof
  assume "decode_server_finish bs = Inr mac"
  then show "length mac = 48 \<and> bs = cbare_bytes mac"
    by (auto simp: decode_server_finish_def res_iff cbor_iff cbare_bytes_def)
next
  assume m: "length mac = 48 \<and> bs = cbare_bytes mac"
  then have "length (cbare_bytes mac) \<le> MAX_CONTROL_SIZE"
    unfolding cbare_bytes_def by (intro order_trans [OF len_app [OF length_enc(2) len_app [OF length_enc(1) length_enc(4)]]])
      (simp add: MAX_CONTROL_SIZE_def)
  with m show "decode_server_finish bs = Inr mac"
    by (auto simp: decode_server_finish_def cbare_bytes_def r_new_eq cbor_fwd MAX_DEPTH_def)
qed

section \<open>Steps\<close>

definition th1_of :: "prims \<Rightarrow> bytes \<Rightarrow> bytes \<Rightarrow> bytes" where
  "th1_of C ch sh_wo_sig = sha384 C [TH1_DOMAIN, ch, sh_wo_sig]"

definition th2_image :: "bytes \<Rightarrow> bytes \<Rightarrow> bytes \<Rightarrow> bytes" where
  "th2_image ch sh cf = TH2_DOMAIN @ ch @ sh @ the (the (client_finish_bare cf))"

definition own_hello :: "pk_prims \<Rightarrow> bytes \<Rightarrow> bytes \<Rightarrow> bytes \<Rightarrow> u64 \<Rightarrow> device_identity \<Rightarrow> bytes \<Rightarrow> client_hello" where
  "own_hello K xa ra nonce now identity ep = \<lparr>ch_protocol_minor = ucast PROTOCOL_MINOR, ch_handshake_mode = MODE_STANDALONE, ch_alpn = ALPN,
     ch_suites = [SUITE_ID], ch_nonce = nonce, ch_ex_pk = x_public K xa, ch_kem_pk = snd (kem_keys K ra), ch_pqc_required = True,
     ch_minimum_security_level = 1, ch_cert = identity_public K identity, ch_endpoint_id = ep, ch_timestamp = now\<rparr>"

definition own_reply :: "pk_prims \<Rightarrow> bytes \<Rightarrow> bytes \<Rightarrow> bytes \<Rightarrow> bytes \<Rightarrow> u64 \<Rightarrow> device_identity \<Rightarrow> bytes \<Rightarrow> server_hello" where
  "own_reply K xb rb ct nonce minor identity ep = \<lparr>sh_selected_minor = minor, sh_handshake_mode = MODE_STANDALONE, sh_alpn = ALPN,
     sh_selected_suite = SUITE_ID, sh_nonce = nonce, sh_ex_pk = x_public K xb, sh_kem_pk = snd (kem_keys K rb), sh_ct_to_a = ct,
     sh_cert = identity_public K identity, sh_endpoint_id = ep, sh_signature = None\<rparr>"

lemma initiator_start_eq:
  "initiator_start K xa ra nonce now identity ep peer =
    Some (AwaitServerHello xa (kem_keys K ra) (chello_bytes (own_hello K xa ra nonce now identity ep)) peer,
      chello_bytes (own_hello K xa ra nonce now identity ep))"
  by (simp add: initiator_start_def hello_encode_eq own_hello_def Let_def)

lemma shello_bare_signed [simp]: "shello_bare (s\<lparr>sh_signature := x\<rparr>) = shello_bare s" "shello_bytes (s\<lparr>sh_signature := x\<rparr>) sg = shello_bytes s sg"
  by (simp_all add: shello_bare_def shello_bytes_def shello_fields_def)

lemma on_client_hello_iff:
  "on_client_hello C K xb rb eb nonce sb now identity ep st bs obs rc = Some (Inr sh, st', rc') \<longleftrightarrow>
    st = AwaitClientHello \<and>
    (\<exists>ch minor ct ss sig. ch_decode bs = Inr ch \<and> check_client_hello ch obs now rc = (Inr minor, rc') \<and>
      mlkem_encapsulate K eb (ch_kem_pk ch) = Inr (ct, ss) \<and> length ct = 1088 \<and>
      hybrid_sign K sb identity (th1_of C bs (shello_bare (own_reply K xb rb ct nonce minor identity ep))) = Inr sig \<and>
      sh = shello_bytes (own_reply K xb rb ct nonce minor identity ep) sig \<and>
      st' = AwaitClientFinish xb (kem_keys K rb) ss bs (shello_bare (own_reply K xb rb ct nonce minor identity ep)) sh
        (ch_ex_pk ch) (ch_cert ch) (ch_endpoint_id ch))"
  unfolding on_client_hello_def Let_def own_reply_def [symmetric]
  by (auto simp: hello_encode_eq th1_of_def MLKEM768_CIPHERTEXT_LEN_def split: sum.splits prod.splits if_splits)

lemma check_server_hello_iff:
  assumes "sh_signature sh = Some sig"
  shows "check_server_hello C K ch ep sh = Some (Inr bare) \<longleftrightarrow>
    sh_selected_minor sh = ucast PROTOCOL_MINOR \<and> sh_handshake_mode sh = MODE_STANDALONE \<and> sh_alpn sh = ALPN \<and>
    sh_selected_suite sh = SUITE_ID \<and> sh_endpoint_id sh = ep \<and> bare = shello_bare sh \<and>
    hybrid_verify K (sh_cert sh) (th1_of C ch (shello_bare sh)) sig = Inr ()"
  using assms by (auto simp: check_server_hello_def hello_encode_eq th1_of_def res_iff)

lemma on_server_hello_iff:
  "on_server_hello C K e s identity st bs = Some (Inr cf, st') \<longleftrightarrow>
    (\<exists>xa kem ch ep sh sig ss_x ss_a ss_b ct sig'. st = AwaitServerHello xa kem ch ep \<and> sh_decode bs = Inr sh \<and> sh_signature sh = Some sig \<and>
      check_server_hello C K ch ep sh = Some (Inr (shello_bare sh)) \<and> initiator_secrets K e xa kem sh = Inr (ss_x, ss_a, ss_b, ct) \<and>
      (let th2 = sha384 C [TH2_DOMAIN, ch, bs, cbare_bytes ct];
           keys = derive_keys C ch (shello_bare sh) (cbare_bytes ct) th2 ss_x ss_a ss_b;
           mac = hmac_sha384 C (dk_client_finished_key keys) th2
       in hybrid_sign K s identity th2 = Inr sig' \<and> cf = cfinish_bytes ct sig' mac \<and>
          st' = AwaitServerFinish keys th2 mac (sh_cert sh) (sh_endpoint_id sh)))" (is "?L \<longleftrightarrow> ?R")
proof (cases "\<exists>xa kem ch ep. st = AwaitServerHello xa kem ch ep")
  case False
  then show ?thesis by (cases st) (auto simp: on_server_hello_def)
next
  case True
  then obtain xa kem ch ep where st: "st = AwaitServerHello xa kem ch ep" by blast
  show ?thesis
  proof (cases "sh_decode bs")
    case (Inl e)
    then show ?thesis by (simp add: st on_server_hello_def)
  next
    case (Inr sh)
    then obtain sig where sig: "sh_signature sh = Some sig" "bs = shello_bytes sh sig" using sh_decode_sound [of bs sh] by blast
    obtain c where c: "check_server_hello C K ch ep sh = Some c"
      using sig by (cases "check_server_hello C K ch ep sh") (auto simp: check_server_hello_def hello_encode_eq split: if_splits)
    have bare: "c = Inr x \<Longrightarrow> x = shello_bare sh" for x using c check_server_hello_iff [OF sig(1)] by blast
    have full: "sh_encode sh True = Some bs" using sig by (simp add: hello_encode_eq)
    show ?thesis
      using bare by (auto simp: st on_server_hello_def Inr sig(1) full c hello_encode_eq(4,6) Let_def split: sum.splits)
  qed
qed

lemma on_server_finish_iff:
  "on_server_finish C st bs = (Inr s, st') \<longleftrightarrow>
    (\<exists>keys th2 mac peer ep. st = AwaitServerFinish keys th2 mac peer ep \<and> st' = InitiatorDone \<and> s = session_of Initiator keys th2 peer ep \<and>
      decode_server_finish bs = Inr (hmac_sha384 C (dk_server_finished_key keys) (sha384 C [th2, mac])))"
  by (cases st) (auto simp: on_server_finish_def Let_def split: sum.splits if_splits)

lemma on_client_finish_iff:
  "on_client_finish C K st bs = Some (Inr (sf, s), st') \<longleftrightarrow>
    (\<exists>xb kem ss_a ch bare full ex_pk cert ep ct sig ss_x ss_b.
      st = AwaitClientFinish xb kem ss_a ch bare full ex_pk cert ep \<and> st' = ResponderDone \<and>
      (let th2 = sha384 C [TH2_DOMAIN, ch, full, cbare_bytes ct];
           keys = derive_keys C ch bare (cbare_bytes ct) th2 ss_x ss_a ss_b;
           mac = hmac_sha384 C (dk_client_finished_key keys) th2
       in cf_decode bs = Inr \<lparr>cf_ct_to_b = ct, cf_signature = Some sig, cf_finished_mac = Some mac\<rparr> \<and>
          hybrid_verify K cert th2 sig = Inr () \<and> responder_secrets K xb kem ex_pk ct = Inr (ss_x, ss_b) \<and>
          sf = cbare_bytes (hmac_sha384 C (dk_server_finished_key keys) (sha384 C [th2, mac])) \<and>
          s = session_of Responder keys th2 cert ep))" (is "?L \<longleftrightarrow> ?R")
proof (cases "cf_decode bs")
  case (Inl e)
  then show ?thesis by (cases st) (auto simp: on_client_finish_def)
next
  case (Inr cf)
  then obtain ct sig mac where cf: "cf = \<lparr>cf_ct_to_b = ct, cf_signature = Some sig, cf_finished_mac = Some mac\<rparr>"
    using cf_decode_sound by blast
  show ?thesis
    by (cases st) (auto simp: on_client_finish_def Inr cf hello_encode_eq Let_def qm_eq_Inr split: sum.splits if_splits prod.splits)
qed

section \<open>Agreement\<close>

lemma chello_app:
  "chello_ok c \<Longrightarrow> chello_ok c' \<Longrightarrow> chello_bytes c @ a = chello_bytes c' @ b \<Longrightarrow> c = c' \<and> a = b"
  by (cases c; cases c') (simp add: chello_bytes_def chello_ok_def enc_bytes_app suites.lists.enc_app policies.enc_app dps.enc_app list_all_iff)

lemma shello_inj:
  "shello_ok s \<Longrightarrow> shello_ok s' \<Longrightarrow> hs_ok g \<Longrightarrow> hs_ok g' \<Longrightarrow> shello_bytes s g = shello_bytes s' g' \<Longrightarrow>
    g = g' \<and> s' = s\<lparr>sh_signature := sh_signature s'\<rparr>"
  using sigs.enc_app [of g g' "[]" "[]"]
  by (cases s; cases s') (simp add: shello_bytes_def shello_fields_def shello_ok_def enc_bytes_app dps.enc_app)

lemma kem_okD:
  assumes "kem_ok K"
  shows "length (snd (kem_keys K r)) = 1184" "kem_valid K (snd (kem_keys K r))"
    "length (fst (kem_encap K (snd (kem_keys K r)) e)) = 1088"
    "kem_decap K (fst (kem_keys K r)) (fst (kem_encap K (snd (kem_keys K r)) e)) = snd (kem_encap K (snd (kem_keys K r)) e)"
    "length (x_public K x) = 32" "x_dh K x (x_public K y) = x_dh K y (x_public K x)"
  using assms by (simp_all add: kem_ok_def MLKEM768_PUBLIC_KEY_LEN_def MLKEM768_CIPHERTEXT_LEN_def)

lemma encapsulate_iff:
  "kem_ok K \<Longrightarrow> mlkem_encapsulate K e (snd (kem_keys K r)) = Inr y \<longleftrightarrow> y = kem_encap K (snd (kem_keys K r)) e"
  by (auto simp: mlkem_encapsulate_def kem_okD MLKEM768_PUBLIC_KEY_LEN_def)

lemma own_hello_ok:
  assumes "sig_ok K" "kem_ok K" "kdf_lens C" "identity = identity_from_seed C K seed" "length nonce = 32" "length ep = 32"
  shows "chello_ok (own_hello K xa ra nonce now identity ep)"
  using assms identity_public_ok [OF assms(1,3)] by (simp add: chello_ok_def own_hello_def kem_okD ALPN_def)

lemma own_reply_ok:
  assumes "sig_ok K" "kem_ok K" "kdf_lens C" "identity = identity_from_seed C K seed" "length nonce = 32" "length ep = 32" "length ct = 1088"
  shows "shello_ok (own_reply K xb rb ct nonce minor identity ep)"
  using assms identity_public_ok [OF assms(1,3)] by (simp add: shello_ok_def own_reply_def kem_okD ALPN_def)

lemma hybrid_sign_ok:
  assumes "sig_ok K" and "identity = identity_from_seed C K seed" and "hybrid_sign K r identity h = Inr sig"
  shows "hs_ok sig" "hybrid_verify K (identity_public K identity) h sig = Inr ()"
  using hybrid_sign_verify [OF assms(1,2), of r h] assms(3) by auto

text \<open>Both ends compute the same three shared secrets.\<close>

lemma shared_secrets:
  assumes "kem_ok K" and "sh_ex_pk sh = x_public K xb" "sh_kem_pk sh = snd (kem_keys K rb)"
    and "kem_encap K (snd (kem_keys K ra)) eb = (sh_ct_to_a sh, ss)"
    and "initiator_secrets K e xa (kem_keys K ra) sh = Inr (ss_x, ss_a, ss_b, ct)"
  shows "length ct = 1088 \<and> ss_a = ss \<and> responder_secrets K xb (kem_keys K rb) (x_public K xa) ct = Inr (ss_x, ss_b)"
proof -
  note k = kem_okD [OF assms(1)]
  have "sh_ct_to_a sh = fst (kem_encap K (snd (kem_keys K ra)) eb)" "ss = snd (kem_encap K (snd (kem_keys K ra)) eb)"
    using assms(4) by simp_all
  moreover obtain c s where cs: "kem_encap K (snd (kem_keys K rb)) e = (c, s)" by (cases "kem_encap K (snd (kem_keys K rb)) e")
  ultimately show ?thesis
    using assms(2,3,5) k(3,4) [of rb e] k(4) [of ra eb] k(6) [of xa xb] encapsulate_iff [OF assms(1), of e rb]
    by (auto simp: initiator_secrets_def responder_secrets_def x25519_agree_def decapsulate_def Let_def MLKEM768_CIPHERTEXT_LEN_def res_iff
        split: if_splits)
qed

section \<open>Replay window\<close>

definition rc_ok :: "replay_cache \<Rightarrow> bool" where
  "rc_ok rc \<longleftrightarrow> rc_seen rc = set (rc_order rc) \<and> distinct (rc_order rc) \<and> length (rc_order rc) \<le> REPLAY_CACHE_CAP"

text \<open>What the cache promises: a hello is fresh unless its key is among the last 4096 accepted ones.\<close>

definition last_n :: "nat \<Rightarrow> 'a list \<Rightarrow> 'a list" where
  "last_n n xs = drop (length xs - n) xs"

definition window_step :: "bytes list \<Rightarrow> bytes \<Rightarrow> bool \<times> bytes list" where
  "window_step accepted key = (if key \<in> set (last_n REPLAY_CACHE_CAP accepted) then (False, accepted) else (True, accepted @ [key]))"

definition rc_refines :: "replay_cache \<Rightarrow> bytes list \<Rightarrow> bool" where
  "rc_refines rc accepted \<longleftrightarrow> rc_ok rc \<and> rc_order rc = last_n REPLAY_CACHE_CAP accepted"

fun offer_hellos :: "replay_cache \<Rightarrow> (bytes \<times> bytes) list \<Rightarrow> bool list \<times> replay_cache" where
  "offer_hellos rc [] = ([], rc)"
| "offer_hellos rc ((d, n) # hs) =
    (case check_and_insert rc d n of (b, rc) \<Rightarrow> (case offer_hellos rc hs of (bs, rc) \<Rightarrow> (b # bs, rc)))"

fun window_run :: "bytes list \<Rightarrow> bytes list \<Rightarrow> bool list \<times> bytes list" where
  "window_run accepted [] = ([], accepted)"
| "window_run accepted (k # ks) =
    (case window_step accepted k of (b, accepted) \<Rightarrow> (case window_run accepted ks of (bs, accepted) \<Rightarrow> (b # bs, accepted)))"

lemma last_n_snoc: "0 < n \<Longrightarrow> last_n n (xs @ [x]) = (if length xs < n then last_n n xs else tl (last_n n xs)) @ [x]"
  by (auto simp: last_n_def Suc_diff_le tl_drop drop_Suc [symmetric] simp flip: drop_Suc)

lemma length_last_n: "length (last_n n xs) = min (length xs) n"
  by (simp add: last_n_def)

lemma check_and_insert_refines:
  assumes "rc_refines rc accepted"
  shows "\<exists>rc'. check_and_insert rc d n = (fst (window_step accepted (d @ n)), rc') \<and> rc_refines rc' (snd (window_step accepted (d @ n)))"
proof -
  note r = assms [unfolded rc_refines_def rc_ok_def]
  have cap: "0 < REPLAY_CACHE_CAP" by (simp add: REPLAY_CACHE_CAP_def)
  show ?thesis
  proof (cases "d @ n \<in> set (last_n REPLAY_CACHE_CAP accepted)")
    case True
    with r assms show ?thesis by (auto simp: check_and_insert_def window_step_def rc_refines_def rc_ok_def)
  next
    case fresh: False
    show ?thesis
    proof (cases "length accepted < REPLAY_CACHE_CAP")
      case True
      then have "\<not> REPLAY_CACHE_CAP \<le> length (rc_order rc)" using r by (simp add: length_last_n)
      with r fresh True cap show ?thesis
        by (auto simp: check_and_insert_def window_step_def rc_refines_def rc_ok_def Let_def last_n_snoc length_last_n)
    next
      case False
      then have "length (rc_order rc) = REPLAY_CACHE_CAP" using r by (simp add: length_last_n)
      then obtain old rest where o: "rc_order rc = old # rest" using cap by (cases "rc_order rc") auto
      let ?rc = "rc\<lparr>rc_order := rest @ [d @ n], rc_seen := insert (d @ n) (rc_seen rc - {old})\<rparr>"
      have l: "last_n REPLAY_CACHE_CAP accepted = old # rest" "length (old # rest) = REPLAY_CACHE_CAP" using r o False by (simp_all add: length_last_n)
      have "check_and_insert rc d n = (True, ?rc)"
        using r fresh l o unfolding check_and_insert_def Let_def by simp
      moreover have "last_n REPLAY_CACHE_CAP (accepted @ [d @ n]) = rest @ [d @ n]"
        using False cap l(1) by (simp add: last_n_snoc)
      ultimately show ?thesis
        using r fresh l o by (auto simp: window_step_def rc_refines_def rc_ok_def)
    qed
  qed
qed

lemma offer_hellos_refines:
  "rc_refines rc accepted \<Longrightarrow>
    fst (offer_hellos rc hs) = fst (window_run accepted (map (\<lambda>(d, n). d @ n) hs)) \<and>
    rc_refines (snd (offer_hellos rc hs)) (snd (window_run accepted (map (\<lambda>(d, n). d @ n) hs)))"
proof (induction hs arbitrary: rc accepted)
  case (Cons h hs)
  obtain d n where h: "h = (d, n)" by (cases h)
  obtain rc' where "check_and_insert rc d n = (fst (window_step accepted (d @ n)), rc')"
    "rc_refines rc' (snd (window_step accepted (d @ n)))"
    using check_and_insert_refines [OF Cons.prems] by blast
  with Cons.IH [of rc' "snd (window_step accepted (d @ n))"] show ?case by (auto simp: h split: prod.splits)
qed simp

section \<open>Types\<close>

text \<open>The lengths the source states as array types.\<close>

definition derived_ok :: "derived_keys \<Rightarrow> bool" where
  "derived_ok k \<longleftrightarrow> length (dk_handshake_prk k) = 48 \<and> length (dk_client_finished_key k) = 48 \<and> length (dk_server_finished_key k) = 48 \<and>
    length (dk_control_key_c2s k) = 32 \<and> length (dk_control_key_s2c k) = 32 \<and> length (dk_transfer_wrap_key k) = 32 \<and>
    length (dk_session_resumption_secret k) = 48"

definition session_ok :: "session_keys \<Rightarrow> bool" where
  "session_ok s \<longleftrightarrow> length (sk_handshake_prk s) = 48 \<and> length (sk_th2 s) = 48 \<and> length (sk_control_key_c2s s) = 32 \<and>
    length (sk_control_key_s2c s) = 32 \<and> length (sk_transfer_wrap_key s) = 32 \<and> length (sk_session_resumption_secret s) = 48 \<and>
    dp_ok (sk_peer s) \<and> length (sk_peer_endpoint_id s) = 32"

fun initiator_ok :: "initiator_state \<Rightarrow> bool" where
  "initiator_ok (AwaitServerFinish keys th2 mac peer ep) \<longleftrightarrow> derived_ok keys \<and> length th2 = 48 \<and> length mac = 48 \<and> dp_ok peer \<and> length ep = 32"
| "initiator_ok _ \<longleftrightarrow> True"

fun responder_ok :: "responder_state \<Rightarrow> bool" where
  "responder_ok (AwaitClientFinish xb kem ss ch bare full ex cert ep) \<longleftrightarrow> length ex = 32 \<and> dp_ok cert \<and> length ep = 32"
| "responder_ok _ \<longleftrightarrow> True"

lemma derive_keys_ok: "kdf_lens C \<Longrightarrow> derived_ok (derive_keys C ch sh cf th2 x a b)"
  by (simp add: derive_keys_def derived_ok_def Let_def kdf_lensD)

lemma session_of_ok: "derived_ok k \<Longrightarrow> length th2 = 48 \<Longrightarrow> dp_ok peer \<Longrightarrow> length ep = 32 \<Longrightarrow> session_ok (session_of rl k th2 peer ep)"
  by (simp add: session_ok_def session_of_def derived_ok_def)

section \<open>Resumption messages\<close>

definition rhello_bytes :: "resumption_hello \<Rightarrow> bytes" where
  "rhello_bytes h = enc_map 9 @ enc_uint 0 @ enc_uint (ucast PROTOCOL_MAJOR) @ enc_uint 1 @ enc_uint (rh_protocol_minor h) @
    enc_uint 2 @ enc_uint MODE_RESUMPTION @ enc_uint 3 @ enc_bytes (rh_alpn h) @ enc_uint 4 @ enc_uint (ucast (rh_suite_id h)) @
    enc_uint 5 @ enc_bytes (rh_resumption_id h) @ enc_uint 6 @ enc_bytes (rh_nonce h) @ enc_uint 7 @ enc_uint (rh_timestamp h) @
    enc_uint 8 @ enc_bytes (rh_endpoint_id h)"

definition rhello_ok :: "resumption_hello \<Rightarrow> bool" where
  "rhello_ok h \<longleftrightarrow> rh_alpn h = ALPN \<and> rh_suite_id h = SUITE_ID \<and> length (rh_resumption_id h) = 16 \<and> length (rh_nonce h) = 32 \<and>
    length (rh_endpoint_id h) = 32"

lemma rh_decode_iff: "rh_decode bs = Inr h \<longleftrightarrow> rhello_ok h \<and> rh_encode h = Some bs"
proof -
  have enc: "rh_encode h = Some (rhello_bytes h)" by (simp add: rh_encode_def mw_simps rhello_bytes_def)
  have "rh_decode bs = Inr h \<Longrightarrow> rhello_ok h \<and> bs = rhello_bytes h"
    by (auto simp: rh_decode_def res_iff cbor_iff rhello_ok_def rhello_bytes_def ucast_up_u64 split: if_splits)
  moreover have "rh_decode (rhello_bytes h) = Inr h" if ok: "rhello_ok h"
  proof -
    have "length (rhello_bytes h) \<le> MAX_CONTROL_SIZE"
      unfolding rhello_bytes_def by (rule order_trans, (rule len_rules)+) (use ok in \<open>simp add: rhello_ok_def ALPN_def MAX_CONTROL_SIZE_def\<close>)
    with ok show ?thesis
      by (cases h) (auto simp: rh_decode_def rhello_bytes_def rhello_ok_def r_new_eq cbor_fwd MAX_DEPTH_def ucast_up_u64 ALPN_def)
  qed
  ultimately show ?thesis by (auto simp: enc)
qed

lemma rx_decode_iff: "rx_decode bs = Inr a \<longleftrightarrow> length (rx_nonce a) = 32 \<and> length (rx_endpoint_id a) = 32 \<and> rx_encode a = Some bs"
proof -
  let ?b = "enc_map 3 @ enc_uint 0 @ enc_bytes (rx_nonce a) @ enc_uint 1 @ enc_bytes (rx_endpoint_id a) @ enc_uint 2 @ enc_uint (rx_timestamp a)"
  have enc: "rx_encode a = Some ?b" by (simp add: rx_encode_def mw_simps)
  have "rx_decode bs = Inr a \<Longrightarrow> length (rx_nonce a) = 32 \<and> length (rx_endpoint_id a) = 32 \<and> bs = ?b"
    by (auto simp: rx_decode_def res_iff cbor_iff)
  moreover have "rx_decode ?b = Inr a" if ok: "length (rx_nonce a) = 32" "length (rx_endpoint_id a) = 32"
  proof -
    have "length ?b \<le> MAX_CONTROL_SIZE"
      by (rule order_trans, (rule len_rules)+) (use ok in \<open>simp add: MAX_CONTROL_SIZE_def\<close>)
    with ok show ?thesis by (cases a) (auto simp: rx_decode_def r_new_eq cbor_fwd MAX_DEPTH_def)
  qed
  ultimately show ?thesis by (auto simp: enc)
qed

lemma resumption_agree:
  assumes "kdf_lens C" and "h = rh_new C nonce now secret ep" and "length nonce = 32" "length ep = 32"
    and "rh_encode h = Some hb"
  shows "rh_decode hb = Inr h \<and> rh_resumption_id h = resumption_id C secret"
  using assms by (auto simp: rh_decode_iff rhello_ok_def rh_new_def resumption_id_def kdf_lensD)

section \<open>Honest runs\<close>

lemma on_server_hello_intro:
  assumes "sh_decode bs = Inr sh" and "sh_signature sh = Some sig" and "check_server_hello C K ch ep sh = Some (Inr (shello_bare sh))"
    and "initiator_secrets K e xa kem sh = Inr (ss_x, ss_a, ss_b, ct)" and "th2 = sha384 C [TH2_DOMAIN, ch, bs, cbare_bytes ct]"
    and "keys = derive_keys C ch (shello_bare sh) (cbare_bytes ct) th2 ss_x ss_a ss_b"
    and "mac = hmac_sha384 C (dk_client_finished_key keys) th2" and "hybrid_sign K s identity th2 = Inr sig'"
  shows "on_server_hello C K e s identity (AwaitServerHello xa kem ch ep) bs =
    Some (Inr (cfinish_bytes ct sig' mac), AwaitServerFinish keys th2 mac (sh_cert sh) (sh_endpoint_id sh))"
  unfolding on_server_hello_iff Let_def assms(5) [symmetric]
  by (intro exI conjI) (rule refl assms(1-4,8) | simp add: assms(6,7,8) assms(5) [symmetric])+

lemma on_client_finish_intro:
  assumes "cf_decode bs = Inr \<lparr>cf_ct_to_b = ct, cf_signature = Some sig, cf_finished_mac = Some mac\<rparr>"
    and "th2 = sha384 C [TH2_DOMAIN, ch, full, cbare_bytes ct]" and "hybrid_verify K cert th2 sig = Inr ()"
    and "responder_secrets K xb kem ex_pk ct = Inr (ss_x, ss_b)"
    and "keys = derive_keys C ch bare (cbare_bytes ct) th2 ss_x ss_a ss_b" and "mac = hmac_sha384 C (dk_client_finished_key keys) th2"
  shows "on_client_finish C K (AwaitClientFinish xb kem ss_a ch bare full ex_pk cert ep) bs =
    Some (Inr (cbare_bytes (hmac_sha384 C (dk_server_finished_key keys) (sha384 C [th2, mac])), session_of Responder keys th2 cert ep), ResponderDone)"
  using assms(1,3,4) unfolding on_client_finish_def
  by (simp add: hello_encode_eq assms(2,5,6) Let_def)

lemma honest_client_hello:
  assumes "sig_ok K" "kem_ok K" "kdf_lens C" and "ida = identity_from_seed C K seed_a" "idb = identity_from_seed C K seed_b"
    and "length nonce_a = 32" "length nonce_b = 32" "length ep_a = 32" "length ep_b = 32"
    and time: "abs_diff now_a now_b \<le> TIMESTAMP_WINDOW_SECS"
    and fresh: "dp_device_id (identity_public K ida) @ nonce_a \<notin> rc_seen rc"
    and ca: "kem_encap K (snd (kem_keys K ra)) eb = (ct_a, ss_a)"
  shows "\<exists>rc' sig. let ch = chello_bytes (own_hello K xa ra nonce_a now_a ida ep_a); R = own_reply K xb rb ct_a nonce_b 0 idb ep_b in
    on_client_hello C K xb rb eb nonce_b sb now_b idb ep_b AwaitClientHello ch ep_a rc =
      Some (Inr (shello_bytes R sig), AwaitClientFinish xb (kem_keys K rb) ss_a ch (shello_bare R) (shello_bytes R sig) (x_public K xa)
        (identity_public K ida) ep_a, rc') \<and>
    sh_decode (shello_bytes R sig) = Inr (R\<lparr>sh_signature := Some sig\<rparr>) \<and>
    check_server_hello C K ch ep_b (R\<lparr>sh_signature := Some sig\<rparr>) = Some (Inr (shello_bare R))"
proof -
  let ?H = "own_hello K xa ra nonce_a now_a ida ep_a" and ?R = "own_reply K xb rb ct_a nonce_b 0 idb ep_b"
  let ?ch = "chello_bytes ?H"
  have len: "length ct_a = 1088" using kem_okD(3) [OF assms(2), of ra eb] ca by simp
  have hello: "ch_decode ?ch = Inr ?H" using own_hello_ok [OF assms(1-4,6,8)] by (rule ch_decode_complete)
  obtain rc' where chk: "check_client_hello ?H ep_a now_b rc = (Inr 0, rc')"
    using time fresh by (auto simp: check_client_hello_def own_hello_def check_and_insert_def Let_def PROTOCOL_MINOR_def not_less)
  obtain sig where sg: "hybrid_sign K sb idb (th1_of C ?ch (shello_bare ?R)) = Inr sig" "hs_ok sig"
      "hybrid_verify K (identity_public K idb) (th1_of C ?ch (shello_bare ?R)) sig = Inr ()"
    using hybrid_sign_verify [OF assms(1,5)] by blast
  let ?S = "?R\<lparr>sh_signature := Some sig\<rparr>"
  have "on_client_hello C K xb rb eb nonce_b sb now_b idb ep_b AwaitClientHello ?ch ep_a rc =
      Some (Inr (shello_bytes ?R sig), AwaitClientFinish xb (kem_keys K rb) ss_a ?ch (shello_bare ?R) (shello_bytes ?R sig) (x_public K xa)
        (identity_public K ida) ep_a, rc')"
    unfolding on_client_hello_iff using hello chk sg(1) ca len
    by (intro conjI refl exI [of _ ?H] exI [of _ 0] exI [of _ ct_a] exI [of _ ss_a] exI [of _ sig])
       (simp_all add: own_hello_def encapsulate_iff [OF assms(2)])
  moreover have "sh_decode (shello_bytes ?R sig) = Inr ?S"
    using sh_decode_complete [of ?S sig] sg(2) own_reply_ok [OF assms(1-3,5,7,9) len, of xb rb 0] by (simp add: shello_ok_def)
  moreover have "check_server_hello C K ?ch ep_b ?S = Some (Inr (shello_bare ?R))"
    using sg(3) by (subst check_server_hello_iff [where sig = sig]) (simp_all, simp_all add: own_reply_def PROTOCOL_MINOR_def)
  ultimately show ?thesis by (auto simp: Let_def)
qed

lemma handshake_run:
  assumes "sig_ok K" "kem_ok K" "kdf_lens C"
    and ids: "ida = identity_from_seed C K seed_a" "idb = identity_from_seed C K seed_b"
    and lens: "length nonce_a = 32" "length nonce_b = 32" "length ep_a = 32" "length ep_b = 32"
    and time: "abs_diff now_a now_b \<le> TIMESTAMP_WINDOW_SECS"
    and fresh: "dp_device_id (identity_public K ida) @ nonce_a \<notin> rc_seen rc"
    and shared: "x_dh K xa (x_public K xb) \<noteq> replicate 32 0"
  shows "\<exists>i0 ch r1 rc' sh i1 cf sf ka kb.
    initiator_start K xa ra nonce_a now_a ida ep_a ep_b = Some (i0, ch) \<and>
    on_client_hello C K xb rb eb nonce_b sb now_b idb ep_b AwaitClientHello ch ep_a rc = Some (Inr sh, r1, rc') \<and>
    on_server_hello C K ea sa ida i0 sh = Some (Inr cf, i1) \<and>
    on_client_finish C K r1 cf = Some (Inr (sf, kb), ResponderDone) \<and>
    on_server_finish C i1 sf = (Inr ka, InitiatorDone) \<and>
    sk_peer ka = identity_public K idb \<and> sk_peer_endpoint_id ka = ep_b \<and>
    kb = ka\<lparr>sk_role := Responder, sk_peer := identity_public K ida, sk_peer_endpoint_id := ep_a\<rparr> \<and>
    linked (cc_new C (sk_handshake_prk ka) (sk_th2 ka) ClientToServer) (cc_new C (sk_handshake_prk kb) (sk_th2 kb) ServerToClient)"
proof -
  note k = kem_okD [OF assms(2)]
  obtain ct_a ss_a where ca: "kem_encap K (snd (kem_keys K ra)) eb = (ct_a, ss_a)" by (cases "kem_encap K (snd (kem_keys K ra)) eb")
  obtain ct ss_b where cb: "kem_encap K (snd (kem_keys K rb)) ea = (ct, ss_b)" by (cases "kem_encap K (snd (kem_keys K rb)) ea")
  have len: "length ct_a = 1088" "length ct = 1088" using k(3) [of ra eb] k(3) [of rb ea] ca cb by simp_all
  let ?ch = "chello_bytes (own_hello K xa ra nonce_a now_a ida ep_a)" and ?R = "own_reply K xb rb ct_a nonce_b 0 idb ep_b"
  obtain rc' sig where s1: "on_client_hello C K xb rb eb nonce_b sb now_b idb ep_b AwaitClientHello ?ch ep_a rc =
      Some (Inr (shello_bytes ?R sig), AwaitClientFinish xb (kem_keys K rb) ss_a ?ch (shello_bare ?R) (shello_bytes ?R sig) (x_public K xa)
        (identity_public K ida) ep_a, rc')"
    and reply: "sh_decode (shello_bytes ?R sig) = Inr (?R\<lparr>sh_signature := Some sig\<rparr>)"
    and chk: "check_server_hello C K ?ch ep_b (?R\<lparr>sh_signature := Some sig\<rparr>) = Some (Inr (shello_bare ?R))"
    using honest_client_hello [OF assms(1-3) ids lens time fresh ca, of xa xb rb sb] unfolding Let_def by blast
  let ?S = "?R\<lparr>sh_signature := Some sig\<rparr>" and ?x = "x_dh K xa (x_public K xb)"
  have sec: "initiator_secrets K ea xa (kem_keys K ra) ?S = Inr (?x, ss_a, ss_b, ct)"
    using shared cb len ca k(4) [of ra eb]
    by (simp add: initiator_secrets_def own_reply_def x25519_agree_def decapsulate_def mlkem_encapsulate_def k(1,2)
        MLKEM768_CIPHERTEXT_LEN_def MLKEM768_PUBLIC_KEY_LEN_def)
  have rsec: "responder_secrets K xb (kem_keys K rb) (x_public K xa) ct = Inr (?x, ss_b)"
    using shared_secrets [OF assms(2) _ _ _ sec, of xb rb eb ss_a] ca by (simp add: own_reply_def)
  define th2 where "th2 = sha384 C [TH2_DOMAIN, ?ch, shello_bytes ?R sig, cbare_bytes ct]"
  define keys where "keys = derive_keys C ?ch (shello_bare ?R) (cbare_bytes ct) th2 ?x ss_a ss_b"
  define mac where "mac = hmac_sha384 C (dk_client_finished_key keys) th2"
  obtain sa' where sa: "hybrid_sign K sa ida th2 = Inr sa'" "hs_ok sa'" "hybrid_verify K (identity_public K ida) th2 sa' = Inr ()"
    using hybrid_sign_verify [OF assms(1) ids(1)] by blast
  have s2: "on_server_hello C K ea sa ida (AwaitServerHello xa (kem_keys K ra) ?ch ep_b) (shello_bytes ?R sig) =
      Some (Inr (cfinish_bytes ct sa' mac), AwaitServerFinish keys th2 mac (sh_cert ?S) (sh_endpoint_id ?S))"
    by (rule on_server_hello_intro [OF reply _ _ sec th2_def _ mac_def sa(1)]) (simp_all add: chk keys_def)
  have "length mac = 48" by (simp add: mac_def kdf_lensD [OF assms(3)])
  note s3 = on_client_finish_intro [OF cf_decode_complete [OF len(2) sa(2) this] th2_def sa(3) rsec keys_def mac_def, of ep_a]
  have s4: "on_server_finish C (AwaitServerFinish keys th2 mac p e) (cbare_bytes (hmac_sha384 C (dk_server_finished_key keys) (sha384 C [th2, mac]))) =
      (Inr (session_of Initiator keys th2 p e), InitiatorDone)" for p e
    unfolding on_server_finish_iff by (simp add: sf_decode_iff kdf_lensD [OF assms(3)])
  have "linked (cc_new C (dk_handshake_prk keys) th2 ClientToServer) (cc_new C (dk_handshake_prk keys) th2 ServerToClient)"
    using linked_new [OF assms(3), of "dk_handshake_prk keys" th2 ClientToServer] by simp
  with s1 s2 s3 s4 show ?thesis
    unfolding initiator_start_eq by (intro exI conjI) (rule refl | assumption | simp add: session_of_def own_reply_def)+
qed


lemma on_server_hello_typed:
  assumes "kdf_lens C" and "on_server_hello C K e s i st bs = Some (Inr cf, st')"
  shows "initiator_ok st'"
proof -
  obtain sh a b c d e' f g xs k m where "sh_decode bs = Inr sh"
      "st' = AwaitServerFinish (derive_keys C a b c d e' f g) (sha384 C xs) (hmac_sha384 C k m) (sh_cert sh) (sh_endpoint_id sh)"
    using assms(2) unfolding on_server_hello_iff Let_def by blast
  with sh_decode_sound [of bs sh] show ?thesis by (auto simp: shello_ok_def derive_keys_ok assms(1) kdf_lensD [OF assms(1)])
qed

lemma on_client_hello_typed:
  assumes "on_client_hello C K xb rb eb n sb now i ep st bs obs rc = Some (Inr sh, st', rc')"
  shows "responder_ok st'"
proof -
  obtain ch a b c d e f where "ch_decode bs = Inr ch" "st' = AwaitClientFinish a b c d e f (ch_ex_pk ch) (ch_cert ch) (ch_endpoint_id ch)"
    using assms unfolding on_client_hello_iff by blast
  with ch_decode_sound [of bs ch] show ?thesis by (simp add: chello_ok_def)
qed

lemma on_server_hello_failed: "on_server_hello C K e s i st bs = Some (Inl x, st') \<Longrightarrow> st' = InitiatorFailed"
  unfolding on_server_hello_def Let_def
  by (auto split: initiator_state.splits sum.splits Option.bind_splits)

lemma on_client_hello_failed: "on_client_hello C K xb rb eb n sb now i ep st bs obs rc = Some (Inl x, st', rc') \<Longrightarrow> st' = ResponderFailed"
  unfolding on_client_hello_def Let_def
  by (auto split: sum.splits if_splits prod.splits Option.bind_splits)

lemma finish_failed:
  "on_server_finish C st bs = (Inl x, st') \<Longrightarrow> st' = InitiatorFailed"
  "on_client_finish C K rst bs = Some (Inl y, rst') \<Longrightarrow> rst' = ResponderFailed"
  unfolding on_server_finish_def on_client_finish_def Let_def
  by (auto split: initiator_state.splits responder_state.splits sum.splits if_splits option.splits Option.bind_splits)

section \<open>What a finished end has seen\<close>

definition th2_of :: "prims \<Rightarrow> bytes \<Rightarrow> bytes \<Rightarrow> bytes \<Rightarrow> bytes" where
  "th2_of C ch sh ct = sha384 C [TH2_DOMAIN, ch, sh, cbare_bytes ct]"

definition session_for :: "prims \<Rightarrow> role \<Rightarrow> bytes \<Rightarrow> server_hello \<Rightarrow> bytes \<Rightarrow> bytes \<Rightarrow> bytes \<times> bytes \<times> bytes \<Rightarrow> device_public \<Rightarrow> bytes \<Rightarrow> session_keys" where
  "session_for C rl ch S sh ct ss peer ep =
    session_of rl (derive_keys C ch (shello_bare S) (cbare_bytes ct) (th2_of C ch sh ct) (fst ss) (fst (snd ss)) (snd (snd ss))) (th2_of C ch sh ct) peer ep"

lemma initiator_view:
  assumes "sig_ok K" "kem_ok K" "kdf_lens C" and "ida = identity_from_seed C K seed_a"
    and i1: "on_server_hello C K ea sa ida (AwaitServerHello xa (kem_keys K ra) ch dialed) sh_in = Some (Inr cf, i1)"
    and i2: "on_server_finish C i1 sf_in = (Inr ka, i2)"
  shows "\<exists>S sig ss_x ss_a ss_b ct. sh_decode sh_in = Inr S \<and> sh_signature S = Some sig \<and> sh_endpoint_id S = dialed \<and>
    initiator_secrets K ea xa (kem_keys K ra) S = Inr (ss_x, ss_a, ss_b, ct) \<and> length ct = 1088 \<and>
    client_finish_bare cf = Some (Some (cbare_bytes ct)) \<and>
    ka = session_for C Initiator ch S sh_in ct (ss_x, ss_a, ss_b) (sh_cert S) dialed"
proof -
  let ?th2 = "th2_of C ch sh_in" and ?keys = "\<lambda>S ct x a b. derive_keys C ch (shello_bare S) (cbare_bytes ct) (th2_of C ch sh_in ct) x a b"
  obtain S sig ss_x ss_a ss_b ct sig' where a: "sh_decode sh_in = Inr S" "sh_signature S = Some sig"
      "check_server_hello C K ch dialed S = Some (Inr (shello_bare S))" "initiator_secrets K ea xa (kem_keys K ra) S = Inr (ss_x, ss_a, ss_b, ct)"
      "hybrid_sign K sa ida (?th2 ct) = Inr sig'"
    and cf: "cf = cfinish_bytes ct sig' (hmac_sha384 C (dk_client_finished_key (?keys S ct ss_x ss_a ss_b)) (?th2 ct))"
    and st: "i1 = AwaitServerFinish (?keys S ct ss_x ss_a ss_b) (?th2 ct) (hmac_sha384 C (dk_client_finished_key (?keys S ct ss_x ss_a ss_b)) (?th2 ct))
      (sh_cert S) (sh_endpoint_id S)"
    using i1 unfolding on_server_hello_iff Let_def th2_of_def initiator_state.inject by blast
  have ka: "ka = session_for C Initiator ch S sh_in ct (ss_x, ss_a, ss_b) (sh_cert S) (sh_endpoint_id S)"
    using i2 unfolding on_server_finish_iff st initiator_state.inject session_for_def fst_conv snd_conv by blast
  have "length ct = 1088"
    using a(4) by (auto simp: initiator_secrets_def MLKEM768_CIPHERTEXT_LEN_def res_iff split: if_splits)
  moreover have "hs_ok sig'" by (rule hybrid_sign_ok [OF assms(1,4) a(5)])
  ultimately have "client_finish_bare cf = Some (Some (cbare_bytes ct))"
    unfolding cf client_finish_bare_def by (simp add: cf_decode_complete kdf_lensD [OF assms(3)] hello_encode_eq)
  moreover have "sh_endpoint_id S = dialed" using check_server_hello_iff [OF a(2)] a(3) by simp
  ultimately show ?thesis using a(1,2,4) ka \<open>length ct = 1088\<close> by (intro exI conjI) (assumption | simp)+
qed

lemma responder_view:
  assumes "on_client_finish C K (AwaitClientFinish xb kem ss ch (shello_bare R) sh ex cert ep) cf_in = Some (Inr (sf, kb), r2)"
  shows "\<exists>ct ss_x ss_b. client_finish_bare cf_in = Some (Some (cbare_bytes ct)) \<and> length ct = 1088 \<and>
    responder_secrets K xb kem ex ct = Inr (ss_x, ss_b) \<and> kb = session_for C Responder ch R sh ct (ss_x, ss, ss_b) cert ep"
proof -
  obtain ct sig mac ss_x ss_b where c: "cf_decode cf_in = Inr \<lparr>cf_ct_to_b = ct, cf_signature = Some sig, cf_finished_mac = Some mac\<rparr>"
      "responder_secrets K xb kem ex ct = Inr (ss_x, ss_b)" "kb = session_for C Responder ch R sh ct (ss_x, ss, ss_b) cert ep"
    using assms unfolding on_client_finish_iff Let_def session_for_def th2_of_def responder_state.inject fst_conv snd_conv by blast
  moreover have "length ct = 1088" using cf_decode_sound [OF c(1)] by auto
  ultimately show ?thesis by (auto simp: client_finish_bare_def hello_encode_eq)
qed

lemma transcript_inj:
  assumes "chello_ok A" "chello_ok B" "length ct = 1088" "length ct' = 1088"
    and "chello_bytes A @ x @ cbare_bytes ct = chello_bytes B @ y @ cbare_bytes ct'"
  shows "A = B \<and> x = y \<and> ct = ct'"
  using chello_app [OF assms(1,2,5)] assms(3,4) by (auto simp: cbare_bytes_def enc_bytes_def)

section \<open>Properties\<close>

lemma sample_run:
  "x_dh sample_pk [1] (x_public sample_pk [6]) \<noteq> replicate 32 0" "abs_diff 1000 1100 \<le> TIMESTAMP_WINDOW_SECS" "k \<notin> rc_seen rc_default"
  by (simp_all add: sample_pk_def fit_def Cons_replicate_eq abs_diff_def TIMESTAMP_WINDOW_SECS_def rc_default_def)

definition sample_initiator :: device_identity where
  "sample_initiator = identity_from_seed sample_prims sample_pk [1]"

definition sample_responder :: device_identity where
  "sample_responder = identity_from_seed sample_prims sample_pk [2]"

text \<open>C14: Two devices that follow the protocol complete the handshake. When the clocks differ by at most five minutes, the nonce is fresh and
  the X25519 secret is not zero, each message is accepted by the other end, and both end with the same keys and the other's
  device and endpoint as the peer; the control channels made from the two sessions are linked.\<close>

theorem handshake_completes:
  assumes "sig_ok K" "kem_ok K" "kdf_lens C"
    and ids: "ida = identity_from_seed C K seed_a" "idb = identity_from_seed C K seed_b"
    and lens: "length nonce_a = 32" "length nonce_b = 32" "length ep_a = 32" "length ep_b = 32"
    and time: "abs_diff now_a now_b \<le> TIMESTAMP_WINDOW_SECS"
    and fresh: "dp_device_id (identity_public K ida) @ nonce_a \<notin> rc_seen rc"
    and shared: "x_dh K xa (x_public K xb) \<noteq> replicate 32 0"
  shows "\<exists>i0 ch r1 rc' sh i1 cf sf ka kb.
    initiator_start K xa ra nonce_a now_a ida ep_a ep_b = Some (i0, ch) \<and>
    on_client_hello C K xb rb eb nonce_b sb now_b idb ep_b AwaitClientHello ch ep_a rc = Some (Inr sh, r1, rc') \<and>
    on_server_hello C K ea sa ida i0 sh = Some (Inr cf, i1) \<and>
    on_client_finish C K r1 cf = Some (Inr (sf, kb), ResponderDone) \<and>
    on_server_finish C i1 sf = (Inr ka, InitiatorDone) \<and>
    sk_peer ka = identity_public K idb \<and> sk_peer_endpoint_id ka = ep_b \<and>
    kb = ka\<lparr>sk_role := Responder, sk_peer := identity_public K ida, sk_peer_endpoint_id := ep_a\<rparr> \<and>
    linked (cc_new C (sk_handshake_prk ka) (sk_th2 ka) ClientToServer) (cc_new C (sk_handshake_prk kb) (sk_th2 kb) ServerToClient)"
  using assms by (rule handshake_run)

theorem handshake_completes_witness:
  "\<exists>ka kb i0 ch r1 rc' sh i1 cf sf.
    initiator_start sample_pk [1] [2] (replicate 32 3) 1000 sample_initiator (replicate 32 4) (replicate 32 5) =
      Some (i0, ch) \<and>
    on_client_hello sample_prims sample_pk [6] [7] [8] (replicate 32 9) [] 1100 sample_responder (replicate 32 5) AwaitClientHello ch
      (replicate 32 4) rc_default = Some (Inr sh, r1, rc') \<and>
    on_server_hello sample_prims sample_pk [] [] sample_initiator i0 sh = Some (Inr cf, i1) \<and>
    on_client_finish sample_prims sample_pk r1 cf = Some (Inr (sf, kb), ResponderDone) \<and>
    on_server_finish sample_prims i1 sf = (Inr ka, InitiatorDone) \<and> sk_transfer_wrap_key ka = sk_transfer_wrap_key kb"
proof -
  obtain i0 ch r1 rc' sh i1 cf sf ka kb where run:
    "initiator_start sample_pk [1] [2] (replicate 32 3) 1000 sample_initiator (replicate 32 4) (replicate 32 5) =
      Some (i0, ch)"
    "on_client_hello sample_prims sample_pk [6] [7] [8] (replicate 32 9) [] 1100 sample_responder (replicate 32 5) AwaitClientHello ch
      (replicate 32 4) rc_default = Some (Inr sh, r1, rc')"
    "on_server_hello sample_prims sample_pk [] [] sample_initiator i0 sh = Some (Inr cf, i1)"
    "on_client_finish sample_prims sample_pk r1 cf = Some (Inr (sf, kb), ResponderDone)"
    "on_server_finish sample_prims i1 sf = (Inr ka, InitiatorDone)"
    "kb = ka\<lparr>sk_role := Responder, sk_peer := identity_public sample_pk sample_initiator,
      sk_peer_endpoint_id := replicate 32 4\<rparr>"
    using sample_run handshake_completes [OF sample_pk_ok sample_prims_ok(3) sample_initiator_def sample_responder_def, of "replicate 32 3" "replicate 32 9"
      "replicate 32 4" "replicate 32 5" 1000 1100 rc_default "[1]" "[6]" "[2]" "[7]" "[8]" "[]" "[]" "[]"]
    unfolding length_replicate by blast
  then have "sk_transfer_wrap_key ka = sk_transfer_wrap_key kb" by simp
  with run(1-5) show ?thesis by blast
qed

text \<open>C4: Whatever messages an adversary puts on the wire, an initiator and a responder that both finish with the same transcript hash have
  exchanged the same messages: the hello the responder answered is the one the initiator sent and the reply the
  initiator accepted is the one the responder sent. Then all keys agree, each names the other's device and endpoint as the
  peer, and these are the endpoints the two ends meant to talk to. SHA-384 is only asked not to collide on the two transcripts.\<close>

theorem handshake_agreement:
  assumes "sig_ok K" "kem_ok K" "kdf_lens C"
    and ids: "ida = identity_from_seed C K seed_a" "idb = identity_from_seed C K seed_b"
    and lens: "length nonce_a = 32" "length nonce_b = 32" "length ep_a = 32" "length ep_b = 32"
    and i0: "initiator_start K xa ra nonce_a now_a ida ep_a dialed = Some (i0, ch)"
    and i1: "on_server_hello C K ea sa ida i0 sh_in = Some (Inr cf, i1)"
    and i2: "on_server_finish C i1 sf_in = (Inr ka, i2)"
    and r1: "on_client_hello C K xb rb eb nonce_b sb now_b idb ep_b AwaitClientHello ch_in observed rc = Some (Inr sh, r1, rc')"
    and r2: "on_client_finish C K r1 cf_in = Some (Inr (sf, kb), r2)"
    and same: "sk_th2 ka = sk_th2 kb"
    and sha: "no_collision (prim_sha384 C) [th2_image ch sh_in cf] [th2_image ch_in sh cf_in]"
  shows "ch_in = ch \<and> sh_in = sh \<and> dialed = ep_b \<and> observed = ep_a \<and> sk_peer ka = identity_public K idb \<and> sk_peer_endpoint_id ka = ep_b \<and>
    kb = ka\<lparr>sk_role := Responder, sk_peer := identity_public K ida, sk_peer_endpoint_id := ep_a\<rparr>"
proof -
  let ?H = "own_hello K xa ra nonce_a now_a ida ep_a"
  have st: "i0 = AwaitServerHello xa (kem_keys K ra) ch dialed" "ch = chello_bytes ?H" using i0 by (auto simp: initiator_start_eq)
  obtain S sig ss_x ss_a ss_b ct where a: "sh_decode sh_in = Inr S" "sh_signature S = Some sig" "sh_endpoint_id S = dialed"
      "initiator_secrets K ea xa (kem_keys K ra) S = Inr (ss_x, ss_a, ss_b, ct)" "length ct = 1088"
      "client_finish_bare cf = Some (Some (cbare_bytes ct))" "ka = session_for C Initiator ch S sh_in ct (ss_x, ss_a, ss_b) (sh_cert S) dialed"
    using initiator_view [OF assms(1-3) ids(1) i1 [unfolded st(1)] i2] by blast
  obtain H minor ct_a ss rsig where b: "ch_decode ch_in = Inr H" "check_client_hello H observed now_b rc = (Inr minor, rc')"
      "mlkem_encapsulate K eb (ch_kem_pk H) = Inr (ct_a, ss)" "length ct_a = 1088"
      "hybrid_sign K sb idb (th1_of C ch_in (shello_bare (own_reply K xb rb ct_a nonce_b minor idb ep_b))) = Inr rsig"
      "sh = shello_bytes (own_reply K xb rb ct_a nonce_b minor idb ep_b) rsig"
      "r1 = AwaitClientFinish xb (kem_keys K rb) ss ch_in (shello_bare (own_reply K xb rb ct_a nonce_b minor idb ep_b)) sh
        (ch_ex_pk H) (ch_cert H) (ch_endpoint_id H)"
    using r1 unfolding on_client_hello_iff by blast
  let ?R = "own_reply K xb rb ct_a nonce_b minor idb ep_b"
  obtain ct' ss_x' ss_b' where c: "client_finish_bare cf_in = Some (Some (cbare_bytes ct'))" "length ct' = 1088"
      "responder_secrets K xb (kem_keys K rb) (ch_ex_pk H) ct' = Inr (ss_x', ss_b')"
      "kb = session_for C Responder ch_in ?R sh ct' (ss_x', ss, ss_b') (ch_cert H) (ch_endpoint_id H)"
    using responder_view [OF r2 [unfolded b(7)]] by blast
  have "th2_image ch sh_in cf = th2_image ch_in sh cf_in"
    using same sha by (simp add: a(6,7) c(1,4) session_for_def session_of_def th2_of_def th2_image_def sha384_def no_collision_def)
  then have eq: "chello_bytes ?H @ sh_in @ cbare_bytes ct = chello_bytes H @ sh @ cbare_bytes ct'" "ch_in = chello_bytes H"
    using ch_decode_sound [OF b(1)] by (simp_all add: th2_image_def a(6) c(1) st(2))
  have H: "H = ?H" and sh: "sh_in = sh" "ct' = ct"
    using transcript_inj [OF own_hello_ok [OF assms(1-3) ids(1) lens(1,3)] _ a(5) c(2) eq(1)] ch_decode_sound [OF b(1)] by simp_all
  obtain sig2 where S: "shello_ok S" "sh_signature S = Some sig2" "hs_ok sig2" "sh_in = shello_bytes S sig2" using sh_decode_sound [OF a(1)] by blast
  have R: "S = ?R\<lparr>sh_signature := sh_signature S\<rparr>"
    using shello_inj [OF own_reply_ok [OF assms(1-3) ids(2) lens(2,4) b(4)] S(1) hybrid_sign_ok(1) [OF assms(1) ids(2) b(5)] S(3)] S(4) sh(1) b(6) by simp
  have "S = ?R\<lparr>sh_signature := Some sig\<rparr>" using R a(2) by simp
  then have view: "sh_ex_pk S = x_public K xb" "sh_kem_pk S = snd (kem_keys K rb)" "sh_ct_to_a S = ct_a" "shello_bare S = shello_bare ?R"
      "sh_cert S = identity_public K idb" "sh_endpoint_id S = ep_b" by simp_all (simp_all add: own_reply_def)
  have enc: "kem_encap K (snd (kem_keys K ra)) eb = (sh_ct_to_a S, ss)"
    using b(3) encapsulate_iff [OF assms(2), of eb ra] by (simp add: H own_hello_def view(3))
  have "ss_a = ss" "ss_x' = ss_x" "ss_b' = ss_b"
    using shared_secrets [OF assms(2) view(1,2) enc a(4)] c(3) by (simp_all add: H own_hello_def sh(2))
  moreover have "observed = ep_a" using b(2) by (auto simp: check_client_hello_def H own_hello_def Let_def split: if_splits prod.splits bool.splits)
  ultimately show ?thesis
    using a(3,7) c(4) eq(2) st(2) sh view(4-6) by (simp add: H session_for_def session_of_def own_hello_def)
qed

theorem handshake_agreement_witness:
  "\<exists>i0 ch r1 rc' sh i1 cf sf ka kb.
    initiator_start sample_pk [1] [2] (replicate 32 3) 1000 sample_initiator (replicate 32 4) (replicate 32 5) = Some (i0, ch) \<and>
    on_client_hello sample_prims sample_pk [6] [7] [8] (replicate 32 9) [] 1100 sample_responder (replicate 32 5) AwaitClientHello ch
      (replicate 32 4) rc_default = Some (Inr sh, r1, rc') \<and>
    on_server_hello sample_prims sample_pk [] [] sample_initiator i0 sh = Some (Inr cf, i1) \<and>
    on_client_finish sample_prims sample_pk r1 cf = Some (Inr (sf, kb), ResponderDone) \<and>
    on_server_finish sample_prims i1 sf = (Inr ka, InitiatorDone) \<and> sk_peer kb = identity_public sample_pk sample_initiator"
proof -
  obtain i0 ch r1 rc' sh i1 cf sf ka kb where run:
    "initiator_start sample_pk [1] [2] (replicate 32 3) 1000 sample_initiator (replicate 32 4) (replicate 32 5) = Some (i0, ch)"
    "on_server_hello sample_prims sample_pk [] [] sample_initiator i0 sh = Some (Inr cf, i1)"
    "on_server_finish sample_prims i1 sf = (Inr ka, InitiatorDone)"
    "on_client_hello sample_prims sample_pk [6] [7] [8] (replicate 32 9) [] 1100 sample_responder (replicate 32 5) AwaitClientHello ch
      (replicate 32 4) rc_default = Some (Inr sh, r1, rc')"
    "on_client_finish sample_prims sample_pk r1 cf = Some (Inr (sf, kb), ResponderDone)"
    and kb: "kb = ka\<lparr>sk_role := Responder, sk_peer := identity_public sample_pk sample_initiator, sk_peer_endpoint_id := replicate 32 4\<rparr>"
    using sample_run handshake_run [OF sample_pk_ok sample_prims_ok(3) sample_initiator_def sample_responder_def, of "replicate 32 3"
      "replicate 32 9" "replicate 32 4" "replicate 32 5" 1000 1100 rc_default "[1]" "[6]" "[2]" "[7]" "[8]" "[]" "[]" "[]"]
    unfolding length_replicate by blast
  have same: "sk_th2 ka = sk_th2 kb" by (simp add: kb)
  have "sk_peer kb = identity_public sample_pk sample_initiator"
    using handshake_agreement [OF sample_pk_ok sample_prims_ok(3) sample_initiator_def sample_responder_def _ _ _ _ run same no_collision_refl] by simp
  with run show ?thesis by blast
qed

text \<open>C12: The replay cache implements a window: over any sequence of hellos offered to a fresh cache, one is accepted exactly when its device and
  nonce are not among the last 4096 accepted ones. Its hash set and its queue always hold the same keys, each once,
  and never more than 4096.\<close>

theorem replay_cache_refines_window:
  "fst (offer_hellos rc_default hs) = fst (window_run [] (map (\<lambda>(d, n). d @ n) hs)) \<and> rc_ok (snd (offer_hellos rc_default hs)) \<and>
    rc_order (snd (offer_hellos rc_default hs)) = last_n REPLAY_CACHE_CAP (snd (window_run [] (map (\<lambda>(d, n). d @ n) hs)))"
proof -
  have "rc_refines rc_default []" by (simp add: rc_refines_def rc_ok_def rc_default_def last_n_def)
  from offer_hellos_refines [OF this] show ?thesis by (simp add: rc_refines_def)
qed

text \<open>C40: The states and the sessions of the handshake keep the lengths the array types state, whatever bytes arrive: every state an
  initiator or a responder reaches and every session it returns is well formed. An error in any of the four
  steps leaves the machine failed, a session leaves it done, and a done or failed machine answers every further message with an error: a machine
  returns at most one session, and none after an error.\<close>

theorem handshake_typed:
  assumes "kdf_lens C"
  shows "(on_server_hello C K e s i st bs = Some (r, st') \<longrightarrow> initiator_ok st' \<and> (is_ok r \<or> st' = InitiatorFailed)) \<and>
    (on_client_hello C K xb rb eb n sb now i ep rst bs obs rc = Some (q, rst', rc') \<longrightarrow> responder_ok rst' \<and> (is_ok q \<or> rst' = ResponderFailed)) \<and>
    (on_server_finish C st bs = (u, st') \<longrightarrow> st' = (if is_ok u then InitiatorDone else InitiatorFailed)) \<and>
    (on_client_finish C K rst bs = Some (v, rst') \<longrightarrow> rst' = (if is_ok v then ResponderDone else ResponderFailed)) \<and>
    (initiator_ok st \<and> on_server_finish C st bs = (Inr ses, st') \<longrightarrow> session_ok ses) \<and>
    (responder_ok rst \<and> on_client_finish C K rst bs = Some (Inr (sf, ses'), rst') \<longrightarrow> session_ok ses') \<and>
    (st \<in> {InitiatorDone, InitiatorFailed} \<longrightarrow> on_server_hello C K e s i st bs = Some (Inl HState, InitiatorFailed) \<and>
      on_server_finish C st bs = (Inl HState, InitiatorFailed)) \<and>
    (rst \<in> {ResponderDone, ResponderFailed} \<longrightarrow> on_client_finish C K rst bs = Some (Inl HState, ResponderFailed) \<and>
      on_client_hello C K xb rb eb n sb now i ep rst bs obs rc = Some (Inl HState, ResponderFailed, rc))"
proof (intro conjI impI; (elim conjE)?)
  assume "on_server_hello C K e s i st bs = Some (r, st')"
  then show "initiator_ok st'" "is_ok r \<or> st' = InitiatorFailed"
    using on_server_hello_typed [OF assms, of K e s i st bs _ st'] on_server_hello_failed [of C K e s i st bs _ st'] by (cases r; auto)+
next
  assume "on_client_hello C K xb rb eb n sb now i ep rst bs obs rc = Some (q, rst', rc')"
  then show "responder_ok rst'" "is_ok q \<or> rst' = ResponderFailed"
    using on_client_hello_typed [of C K xb rb eb n sb now i ep rst bs obs rc _ rst' rc']
      on_client_hello_failed [of C K xb rb eb n sb now i ep rst bs obs rc _ rst' rc'] by (cases q; auto)+
next
  assume "on_server_finish C st bs = (u, st')"
  then show "st' = (if is_ok u then InitiatorDone else InitiatorFailed)"
    by (cases u) (auto simp: on_server_finish_iff dest: finish_failed(1))
next
  assume "on_client_finish C K rst bs = Some (v, rst')"
  then show "rst' = (if is_ok v then ResponderDone else ResponderFailed)"
    by (cases v) (auto simp: on_client_finish_iff Let_def dest: finish_failed(2))
next
  assume "initiator_ok st" "on_server_finish C st bs = (Inr ses, st')"
  then show "session_ok ses" unfolding on_server_finish_iff by (auto intro: session_of_ok)
next
  assume "responder_ok rst" "on_client_finish C K rst bs = Some (Inr (sf, ses'), rst')"
  then show "session_ok ses'"
    unfolding on_client_finish_iff Let_def by (auto intro!: session_of_ok derive_keys_ok [OF assms] simp: kdf_lensD [OF assms])
qed (auto simp: on_server_hello_def on_server_finish_def on_client_finish_def on_client_hello_def)

theorem handshake_typed_witness:
  "on_server_hello sample_prims sample_pk [] [] sample_initiator InitiatorDone [] = Some (Inl HState, InitiatorFailed)"
  using handshake_typed [OF sample_prims_ok(3), of sample_pk "[]" "[]" sample_initiator InitiatorDone "[]"] by simp

end
