(* ===== verification/Rtp_Session.thy ===== *)
theory Rtp_Session
  imports Rtp_Frame Rtp_Record Rtp_Offer Rtp_Handshake Rtp_Keys
begin

text \<open>
  The state a transfer threads through its steps once the handshake is done, and the steps both ends share
  (\<open>rtp2-core/src/transfer.rs\<close>): protected frames in and out, events, the watch over the route. A step gives an error or a value
  together with the new state, and \<^term>\<open>None\<close> where the source would panic or wait for ever. What the other end sends is one byte stream
  given in advance; the bytes written are collected. Waits without a time limit - for the connection, for the stream, for room to
  write - end well, end in an error, or do not end, as an argument says.
\<close>

section \<open>Steps\<close>

type_synonym ('s, 'a) act = "'s \<Rightarrow> ((transfer_error + 'a) \<times> 's) option"

definition ret :: "'a \<Rightarrow> ('s, 'a) act" where
  "ret x s = Some (Inr x, s)"

definition bd :: "('s, 'a) act \<Rightarrow> ('a \<Rightarrow> ('s, 'b) act) \<Rightarrow> ('s, 'b) act" where
  "bd m f s = (case m s of None \<Rightarrow> None | Some (Inl e, s) \<Rightarrow> Some (Inl e, s) | Some (Inr x, s) \<Rightarrow> f x s)"

definition lift_res :: "('e \<Rightarrow> transfer_error) \<Rightarrow> 'e + 'a \<Rightarrow> ('s, 'a) act" where
  "lift_res conv r s = Some (case r of Inl e \<Rightarrow> Inl (conv e) | Inr x \<Rightarrow> Inr x, s)"

definition lift_opt :: "'a option \<Rightarrow> ('s, 'a) act" where
  "lift_opt v s = map_option (\<lambda>x. (Inr x, s)) v"

definition lift_both :: "('e \<Rightarrow> transfer_error) \<Rightarrow> ('e + 'a) option \<Rightarrow> ('s, 'a) act" where
  "lift_both conv v = bd (lift_opt v) (lift_res conv)"

definition fail_if :: "bool \<Rightarrow> transfer_error \<Rightarrow> ('s, unit) act" where
  "fail_if b e s = Some (if b then Inl e else Inr (), s)"

definition get_st :: "('s, 's) act" where
  "get_st s = Some (Inr s, s)"

definition upd :: "('s \<Rightarrow> 's) \<Rightarrow> ('s, unit) act" where
  "upd f s = Some (Inr (), f s)"

text \<open>What \<open>?\<close> and \<open>unwrap\<close> do, seen from a successful run.\<close>

named_theorems act_iff

lemma ret_iff [act_iff]: "ret x s = Some (Inr y, s') \<longleftrightarrow> y = x \<and> s' = s"
  by (auto simp: ret_def)

lemma bd_iff [act_iff]: "bd m f s = Some (Inr y, s') \<longleftrightarrow> (\<exists>x s1. m s = Some (Inr x, s1) \<and> f x s1 = Some (Inr y, s'))"
  by (auto simp: bd_def split: option.splits sum.splits prod.splits)

lemma lift_res_iff [act_iff]: "lift_res conv r s = Some (Inr y, s') \<longleftrightarrow> r = Inr y \<and> s' = s"
  by (auto simp: lift_res_def split: sum.splits)

lemma lift_opt_iff [act_iff]: "lift_opt v s = Some (Inr y, s') \<longleftrightarrow> v = Some y \<and> s' = s"
  by (auto simp: lift_opt_def)

lemma lift_both_iff [act_iff]: "lift_both conv v s = Some (Inr y, s') \<longleftrightarrow> v = Some (Inr y) \<and> s' = s"
  by (auto simp: lift_both_def act_iff)

lemma fail_if_iff [act_iff]: "fail_if b e s = Some (Inr y, s') \<longleftrightarrow> \<not> b \<and> s' = s"
  by (auto simp: fail_if_def)

lemma get_st_iff [act_iff]: "get_st s = Some (Inr y, s') \<longleftrightarrow> y = s \<and> s' = s"
  by (auto simp: get_st_def)

lemma upd_iff [act_iff]: "upd f s = Some (Inr y, s') \<longleftrightarrow> s' = f s"
  by (auto simp: upd_def)

section \<open>The transport\<close>

text \<open>How waiting for the transport ends, and what becomes of a write, by its position in the stream.\<close>

datatype 'a waited = Ready 'a | Failed | Never

datatype write_io = Taken | Broken nat | Stalled

definition write_all :: "(nat \<Rightarrow> write_io) \<Rightarrow> bytes \<Rightarrow> bytes \<Rightarrow> ((transfer_error + unit) \<times> bytes) option" where
  "write_all tx out bs =
    (case tx (length out) of
       Taken \<Rightarrow> Some (Inr (), out @ bs)
     | Broken n \<Rightarrow> Some (Inl (Io ''write''), out @ take n bs)
     | Stalled \<Rightarrow> None)"

text \<open>\<open>send_plain_frame\<close> with its two writes.\<close>

definition write_plain_frame :: "(nat \<Rightarrow> write_io) \<Rightarrow> bytes \<Rightarrow> u8 \<Rightarrow> bytes \<Rightarrow> ((transfer_error + unit) \<times> bytes) option" where
  "write_plain_frame tx out frame_type payload =
    (case header_bytes frame_type 0 0 (length payload) 0 of
       Inl e \<Rightarrow> Some (Inl e, out)
     | Inr head \<Rightarrow> do {
         (r, out) \<leftarrow> write_all tx out head;
         (case r of Inl e \<Rightarrow> Some (Inl e, out) | Inr _ \<Rightarrow> write_all tx out payload) })"

lemma write_all_simps:
  "tx (length out) = Taken \<Longrightarrow> write_all tx out bs = Some (Inr (), out @ bs)"
  "write_all tx out bs = None \<longleftrightarrow> tx (length out) = Stalled"
  by (auto simp: write_all_def split: write_io.splits)

lemma write_plain_taken:
  "(\<And>n. tx n = Taken) \<Longrightarrow> send_plain_frame t m = Inr bs \<Longrightarrow> write_plain_frame tx out t m = Some (Inr (), out @ bs)"
  by (auto simp: write_plain_frame_def send_plain_frame_def write_all_simps res_iff)

lemma write_plain_returns: "(\<And>n. tx n \<noteq> Stalled) \<Longrightarrow> write_plain_frame tx out t m \<noteq> None"
  by (auto simp: write_plain_frame_def write_all_simps simp del: not_None_eq split: sum.splits bind_splits)

section \<open>The session\<close>

definition DEFAULT_CHUNK_SIZE :: u32 where "DEFAULT_CHUNK_SIZE = 256 * 1024"
definition ENVELOPE_TTL_SECS :: u64 where "ENVELOPE_TTL_SECS = 3600"

record transfer_report =
  tr_transfer_id :: bytes
  tr_object_id :: bytes
  tr_manifest_commitment :: bytes
  tr_ciphertext_root :: bytes
  tr_plaintext_digest :: bytes
  tr_bytes :: u64
  tr_chunks :: u64
  tr_chunks_transferred :: u64
  tr_peer_device_id :: bytes
  tr_peer_endpoint_id :: bytes
  tr_route :: route

record sess =
  s_in :: bytes
  s_out :: bytes
  s_reads :: nat
  s_control :: control_channel
  s_watch :: route_watch
  s_events :: "event_queue option"

definition a_send :: "prims \<Rightarrow> (nat \<Rightarrow> write_io) \<Rightarrow> u8 \<Rightarrow> bytes \<Rightarrow> ('s sess_scheme, unit) act" where
  "a_send C tx frame_type payload s =
    (case send_frame C (s_control s) frame_type payload of
       (Inl e, ch) \<Rightarrow> Some (Inl e, s\<lparr>s_control := ch\<rparr>)
     | (Inr frame, ch) \<Rightarrow> do {
         (r, out) \<leftarrow> write_all tx (s_out s) frame;
         Some (r, s\<lparr>s_control := ch, s_out := out\<rparr>) })"

definition a_recv :: "prims \<Rightarrow> (nat \<Rightarrow> bool) \<Rightarrow> ('s sess_scheme, u8 \<times> bytes) act" where
  "a_recv C in_time s =
    (case recv_frame C (s_control s) (in_time (s_reads s)) (s_in s) of
       (Inl e, ch) \<Rightarrow> Some (Inl e, s\<lparr>s_control := ch, s_reads := Suc (s_reads s)\<rparr>)
     | (Inr (m, rest), ch) \<Rightarrow> Some (Inr m, s\<lparr>s_control := ch, s_reads := Suc (s_reads s), s_in := rest\<rparr>))"

definition a_expect :: "prims \<Rightarrow> (nat \<Rightarrow> bool) \<Rightarrow> u8 \<Rightarrow> ('s sess_scheme, bytes) act" where
  "a_expect C in_time expected s =
    (case expect_frame C (s_control s) (in_time (s_reads s)) expected (s_in s) of
       (Inl e, ch) \<Rightarrow> Some (Inl e, s\<lparr>s_control := ch, s_reads := Suc (s_reads s)\<rparr>)
     | (Inr (payload, rest), ch) \<Rightarrow> Some (Inr payload, s\<lparr>s_control := ch, s_reads := Suc (s_reads s), s_in := rest\<rparr>))"

definition a_event :: "event \<Rightarrow> ('s sess_scheme, unit) act" where
  "a_event e = upd (\<lambda>s. s\<lparr>s_events := push_opt e (s_events s)\<rparr>)"

definition a_poll :: "bytes \<Rightarrow> nat \<times> route \<Rightarrow> ('s sess_scheme, unit) act" where
  "a_poll transfer_id seen s =
    (case poll_with (s_watch s) transfer_id (s_events s) (fst seen) (snd seen) of
       (r, w, q) \<Rightarrow> Some (r, s\<lparr>s_watch := w, s_events := q\<rparr>))"

section \<open>Invariants of steps\<close>

text \<open>A step ends with one property of the state when it succeeds and with another when it fails.\<close>

definition ends :: "('s \<Rightarrow> bool) \<Rightarrow> ('s, 'a) act \<Rightarrow> ('a \<Rightarrow> 's \<Rightarrow> bool) \<Rightarrow> (transfer_error \<Rightarrow> 's \<Rightarrow> bool) \<Rightarrow> bool" where
  "ends P m Q E \<longleftrightarrow> (\<forall>s r s'. P s \<longrightarrow> m s = Some (r, s') \<longrightarrow> (case r of Inl e \<Rightarrow> E e s' | Inr x \<Rightarrow> Q x s'))"

abbreviation keeps :: "('s \<Rightarrow> bool) \<Rightarrow> ('s, 'a) act \<Rightarrow> bool" where
  "keeps P m \<equiv> ends P m (\<lambda>_. P) (\<lambda>_. P)"

lemma endsI: "(\<And>s e s'. P s \<Longrightarrow> m s = Some (Inl e, s') \<Longrightarrow> E e s') \<Longrightarrow> (\<And>s x s'. P s \<Longrightarrow> m s = Some (Inr x, s') \<Longrightarrow> Q x s') \<Longrightarrow> ends P m Q E"
  by (auto simp: ends_def split: sum.splits)

lemma endsD: "ends P m Q E \<Longrightarrow> P s \<Longrightarrow> m s = Some (r, s') \<Longrightarrow> (case r of Inl e \<Rightarrow> E e s' | Inr x \<Rightarrow> Q x s')"
  by (auto simp: ends_def)

lemma ends_bd: "ends P m Q E \<Longrightarrow> (\<And>x. ends (Q x) (f x) R E) \<Longrightarrow> ends P (bd m f) R E"
  unfolding ends_def bd_def by (fastforce split: option.splits sum.splits)

lemma ends_mono:
  "ends P m Q E \<Longrightarrow> (\<And>s. P' s \<Longrightarrow> P s) \<Longrightarrow> (\<And>x s. Q x s \<Longrightarrow> Q' x s) \<Longrightarrow> (\<And>e s. E e s \<Longrightarrow> E' e s) \<Longrightarrow> ends P' m Q' E'"
  unfolding ends_def by (fastforce split: sum.splits)

lemma ends_pure:
  assumes "\<And>e s. P s \<Longrightarrow> E e s"
  shows "ends P (ret x) (\<lambda>_. P) E" "ends P (lift_res conv r) (\<lambda>_. P) E" "ends P (lift_opt v) (\<lambda>_. P) E" "ends P (lift_both conv w) (\<lambda>_. P) E"
    "ends P (fail_if b e) (\<lambda>_. P) E" "ends P get_st (\<lambda>_. P) E"
  using assms by (auto simp: ends_def ret_def lift_res_def lift_opt_def lift_both_def bd_def fail_if_def get_st_def split: option.splits sum.splits)

lemma ends_upd: "(\<And>s. P s \<Longrightarrow> Q () (f s)) \<Longrightarrow> ends P (upd f) Q E"
  by (auto simp: ends_def upd_def)

lemma ends_keeps: "keeps P m \<Longrightarrow> (\<And>e s. P s \<Longrightarrow> E e s) \<Longrightarrow> ends P m (\<lambda>_. P) E"
  by (erule ends_mono) simp_all

text \<open>The steps on the session.\<close>

lemma ends_send:
  assumes "\<And>s ch out. P s \<Longrightarrow> P (s\<lparr>s_control := ch, s_out := out\<rparr>) \<and> (\<forall>e. E e (s\<lparr>s_control := ch\<rparr>) \<and> E e (s\<lparr>s_control := ch, s_out := out\<rparr>))"
  shows "ends P (a_send C tx t m) (\<lambda>_. P) E"
  using assms by (auto simp: ends_def a_send_def split: sum.splits prod.splits bind_splits)

lemma ends_poll: "(\<And>s w q. P s \<Longrightarrow> P (s\<lparr>s_watch := w, s_events := q\<rparr>) \<and> (\<forall>e. E e (s\<lparr>s_watch := w, s_events := q\<rparr>))) \<Longrightarrow> ends P (a_poll t seen) (\<lambda>_. P) E"
  by (auto simp: ends_def a_poll_def split: sum.splits prod.splits)

lemma ends_event: "(\<And>s q. P s \<Longrightarrow> P (s\<lparr>s_events := q\<rparr>)) \<Longrightarrow> ends P (a_event e) (\<lambda>_. P) E"
  unfolding a_event_def by (rule ends_upd) simp

section \<open>Steps that return\<close>

text \<open>A step reaches no panic and no endless wait, from any state.\<close>

definition returns :: "('s, 'a) act \<Rightarrow> bool" where
  "returns m \<longleftrightarrow> (\<forall>s. m s \<noteq> None)"

lemma bd_returns: "m s \<noteq> None \<Longrightarrow> (\<And>x s'. m s = Some (Inr x, s') \<Longrightarrow> f x s' \<noteq> None) \<Longrightarrow> bd m f s \<noteq> None"
  by (auto simp: bd_def split: option.splits sum.splits)

lemma returnsD: "returns m \<Longrightarrow> m s \<noteq> None"
  by (simp add: returns_def)

lemma returns_bd: "returns m \<Longrightarrow> (\<And>x. returns (f x)) \<Longrightarrow> returns (bd m f)"
  unfolding returns_def bd_def by (auto split: option.splits sum.splits)

lemma returns_simps [simp]:
  "returns (ret x)" "returns (lift_res conv r)" "returns (lift_opt v) \<longleftrightarrow> v \<noteq> None" "returns (lift_both conv w) \<longleftrightarrow> w \<noteq> None"
  "returns (fail_if b e)" "returns get_st" "returns (upd f)" "returns (a_recv C it)" "returns (a_expect C it t)" "returns (a_event ev)"
  "returns (a_poll tid seen)"
  by (auto simp: returns_def ret_def lift_res_def lift_opt_def lift_both_def bd_def fail_if_def get_st_def upd_def a_recv_def a_expect_def a_event_def
      a_poll_def split: sum.splits option.splits prod.splits)

lemma returns_send: "(\<And>n. tx n \<noteq> Stalled) \<Longrightarrow> returns (a_send C tx t pl)"
  by (auto simp: returns_def a_send_def write_all_simps simp del: not_None_eq split: sum.splits prod.splits bind_splits)

section \<open>The pieces of a file\<close>

definition slice :: "object_context \<Rightarrow> bytes \<Rightarrow> nat \<Rightarrow> bytes" where
  "slice c file i = take (clen c i) (drop (i * unat (chunk_plaintext_size c)) file)"

definition upto_chunk :: "object_context \<Rightarrow> nat \<Rightarrow> nat" where
  "upto_chunk c i = min (unat (encoded_plaintext_size c)) (i * unat (chunk_plaintext_size c))"

lemma chunk_pos:
  assumes "oc_ok c" and "i < oc_chunk_count c"
  shows "unat (i * ucast (chunk_plaintext_size c)) = unat i * unat (chunk_plaintext_size c)"
    and "unat i * unat (chunk_plaintext_size c) = upto_chunk c (unat i)"
    and "upto_chunk c (unat i) + clen c (unat i) = upto_chunk c (Suc (unat i))"
proof -
  have lt: "unat i * unat (chunk_plaintext_size c) < unat (encoded_plaintext_size c)"
    using oc_count_bounds assms by (simp add: word_less_nat_alt)
  then have "unat i * unat (ucast (chunk_plaintext_size c) :: u64) < 2 ^ 64"
    using unat_u64_less [of "encoded_plaintext_size c"] by (simp add: unat_ucast_u32)
  then show "unat (i * ucast (chunk_plaintext_size c)) = unat i * unat (chunk_plaintext_size c)"
    by (simp add: unat_mult unat_ucast_u32)
  show "unat i * unat (chunk_plaintext_size c) = upto_chunk c (unat i)" using lt by (simp add: upto_chunk_def)
  show "upto_chunk c (unat i) + clen c (unat i) = upto_chunk c (Suc (unat i))"
    using lt clen_eq [OF assms(1), of "unat i"] assms(2) by (simp add: upto_chunk_def word_less_nat_alt)
qed

lemma chunk_posn:
  assumes "oc_ok c" and "i < unat (oc_chunk_count c)"
  shows "i * unat (chunk_plaintext_size c) = upto_chunk c i" and "upto_chunk c i + clen c i = upto_chunk c (Suc i)"
proof -
  have "i < 2 ^ 64" using assms(2) unat_u64_less [of "oc_chunk_count c"] by simp
  then have u: "unat (of_nat i :: u64) = i" by simp
  then have "of_nat i < oc_chunk_count c" using assms(2) by (simp add: word_less_nat_alt)
  from chunk_pos [OF assms(1) this] u
  show "i * unat (chunk_plaintext_size c) = upto_chunk c i" "upto_chunk c i + clen c i = upto_chunk c (Suc i)" by simp_all
qed

lemma upto_chunk_0 [simp]: "upto_chunk c 0 = 0"
  by (simp add: upto_chunk_def)

lemma upto_chunk_all: "oc_ok c \<Longrightarrow> upto_chunk c (unat (oc_chunk_count c)) = unat (encoded_plaintext_size c)"
  using oc_total by (simp add: upto_chunk_def)

lemma upto_chunk_mono: "i \<le> j \<Longrightarrow> upto_chunk c i \<le> upto_chunk c j"
  unfolding upto_chunk_def by (simp add: min.coboundedI2 min_le_iff_disj)

lemma take_upto_Suc:
  assumes "oc_ok c" and "i < unat (oc_chunk_count c)"
  shows "take (upto_chunk c (Suc i)) file = take (upto_chunk c i) file @ slice c file i"
  using chunk_posn [OF assms] by (simp add: slice_def take_add [symmetric])

lemma concat_slices:
  assumes "oc_ok c" and "k \<le> unat (oc_chunk_count c)"
  shows "concat (map (slice c file) [0..<k]) = take (upto_chunk c k) file"
  using assms(2) by (induction k) (simp_all add: take_upto_Suc [OF assms(1)])

lemma length_slice:
  assumes "oc_ok c" and "i < unat (oc_chunk_count c)" and "length file = unat (encoded_plaintext_size c)"
  shows "length (slice c file i) = clen c i"
proof -
  have "upto_chunk c (Suc i) \<le> unat (encoded_plaintext_size c)" by (simp add: upto_chunk_def)
  with chunk_posn [OF assms(1,2)] assms(3) show ?thesis by (simp add: slice_def)
qed

section \<open>Frames between two ends\<close>

lemma a_poll_ok:
  assumes "admits (ra_policy (rw_admission (s_watch s))) (snd seen)"
  shows "\<exists>w q. a_poll tid seen s = Some (Inr (), s\<lparr>s_watch := w, s_events := q\<rparr>) \<and> rw_admission w = rw_admission (s_watch s)"
proof -
  obtain r w q where p: "poll_with (s_watch s) tid (s_events s) (fst seen) (snd seen) = (r, w, q)" by (metis prod_cases3)
  then have "r = Inr () \<and> rw_admission w = rw_admission (s_watch s)"
    using assms by (auto simp: poll_with_def Let_def split: if_splits)
  with p show ?thesis by (auto simp: a_poll_def)
qed

lemma a_event_eq: "a_event e s = Some (Inr (), s\<lparr>s_events := push_opt e (s_events s)\<rparr>)"
  by (simp add: a_event_def upd_def)

lemma a_send_eq:
  "send_frame C (s_control s) t m = (Inr bs, ch) \<Longrightarrow> (\<And>n. tx n = Taken) \<Longrightarrow>
    a_send C tx t m s = Some (Inr (), s\<lparr>s_control := ch, s_out := s_out s @ bs\<rparr>)"
  by (simp add: a_send_def write_all_simps)

lemma a_recv_eq:
  "recv_frame C (s_control s) True (s_in s) = (Inr (m, rest), ch) \<Longrightarrow> in_time (s_reads s) \<Longrightarrow>
    a_recv C in_time s = Some (Inr m, s\<lparr>s_control := ch, s_reads := Suc (s_reads s), s_in := rest\<rparr>)"
  by (simp add: a_recv_def)

lemma a_expect_eq:
  "recv_frame C (s_control s) True (s_in s) = (Inr ((t, m), rest), ch) \<Longrightarrow> in_time (s_reads s) \<Longrightarrow>
    a_expect C in_time t s = Some (Inr m, s\<lparr>s_control := ch, s_reads := Suc (s_reads s), s_in := rest\<rparr>)"
  by (simp add: a_expect_def expect_frame_def)

text \<open>One frame from one end of a linked pair to the other.\<close>

lemma frame_delivered:
  assumes C: "aead_ok C" "kdf_lens C" and lk: "linked a b" and room: "unat (cc_send_counter a) < 2 ^ 32" and ep: "unat (cc_epoch a) < 2 ^ 64 - 1"
    and fit: "fits (t, m)"
  obtains bs a' b' where "send_frame C a t m = (Inr bs, a')" "\<forall>rest. recv_frame C b True (bs @ rest) = (Inr ((t, m), rest), b')"
    "linked a' b'" "cc_epoch a' = cc_epoch a" "unat (cc_send_counter a') = unat (cc_send_counter a) + 1" "cc_send_counter b' = cc_send_counter b"
proof -
  obtain bs a' b' where s: "send_frames C a [(t, m)] = Some (bs, a')" and l: "linked a' b'" "cc_epoch a' = cc_epoch a"
    "unat (cc_send_counter a') = unat (cc_send_counter a) + 1" "cc_send_counter b' = cc_send_counter b"
    and r: "\<And>rest. recv_frames C b 1 (bs @ rest) = Some ([(t, m)], rest, b')"
    using frames_delivered [OF C lk, of "[(t, m)]"] room ep fit by auto
  have "send_frame C a t m = (Inr bs, a')" using s by (auto split: prod.splits sum.splits)
  moreover have "recv_frame C b True (bs @ rest) = (Inr ((t, m), rest), b')" for rest
    using r [of rest] by (auto split: prod.splits sum.splits)
  ultimately show thesis using l that by blast
qed

end
