(* ===== verification/Rtp_Sender.thy ===== *)
theory Rtp_Sender
  imports Rtp_Session Rtp_Scheduler
begin

text \<open>
  The sending side, \<open>rtp2-core/src/transfer.rs\<close>: preparing a file (its secrets, leaves, root and digest), the handshake, the
  offer, and the loop that serves a range request one record ahead of the wire. What the system answers - random values, clocks,
  the file, the paths of the connection - is a record of arguments.
\<close>

section \<open>Preparing a file\<close>

record pending_transfer =
  pt_path :: bytes
  pt_secrets :: file_secrets
  pt_ctx :: object_context
  pt_ctx_hash :: bytes
  pt_schedule :: file_key_schedule
  pt_leaves :: "bytes list"
  pt_ciphertext_root :: bytes
  pt_plaintext_digest :: bytes
  pt_cache :: ciphertext_cache

definition unwrap :: "'e + 'a \<Rightarrow> 'a option" where
  "unwrap r = (case r of Inl _ \<Rightarrow> None | Inr x \<Rightarrow> Some x)"

fun prepare_loop ::
  "prims \<Rightarrow> file_key_schedule \<Rightarrow> object_context \<Rightarrow> bytes \<Rightarrow> u64 list \<Rightarrow> bytes \<Rightarrow> bytes list \<Rightarrow> bytes \<Rightarrow> ciphertext_cache \<Rightarrow>
    (transfer_error + bytes list \<times> bytes \<times> ciphertext_cache) option" where
  "prepare_loop C schedule ctx ctx_hash [] file leaves hashed cache = Some (Inr (leaves, hashed, cache))"
| "prepare_loop C schedule ctx ctx_hash (index # indices) file leaves hashed cache = do {
     len \<leftarrow> unwrap (chunk_len ctx index);
     (case read_exact (unat len) file of
        Inl e \<Rightarrow> Some (Inl e)
      | Inr (buf, file) \<Rightarrow>
          (case encrypt_chunk C schedule ctx ctx_hash index buf of
             Inl _ \<Rightarrow> Some (Inl (Crypto ''chunk encryption''))
           | Inr ciphertext \<Rightarrow>
               prepare_loop C schedule ctx ctx_hash indices file (leaves @ [leaf_hash (blake3 C) index ciphertext]) (hashed @ buf)
                 (cache_insert cache index ciphertext))) }"

definition range_list :: "u64 \<Rightarrow> u64 \<Rightarrow> u64 list" where
  "range_list a b = map of_nat [unat a..<unat b]"

definition prepare ::
  "prims \<Rightarrow> file_secrets \<Rightarrow> bytes \<Rightarrow> u32 \<Rightarrow> u64 option \<Rightarrow> bytes option \<Rightarrow> (transfer_error + pending_transfer) option" where
  "prepare C secrets path chunk_size file_len file =
    (case file_len of
       None \<Rightarrow> Some (Inl (Io ''metadata''))
     | Some file_len \<Rightarrow>
         (case for_file (fs_transfer_id secrets) (fs_object_id secrets) file_len chunk_size of
            Inl _ \<Rightarrow> Some (Inl (Crypto ''object context''))
          | Inr ctx \<Rightarrow> do {
              ctx_hash \<leftarrow> context_hash C ctx;
              let schedule = key_schedule C secrets;
              (case file of
                 None \<Rightarrow> Some (Inl (Io ''open''))
               | Some file \<Rightarrow> do {
                   r \<leftarrow> prepare_loop C schedule ctx ctx_hash (range_list 0 (oc_chunk_count ctx)) file [] []
                     (cache_new (oc_chunk_count ctx) DEFAULT_BUDGET);
                   (case r of
                      Inl e \<Rightarrow> Some (Inl e)
                    | Inr (leaves, hashed, cache) \<Rightarrow> do {
                        root \<leftarrow> merkle_root (blake3 C) leaves;
                        Some (Inr \<lparr>pt_path = path, pt_secrets = secrets, pt_ctx = ctx, pt_ctx_hash = ctx_hash, pt_schedule = schedule,
                          pt_leaves = leaves, pt_ciphertext_root = root, pt_plaintext_digest = blake3 C hashed, pt_cache = cache\<rparr>) }) }) }))"

section \<open>What the system answers\<close>

record send_env =
  sv_ex_secret :: bytes
  sv_kem_randomness :: bytes
  sv_nonce :: bytes
  sv_enc_randomness :: bytes
  sv_sig_randomness :: bytes
  sv_envelope_nonce :: bytes
  sv_manifest_nonce :: bytes
  sv_offer_randomness :: bytes
  sv_hello_time :: u64
  sv_now :: u64
  sv_remote :: "bytes waited"
  sv_route :: route
  sv_clock :: "nat \<Rightarrow> nat"
  sv_observe :: "nat \<Rightarrow> route"
  sv_stream :: "unit waited"
  sv_wire :: "nat \<Rightarrow> write_io"
  sv_watch_start :: nat
  sv_poll :: "nat \<Rightarrow> nat \<times> route"
  sv_in_time :: "nat \<Rightarrow> bool"
  sv_open :: bool
  sv_read :: "u64 \<Rightarrow> nat \<Rightarrow> transfer_error + bytes"

section \<open>Handshake\<close>

text \<open>The session with what was written and what is left to read, or the error with what was written before it.\<close>

definition send_handshake ::
  "prims \<Rightarrow> pk_prims \<Rightarrow> send_env \<Rightarrow> device_identity \<Rightarrow> bytes \<Rightarrow> bytes \<Rightarrow> bytes \<Rightarrow>
    ((transfer_error + session_keys \<times> bytes) \<times> bytes) option" where
  "send_handshake C K env identity local_endpoint_id expected_peer_endpoint stream = do {
     (initiator, ch) \<leftarrow> initiator_start K (sv_ex_secret env) (sv_kem_randomness env) (sv_nonce env) (sv_hello_time env) identity
       local_endpoint_id expected_peer_endpoint;
     (sent, out) \<leftarrow> write_plain_frame (sv_wire env) [] FRAME_CLIENT_HELLO ch;
     (case sent of
        Inl e \<Rightarrow> Some (Inl e, out)
      | Inr _ \<Rightarrow>
          (case expect_plain_frame (sv_in_time env 0) FRAME_SERVER_HELLO stream of
             Inl e \<Rightarrow> Some (Inl e, out)
           | Inr (sh, stream) \<Rightarrow> do {
               (r, initiator) \<leftarrow> on_server_hello C K (sv_enc_randomness env) (sv_sig_randomness env) identity initiator sh;
               (case r of
                  Inl _ \<Rightarrow> Some (Inl Handshake, out)
                | Inr cf \<Rightarrow> do {
                    (sent, out) \<leftarrow> write_plain_frame (sv_wire env) out FRAME_CLIENT_FINISH cf;
                    (case sent of
                       Inl e \<Rightarrow> Some (Inl e, out)
                     | Inr _ \<Rightarrow>
                         (case expect_plain_frame (sv_in_time env 1) FRAME_SERVER_FINISH stream of
                            Inl e \<Rightarrow> Some (Inl e, out)
                          | Inr (sf, stream) \<Rightarrow>
                              (case on_server_finish C initiator sf of
                                 (Inl _, _) \<Rightarrow> Some (Inl Handshake, out)
                               | (Inr session, _) \<Rightarrow> Some (Inr (session, stream), out)))) }) })) }"

section \<open>The offer\<close>

definition private_of :: "pending_transfer \<Rightarrow> device_identity \<Rightarrow> bytes \<Rightarrow> bytes \<Rightarrow> u64 \<Rightarrow> private_manifest" where
  "private_of pt identity peer_device_id file_name now =
    \<lparr>pv_sender_account_id = id_device_id identity, pv_sender_device_id = id_device_id identity,
     pv_recipient_scope = rs_device peer_device_id, pv_display_name = file_name, pv_original_filename = file_name,
     pv_mime_type = ascii ''application/octet-stream'', pv_logical_plaintext_size = logical_plaintext_size (pt_ctx pt),
     pv_plaintext_digest = pt_plaintext_digest pt, pv_created_at = now, pv_user_caption = None,
     pv_objects = [\<lparr>ov_object_id = fs_object_id (pt_secrets pt), ov_object_role = ROLE_PRIMARY, ov_relationship_to_primary = 0\<rparr>],
     pv_key_policy = \<lparr>kp_mode = 0, kp_minimum_security_level = 1, kp_pqc_required = True\<rparr>,
     pv_retention_policy = \<lparr>rp_expires_at = now + ENVELOPE_TTL_SECS, rp_view_once = False, rp_allow_local_save = True\<rparr>\<rparr>"

definition public_of :: "prims \<Rightarrow> pending_transfer \<Rightarrow> sealed_manifest \<Rightarrow> u64 \<Rightarrow> public_manifest" where
  "public_of C pt sealed now =
    \<lparr>pm_protocol_minor = 0, pm_suite_id = SUITE_ID, pm_transfer_id = fs_transfer_id (pt_secrets pt), pm_created_at = now,
     pm_expires_at = now + ENVELOPE_TTL_SECS, pm_route_profile = ROUTE_BALANCED,
     pm_objects = [\<lparr>op_object_id = fs_object_id (pt_secrets pt), op_object_role = ROLE_PRIMARY,
       op_ciphertext_root = pt_ciphertext_root pt, op_ciphertext_size = ciphertext_size (pt_ctx pt),
       op_chunk_ciphertext_size = chunk_ciphertext_size (pt_ctx pt), op_chunk_count = oc_chunk_count (pt_ctx pt),
       op_padding_policy = padding_policy (pt_ctx pt)\<rparr>],
     pm_private_hash = sm_ciphertext_hash C sealed, pm_capability_scheme = CAPABILITY_SCHEME\<rparr>"

definition build_offer ::
  "prims \<Rightarrow> pk_prims \<Rightarrow> send_env \<Rightarrow> pending_transfer \<Rightarrow> device_identity \<Rightarrow> session_keys \<Rightarrow> bytes \<Rightarrow> bytes \<Rightarrow>
    ('s, transfer_offer \<times> public_manifest) act" where
  "build_offer C K env pt identity session local_endpoint_id file_name =
    (let now = sv_now env; peer = dp_device_id (sk_peer session); secrets = pt_secrets pt in
     bd (lift_both (\<lambda>_. Crypto ''envelope'') (seal_envelope C (sv_envelope_nonce env) secrets (sk_transfer_wrap_key session) now
         (now + ENVELOPE_TTL_SECS) (id_device_id identity) peer)) (\<lambda>envelope.
     bd (lift_both (\<lambda>_. Crypto ''private manifest'') (seal_private_manifest C (sv_manifest_nonce env)
         (private_of pt identity peer file_name now) (ks_manifest_key (pt_schedule pt)) (fs_transfer_id secrets) (fs_object_id secrets))) (\<lambda>sealed.
     let public = public_of C pt sealed now in
     bd (lift_res (\<lambda>_. Crypto ''public manifest'') (pm_validate public)) (\<lambda>_.
     bd (lift_both (\<lambda>_. Crypto ''transfer offer'') (offer_create C K (sv_offer_randomness env) identity public sealed
         [\<lparr>ke_recipient_device_id = peer, ke_nonce = se_nonce envelope, ke_ciphertext = se_ciphertext envelope\<rparr>]
         [\<lparr>pa_kind = KIND_SENDER_DEVICE, pa_address = local_endpoint_id\<rparr>] (rs_device peer))) (\<lambda>offer.
     ret (offer, public))))))"

section \<open>Serving the request\<close>

definition produce_chunk_record :: "prims \<Rightarrow> send_env \<Rightarrow> pending_transfer \<Rightarrow> u64 \<Rightarrow> ('s, bytes) act" where
  "produce_chunk_record C env pt index =
    bd (lift_opt (unwrap (chunk_len (pt_ctx pt) index))) (\<lambda>len.
    bd (case cache_get (pt_cache pt) index of
          Some bs \<Rightarrow> ret bs
        | None \<Rightarrow>
            bd (lift_res id (sv_read env (index * ucast (chunk_plaintext_size (pt_ctx pt))) (unat len))) (\<lambda>buf.
            lift_res (\<lambda>_. Crypto ''chunk encryption'') (encrypt_chunk C (pt_schedule pt) (pt_ctx pt) (pt_ctx_hash pt) index buf))) (\<lambda>ciphertext.
    bd (lift_both (\<lambda>_. Crypto ''proof'') (build_proof (blake3 C) (pt_leaves pt) (unat index))) (\<lambda>siblings.
    lift_opt (encode_chunk_record index siblings ciphertext))))"

fun send_loop ::
  "prims \<Rightarrow> send_env \<Rightarrow> pending_transfer \<Rightarrow> u64 \<Rightarrow> nat \<Rightarrow> u64 list \<Rightarrow> bytes option \<Rightarrow> u64 \<Rightarrow> u64 \<Rightarrow> ('s sess_scheme, unit) act" where
  "send_loop C env pt requested position [] ahead sent_bytes sent_chunks = ret ()"
| "send_loop C env pt requested position (index # indices) ahead sent_bytes sent_chunks =
    bd (lift_opt ahead) (\<lambda>rec.
    bd (lift_opt (unwrap (chunk_len (pt_ctx pt) index))) (\<lambda>len.
    bd (a_send C (sv_wire env) FRAME_CHUNK rec) (\<lambda>_.
    bd (case indices of
          [] \<Rightarrow> ret None
        | next_index # _ \<Rightarrow> bd (produce_chunk_record C env pt next_index) (\<lambda>r. ret (Some r))) (\<lambda>ahead.
    bd (a_poll (fs_transfer_id (pt_secrets pt)) (sv_poll env position)) (\<lambda>_.
    bd (a_event (TransferProgress (fs_transfer_id (pt_secrets pt)) Sending (sent_bytes + ucast len)
         (encoded_plaintext_size (pt_ctx pt)) (sent_chunks + 1) requested)) (\<lambda>_.
    send_loop C env pt requested (Suc position) indices ahead (sent_bytes + ucast len) (sent_chunks + 1)))))))"

definition requested_indices :: "range_request \<Rightarrow> u64 list" where
  "requested_indices request = concat (map (\<lambda>(a, b). range_list a b) (rr_ranges request))"

definition serve_request :: "prims \<Rightarrow> send_env \<Rightarrow> pending_transfer \<Rightarrow> bytes \<Rightarrow> ('s sess_scheme, u64) act" where
  "serve_request C env pt request_bytes =
    bd (lift_res (\<lambda>_. Protocol ''bad range request'') (rr_decode request_bytes (oc_chunk_count (pt_ctx pt)))) (\<lambda>request.
    bd (fail_if (rr_transfer_id request \<noteq> fs_transfer_id (pt_secrets pt) \<or> rr_object_id request \<noteq> fs_object_id (pt_secrets pt))
         (Protocol ''range request names another object'')) (\<lambda>_.
    bd (a_event (TransferStarted (fs_transfer_id (pt_secrets pt)) 1 (encoded_plaintext_size (pt_ctx pt)))) (\<lambda>_.
    bd (case requested_indices request of
          [] \<Rightarrow> ret None
        | first # _ \<Rightarrow> bd (produce_chunk_record C env pt first) (\<lambda>r. ret (Some r))) (\<lambda>ahead.
    bd (send_loop C env pt (chunk_total request) 0 (requested_indices request) ahead 0 0) (\<lambda>_.
    bd (a_send C (sv_wire env) FRAME_STREAM_END []) (\<lambda>_.
    ret (chunk_total request)))))))"

definition check_ack :: "pending_transfer \<Rightarrow> bytes \<Rightarrow> ('s sess_scheme, unit) act" where
  "check_ack pt ack =
    bd (lift_res id (decode_ack ack)) (\<lambda>(status, remote_digest).
    bd (fail_if (status \<noteq> 0) (Protocol ''receiver reported failure'')) (\<lambda>_.
    bd (fail_if (\<not> ct_eq remote_digest (pt_plaintext_digest pt)) (Crypto ''plaintext digest mismatch'')) (\<lambda>_.
    bd (a_event (ObjectCompleted (fs_transfer_id (pt_secrets pt)) (fs_object_id (pt_secrets pt)) (pt_plaintext_digest pt))) (\<lambda>_.
    a_event (TransferCompleted (fs_transfer_id (pt_secrets pt)) 1)))))"

definition send_object ::
  "prims \<Rightarrow> pk_prims \<Rightarrow> send_env \<Rightarrow> pending_transfer \<Rightarrow> device_identity \<Rightarrow> session_keys \<Rightarrow> bytes \<Rightarrow> bytes \<Rightarrow> (sess, transfer_report) act" where
  "send_object C K env pt identity session local_endpoint_id file_name =
    bd (fail_if (\<not> sv_open env) (Io ''open'')) (\<lambda>_.
    bd (build_offer C K env pt identity session local_endpoint_id file_name) (\<lambda>(offer, public).
    bd (lift_opt (offer_encode offer)) (\<lambda>offer_frame.
    bd (a_send C (sv_wire env) FRAME_OFFER offer_frame) (\<lambda>_.
    bd (a_expect C (sv_in_time env) FRAME_RANGE_REQUEST) (\<lambda>request_bytes.
    bd (serve_request C env pt request_bytes) (\<lambda>requested_chunks.
    bd (a_expect C (sv_in_time env) FRAME_COMPLETE) (\<lambda>ack.
    bd (check_ack pt ack) (\<lambda>_.
    bd (lift_opt (pm_commitment C public)) (\<lambda>commitment.
    bd get_st (\<lambda>s.
    ret \<lparr>tr_transfer_id = fs_transfer_id (pt_secrets pt), tr_object_id = fs_object_id (pt_secrets pt),
         tr_manifest_commitment = commitment, tr_ciphertext_root = pt_ciphertext_root pt, tr_plaintext_digest = pt_plaintext_digest pt,
         tr_bytes = logical_plaintext_size (pt_ctx pt), tr_chunks = oc_chunk_count (pt_ctx pt), tr_chunks_transferred = requested_chunks,
         tr_peer_device_id = dp_device_id (sk_peer session), tr_peer_endpoint_id = sk_peer_endpoint_id session,
         tr_route = rw_last (s_watch s)\<rparr>))))))))))"

definition send_pending ::
  "prims \<Rightarrow> pk_prims \<Rightarrow> send_env \<Rightarrow> device_identity \<Rightarrow> bytes \<Rightarrow> bytes \<Rightarrow> pending_transfer \<Rightarrow> bytes \<Rightarrow> event_queue option \<Rightarrow>
    route_admission \<Rightarrow> bytes \<Rightarrow> ((transfer_error + transfer_report) \<times> bytes \<times> event_queue option) option" where
  "send_pending C K env identity local_endpoint_id peer pt file_name events admission stream =
    (case sv_remote env of
       Never \<Rightarrow> None
     | Failed \<Rightarrow> Some (Inl (Io ''connect''), [], events)
     | Ready remote \<Rightarrow>
         if remote \<noteq> peer then Some (Inl Handshake, [], events)
         else do {
           (admitted, events) \<leftarrow> admit_route (sv_route env) (fs_transfer_id (pt_secrets pt)) admission events (sv_clock env) (sv_observe env);
           (case admitted of
              Inl e \<Rightarrow> Some (Inl e, [], events)
            | Inr r \<Rightarrow> (case sv_stream env of
                Never \<Rightarrow> None
              | Failed \<Rightarrow> Some (Inl (Io ''open_bi''), [], events)
              | Ready _ \<Rightarrow> do {
                  (shaken, out) \<leftarrow> send_handshake C K env identity local_endpoint_id peer stream;
                  (case shaken of
                     Inl e \<Rightarrow> Some (Inl e, out, events)
                   | Inr (session, stream) \<Rightarrow> do {
                       (res, s) \<leftarrow> send_object C K env pt identity session local_endpoint_id file_name
                         \<lparr>s_in = stream, s_out = out, s_reads = 2,
                          s_control = cc_new C (sk_handshake_prk session) (sk_th2 session) ClientToServer,
                          s_watch = rw_new r admission (sv_watch_start env), s_events = events\<rparr>;
                       Some (res, s_out s, s_events s) }) })) })"

text \<open>\<open>send_file\<close> prepares and sends in one call.\<close>

definition send_file ::
  "prims \<Rightarrow> pk_prims \<Rightarrow> send_env \<Rightarrow> file_secrets \<Rightarrow> device_identity \<Rightarrow> bytes \<Rightarrow> bytes \<Rightarrow> bytes \<Rightarrow> u64 option \<Rightarrow> bytes option \<Rightarrow> bytes \<Rightarrow>
    event_queue option \<Rightarrow> route_admission \<Rightarrow> bytes \<Rightarrow> ((transfer_error + transfer_report) \<times> bytes \<times> event_queue option) option" where
  "send_file C K env secrets identity local_endpoint_id peer path file_len file file_name events admission stream = do {
     r \<leftarrow> prepare C secrets path DEFAULT_CHUNK_SIZE file_len file;
     (case r of
        Inl e \<Rightarrow> Some (Inl e, [], events)
      | Inr pending \<Rightarrow> send_pending C K env identity local_endpoint_id peer pending file_name events admission stream) }"

section \<open>What preparing a file gives\<close>

definition cipher :: "prims \<Rightarrow> file_key_schedule \<Rightarrow> object_context \<Rightarrow> bytes \<Rightarrow> bytes \<Rightarrow> nat \<Rightarrow> bytes" where
  "cipher C ks c h file i = (case encrypt_chunk C ks c h (of_nat i) (slice c file i) of Inl _ \<Rightarrow> [] | Inr ct \<Rightarrow> ct)"

definition ciphers :: "prims \<Rightarrow> file_key_schedule \<Rightarrow> object_context \<Rightarrow> bytes \<Rightarrow> bytes \<Rightarrow> bytes list" where
  "ciphers C ks c h file = map (cipher C ks c h file) [0..<unat (oc_chunk_count c)]"

definition cache_ok :: "bytes list \<Rightarrow> ciphertext_cache \<Rightarrow> bool" where
  "cache_ok cts cache \<longleftrightarrow> (\<forall>i ct. cache_get cache i = Some ct \<longrightarrow> unat i < length cts \<and> ct = cts ! unat i)"

definition prepared :: "prims \<Rightarrow> bytes \<Rightarrow> pending_transfer \<Rightarrow> bool" where
  "prepared C file pt \<longleftrightarrow>
    (let c = pt_ctx pt; cts = ciphers C (pt_schedule pt) c (pt_ctx_hash pt) file in
     for_file (fs_transfer_id (pt_secrets pt)) (fs_object_id (pt_secrets pt)) (of_nat (length file)) (chunk_plaintext_size c) = Inr c \<and>
     length file = unat (encoded_plaintext_size c) \<and> context_hash C c = Some (pt_ctx_hash pt) \<and>
     pt_schedule pt = key_schedule C (pt_secrets pt) \<and> pt_leaves pt = chunk_leaves (blake3 C) cts \<and>
     pt_ciphertext_root pt = root_of (blake3 C) (pt_leaves pt) \<and> pt_plaintext_digest pt = blake3 C file \<and>
     cache_ok cts (pt_cache pt))"

lemma prepared_ok: "prepared C file pt \<Longrightarrow> oc_ok (pt_ctx pt)"
  unfolding prepared_def Let_def by (blast dest: for_file_ok)

lemma preparedD:
  assumes "prepared C file pt"
  shows "for_file (fs_transfer_id (pt_secrets pt)) (fs_object_id (pt_secrets pt)) (of_nat (length file)) (chunk_plaintext_size (pt_ctx pt)) =
      Inr (pt_ctx pt)"
    and "length file = unat (encoded_plaintext_size (pt_ctx pt))" and "context_hash C (pt_ctx pt) = Some (pt_ctx_hash pt)"
    and "pt_schedule pt = key_schedule C (pt_secrets pt)"
    and "pt_leaves pt = chunk_leaves (blake3 C) (ciphers C (pt_schedule pt) (pt_ctx pt) (pt_ctx_hash pt) file)"
    and "pt_ciphertext_root pt = root_of (blake3 C) (pt_leaves pt)" and "pt_plaintext_digest pt = blake3 C file"
    and "cache_ok (ciphers C (pt_schedule pt) (pt_ctx pt) (pt_ctx_hash pt) file) (pt_cache pt)"
  using assms unfolding prepared_def Let_def by blast+

lemma length_ciphers [simp]: "length (ciphers C ks c h file) = unat (oc_chunk_count c)"
  by (simp add: ciphers_def)

lemma encrypt_slice:
  assumes C: "aead_ok C" "kdf_lens C" and ok: "oc_ok c" and i: "i < unat (oc_chunk_count c)"
    and len: "length file = unat (encoded_plaintext_size c)"
  shows "encrypt_chunk C ks c h (of_nat i) (slice c file i) = Inr (cipher C ks c h file i)"
    and "length (cipher C ks c h file i) = clen c i + 16"
proof -
  have "i < 2 ^ 64" using i unat_u64_less [of "oc_chunk_count c"] by simp
  then have u: "unat (of_nat i :: u64) = i" by simp
  then obtain l where l: "chunk_len c (of_nat i) = Inr l" "unat l = clen c i"
    using chunk_len_eq [OF ok, of "of_nat i"] i by (auto simp: word_less_nat_alt clen_def)
  let ?k = "chunk_key C ks (of_nat i)" and ?n = "chunk_nonce C ks (of_nat i)"
    and ?a = "chunk_aad c h (of_nat i) (of_nat i * ucast (chunk_plaintext_size c)) l 0"
  have "length ?k = 32" "length ?n = 24"
    using C(2) by (simp_all add: chunk_key_def chunk_nonce_def Let_def kdf_lensD)
  from aead_okD [OF C(1) this, of ?a "slice c file i"]
  obtain ct where ct: "aead_encrypt C ?k ?n ?a (slice c file i) = Some ct" "length ct = length (slice c file i) + 16" by metis
  have s: "length (slice c file i) = clen c i" using length_slice [OF ok i len] .
  have e: "encrypt_chunk C ks c h (of_nat i) (slice c file i) = Inr ct"
    using l s ct(1) by (simp add: encrypt_chunk_def Let_def)
  then show "encrypt_chunk C ks c h (of_nat i) (slice c file i) = Inr (cipher C ks c h file i)"
    "length (cipher C ks c h file i) = clen c i + 16"
    using ct(2) s by (simp_all add: cipher_def)
qed

lemma cache_ok_insert:
  assumes "cache_ok cts cache" and "i < length cts" and "length cts < 2 ^ 64"
  shows "cache_ok cts (cache_insert cache (of_nat i) (cts ! i))"
proof -
  have "unat (of_nat i :: u64) = i" using assms(2,3) by simp
  then show ?thesis
    using assms(1,2) by (auto simp: cache_ok_def cache_insert_def cache_get_def nth_list_update split: if_splits)
qed

lemma prepare_loop_eq:
  fixes ks :: file_key_schedule and h :: bytes
  assumes C: "aead_ok C" "kdf_lens C" and ok: "oc_ok c" and len: "length file = unat (encoded_plaintext_size c)"
  defines "cts \<equiv> ciphers C ks c h file" and "n \<equiv> unat (oc_chunk_count c)"
  shows "k \<le> n \<Longrightarrow> cache_ok cts cache \<Longrightarrow> \<exists>cache'. cache_ok cts cache' \<and>
    prepare_loop C ks c h (map of_nat [n - k..<n]) (drop (upto_chunk c (n - k)) file) (take (n - k) (chunk_leaves (blake3 C) cts))
      (take (upto_chunk c (n - k)) file) cache = Some (Inr (chunk_leaves (blake3 C) cts, file, cache'))"
proof (induction k arbitrary: cache)
  case 0
  then show ?case using upto_chunk_all [OF ok] len by (auto simp: n_def cts_def)
next
  case (Suc k)
  define i where "i = n - Suc k"
  have i: "i < unat (oc_chunk_count c)" "Suc i = n - k" using Suc.prems(1) by (auto simp: i_def n_def)
  then have up: "[i..<n] = i # [n - k..<n]" by (metis n_def upt_conv_Cons)
  have "i < 2 ^ 64" using i(1) unat_u64_less [of "oc_chunk_count c"] by simp
  then have u: "unat (of_nat i :: u64) = i" by simp
  then obtain l where l: "chunk_len c (of_nat i) = Inr l" "unat l = clen c i"
    using chunk_len_eq [OF ok, of "of_nat i"] i(1) by (auto simp: word_less_nat_alt clen_def)
  have pos: "i * unat (chunk_plaintext_size c) = upto_chunk c i" "upto_chunk c i + clen c i = upto_chunk c (n - k)"
    using chunk_posn [OF ok i(1)] i(2) by simp_all
  have "upto_chunk c (n - k) \<le> length file" by (simp add: upto_chunk_def len)
  then have rd: "read_exact (unat l) (drop (upto_chunk c i) file) = Inr (slice c file i, drop (upto_chunk c (n - k)) file)"
    using pos by (simp add: read_exact_def l slice_def add.commute)
  have tk: "take (upto_chunk c i) file @ slice c file i = take (upto_chunk c (n - k)) file"
    using take_upto_Suc [OF ok i(1)] i(2) by simp
  have lf: "take i (chunk_leaves (blake3 C) cts) @ [leaf_hash (blake3 C) (of_nat i) (cipher C ks c h file i)] =
      take (n - k) (chunk_leaves (blake3 C) cts)"
    using i nth_chunk_leaves [of i cts "blake3 C"] take_Suc_conv_app_nth [of i "chunk_leaves (blake3 C) cts"]
    by (simp add: cts_def) (simp add: ciphers_def)
  have "cache_ok cts (cache_insert cache (of_nat i) (cipher C ks c h file i))"
    using cache_ok_insert [OF Suc.prems(2), of i] i(1) unat_u64_less [of "oc_chunk_count c"] by (simp add: cts_def ciphers_def)
  from Suc.IH [OF _ this] Suc.prems(1) obtain cache' where IH: "cache_ok cts cache'"
    "prepare_loop C ks c h (map of_nat [n - k..<n]) (drop (upto_chunk c (n - k)) file) (take (n - k) (chunk_leaves (blake3 C) cts))
      (take (upto_chunk c (n - k)) file) (cache_insert cache (of_nat i) (cipher C ks c h file i)) =
      Some (Inr (chunk_leaves (blake3 C) cts, file, cache'))" by auto
  have "prepare_loop C ks c h (map of_nat [i..<n]) (drop (upto_chunk c i) file) (take i (chunk_leaves (blake3 C) cts))
      (take (upto_chunk c i) file) cache = Some (Inr (chunk_leaves (blake3 C) cts, file, cache'))"
    using encrypt_slice(1) [OF C ok i(1) len] IH(2) by (simp add: up l(1) unwrap_def rd lf tk)
  with IH(1) show ?case unfolding i_def by blast
qed

lemma prepare_eq:
  assumes C: "aead_ok C" "kdf_lens C"
    and c: "for_file (fs_transfer_id secrets) (fs_object_id secrets) (of_nat (length file)) chunk_size = Inr c"
    and len: "length file < 2 ^ 64"
  shows "\<exists>pt. prepare C secrets path chunk_size (Some (of_nat (length file))) (Some file) = Some (Inr pt) \<and> prepared C file pt \<and>
    pt_secrets pt = secrets \<and> pt_ctx pt = c \<and> pt_path pt = path"
proof -
  note f = for_file_ok [OF c]
  have l: "length file = unat (encoded_plaintext_size c)" using f len by simp
  obtain h where h: "context_hash C c = Some h" by (simp add: context_hash_def oc_encode_def mw_simps)
  let ?ks = "key_schedule C secrets" and ?n = "unat (oc_chunk_count c)"
  have "cache_ok (ciphers C ?ks c h file) (cache_new (oc_chunk_count c) DEFAULT_BUDGET)"
    by (simp add: cache_ok_def cache_get_def cache_new_def)
  from prepare_loop_eq [OF C _ l le_refl this] f obtain cache' where
    "cache_ok (ciphers C ?ks c h file) cache'" "prepare_loop C ?ks c h (map of_nat [0..<?n]) file [] [] (cache_new (oc_chunk_count c) DEFAULT_BUDGET) =
      Some (Inr (chunk_leaves (blake3 C) (ciphers C ?ks c h file), file, cache'))" by auto
  moreover have "chunk_plaintext_size c = chunk_size" using f by simp
  ultimately show ?thesis using h c l by (simp add: prepare_def range_list_def merkle_root_eq prepared_def Let_def)
qed

section \<open>Serving a request\<close>

text \<open>The file is still what it was when it was prepared.\<close>

definition reads_file :: "send_env \<Rightarrow> bytes \<Rightarrow> bool" where
  "reads_file env file \<longleftrightarrow> (\<forall>pos len. unat pos + len \<le> length file \<longrightarrow> sv_read env pos len = Inr (take len (drop (unat pos) file)))"

definition record_of :: "prims \<Rightarrow> bytes \<Rightarrow> pending_transfer \<Rightarrow> u64 \<Rightarrow> bytes" where
  "record_of C file pt i = record_bytes i (proof_of (blake3 C) (pt_leaves pt) (unat i))
     (cipher C (pt_schedule pt) (pt_ctx pt) (pt_ctx_hash pt) file (unat i))"

lemma produce_eq:
  assumes C: "aead_ok C" "kdf_lens C" and pt: "prepared C file pt" and rd: "reads_file env file" and i: "i < oc_chunk_count (pt_ctx pt)"
  shows "produce_chunk_record C env pt i s = Some (Inr (record_of C file pt i), s)"
proof -
  let ?c = "pt_ctx pt" and ?ks = "pt_schedule pt" and ?h = "pt_ctx_hash pt"
  have ok: "oc_ok ?c" using pt by (rule prepared_ok)
  note len = preparedD(2) [OF pt] and leaves = preparedD(5) [OF pt] and cache = preparedD(8) [OF pt]
  have n: "unat i < unat (oc_chunk_count ?c)" using i by (simp add: word_less_nat_alt)
  obtain l where l: "chunk_len ?c i = Inr l" "unat l = clen ?c (unat i)"
    using chunk_len_eq [OF ok i] by (auto simp: clen_def)
  note pos = chunk_pos [OF ok i]
  have "upto_chunk ?c (Suc (unat i)) \<le> length file" by (simp add: upto_chunk_def len)
  then have read: "sv_read env (i * ucast (chunk_plaintext_size ?c)) (unat l) = Inr (slice ?c file (unat i))"
    using rd pos by (simp add: reads_file_def slice_def l(2))
  have enc: "encrypt_chunk C ?ks ?c ?h i (slice ?c file (unat i)) = Inr (cipher C ?ks ?c ?h file (unat i))"
    using encrypt_slice(1) [OF C ok n len] by simp
  have "ct = cipher C ?ks ?c ?h file (unat i)" if "cache_get (pt_cache pt) i = Some ct" for ct
  proof -
    from cache that have "ct = ciphers C ?ks ?c ?h file ! unat i" by (simp add: cache_ok_def)
    with n show ?thesis by (simp add: ciphers_def)
  qed
  then show ?thesis
    using l(1) n by (auto simp: produce_chunk_record_def bd_def unwrap_def lift_opt_def lift_res_def lift_both_def ret_def read enc build_proof_eq leaves
        encode_chunk_record_eq record_of_def split: option.splits)
qed

lemma send_loop_eq:
  assumes C: "aead_ok C" "kdf_lens C" and pt: "prepared C file pt" and rd: "reads_file env file"
    and calm: "\<And>k. admits pol (snd (sv_poll env k))" and taken: "\<And>n. sv_wire env n = Taken"
  shows "list_all (\<lambda>i. i < oc_chunk_count (pt_ctx pt)) is \<Longrightarrow> is = [] \<or> ahead = Some (record_of C file pt (hd is)) \<Longrightarrow>
    ra_policy (rw_admission (s_watch s)) = pol \<Longrightarrow>
    send_frames C (s_control s) (map (\<lambda>i. (FRAME_CHUNK, record_of C file pt i)) is) = Some (bs, ch) \<Longrightarrow>
    \<exists>w q. send_loop C env pt req k is ahead sb sc s = Some (Inr (), s\<lparr>s_control := ch, s_out := s_out s @ bs, s_watch := w, s_events := q\<rparr>)"
proof (induction "is" arbitrary: s ahead k sb sc bs)
  case Nil
  then show ?case by (auto simp: ret_def intro!: exI [of _ "s_watch s"] exI [of _ "s_events s"])
next
  case (Cons i "is")
  obtain b1 ch1 b2 where f1: "send_frame C (s_control s) FRAME_CHUNK (record_of C file pt i) = (Inr b1, ch1)"
    and f2: "send_frames C ch1 (map (\<lambda>i. (FRAME_CHUNK, record_of C file pt i)) is) = Some (b2, ch)" and bs: "bs = b1 @ b2"
    using Cons.prems(4) by (auto split: prod.splits sum.splits option.splits)
  obtain l where l: "chunk_len (pt_ctx pt) i = Inr l" using chunk_len_eq [OF prepared_ok [OF pt]] Cons.prems(1) by auto
  define s1 where "s1 = s\<lparr>s_control := ch1, s_out := s_out s @ b1\<rparr>"
  define next_ahead where "next_ahead = (case is of [] \<Rightarrow> None | j # _ \<Rightarrow> Some (record_of C file pt j))"
  have nx: "(case is of [] \<Rightarrow> ret None | j # _ \<Rightarrow> bd (produce_chunk_record C env pt j) (\<lambda>r. ret (Some r))) s1 = Some (Inr next_ahead, s1)"
    using Cons.prems(1) by (cases "is") (simp_all add: produce_eq [OF C pt rd] ret_def bd_def next_ahead_def)
  obtain w q where poll: "a_poll (fs_transfer_id (pt_secrets pt)) (sv_poll env k) s1 = Some (Inr (), s1\<lparr>s_watch := w, s_events := q\<rparr>)"
    "rw_admission w = rw_admission (s_watch s)"
    using a_poll_ok [of s1 "sv_poll env k" "fs_transfer_id (pt_secrets pt)"] calm Cons.prems(3) by (auto simp: s1_def)
  define q1 where "q1 = push_opt (TransferProgress (fs_transfer_id (pt_secrets pt)) Sending (sb + ucast l)
         (encoded_plaintext_size (pt_ctx pt)) (sc + 1) req) q"
  define s2 where "s2 = s1\<lparr>s_watch := w, s_events := q1\<rparr>"
  have step: "send_loop C env pt req k (i # is) ahead sb sc s = send_loop C env pt req (Suc k) is next_ahead (sb + ucast l) (sc + 1) s2"
    using Cons.prems(2) nx poll(1)
    by (simp add: bd_def lift_opt_def unwrap_def l a_send_eq [OF f1 taken] s1_def [symmetric] a_event_eq q1_def [symmetric]) (simp add: s2_def q1_def)
  have "\<exists>w q. send_loop C env pt req (Suc k) is next_ahead (sb + ucast l) (sc + 1) s2 =
      Some (Inr (), s2\<lparr>s_control := ch, s_out := s_out s2 @ b2, s_watch := w, s_events := q\<rparr>)"
    using Cons.prems f2 poll(2) by (intro Cons.IH) (auto simp: s2_def s1_def next_ahead_def split: list.splits)
  then show ?case unfolding step by (auto simp: s2_def s1_def bs)
qed

end
