(* ===== verification/Rtp_Receiver.thy ===== *)
theory Rtp_Receiver
  imports Rtp_Session Rtp_Scheduler Rtp_Resume
begin

text \<open>
  The receiving side, \<open>receive_file\<close> of \<open>rtp2-core/src/transfer.rs\<close>: the handshake, the checks on the offer, the destination file
  and the resume record, the loop over chunk records, and the digest check before anything is reported complete. What the system
  answers - clocks, random values, the outcome of every file operation - is a record of arguments, so that every failure is a branch.
  A write that reports success has reached the file, since a later flush or write reports what it could not store.
\<close>

section \<open>What the system answers\<close>

datatype accepted = AcceptTimeout | EndpointClosed | AcceptFailed | AcceptNever | Accepted bytes

text \<open>
  Answers that come once per stored chunk are indexed by the number of chunks stored before it: \<open>rv_write\<close> says after how many
  bytes a write fails, if it does, \<open>rv_sync\<close> and \<open>rv_commit\<close> how flushing and committing go, \<open>rv_poll\<close> what the path watch sees.
\<close>

record recv_env =
  rv_accept :: accepted
  rv_route :: route
  rv_clock :: "nat \<Rightarrow> nat"
  rv_observe :: "nat \<Rightarrow> route"
  rv_stream :: "unit waited"
  rv_wire :: "nat \<Rightarrow> write_io"
  rv_watch_start :: nat
  rv_in_time :: "nat \<Rightarrow> bool"
  rv_ex_secret :: bytes
  rv_kem_randomness :: bytes
  rv_enc_randomness :: bytes
  rv_nonce :: bytes
  rv_sig_randomness :: bytes
  rv_hello_time :: u64
  rv_now :: u64
  rv_dest :: bytes
  rv_resume :: bool
  rv_stored :: "bytes option"
  rv_open :: bool
  rv_set_len :: bool
  rv_write :: "nat \<Rightarrow> nat option"
  rv_sync :: "nat \<Rightarrow> bool"
  rv_commit :: "nat \<Rightarrow> commit_io"
  rv_poll :: "nat \<Rightarrow> nat \<times> route"
  rv_final_sync :: bool
  rv_final_commit :: commit_io
  rv_readback :: bool
  rv_remove_file :: bool
  rv_remove_record :: remove_result

section \<open>Handshake\<close>

definition recv_handshake ::
  "prims \<Rightarrow> pk_prims \<Rightarrow> recv_env \<Rightarrow> device_identity \<Rightarrow> bytes \<Rightarrow> bytes \<Rightarrow> replay_cache \<Rightarrow> bytes \<Rightarrow>
    ((transfer_error + session_keys \<times> bytes) \<times> bytes \<times> replay_cache) option" where
  "recv_handshake C K env identity local_endpoint_id observed_peer replay stream =
    (case expect_plain_frame (rv_in_time env 0) FRAME_CLIENT_HELLO stream of
       Inl e \<Rightarrow> Some (Inl e, [], replay)
     | Inr (ch, stream) \<Rightarrow> do {
         (r, responder, replay) \<leftarrow> on_client_hello C K (rv_ex_secret env) (rv_kem_randomness env) (rv_enc_randomness env) (rv_nonce env)
           (rv_sig_randomness env) (rv_hello_time env) identity local_endpoint_id AwaitClientHello ch observed_peer replay;
         (case r of
            Inl _ \<Rightarrow> Some (Inl Handshake, [], replay)
          | Inr sh \<Rightarrow>
              do {
              (sent, out) \<leftarrow> write_plain_frame (rv_wire env) [] FRAME_SERVER_HELLO sh;
              (case sent of
                 Inl e \<Rightarrow> Some (Inl e, out, replay)
               | Inr _ \<Rightarrow>
                   (case expect_plain_frame (rv_in_time env 1) FRAME_CLIENT_FINISH stream of
                      Inl e \<Rightarrow> Some (Inl e, out, replay)
                    | Inr (cf, stream) \<Rightarrow> do {
                        (r, responder) \<leftarrow> on_client_finish C K responder cf;
                        (case r of
                           Inl _ \<Rightarrow> Some (Inl Handshake, out, replay)
                         | Inr (sf, session) \<Rightarrow> do {
                             (sent, out) \<leftarrow> write_plain_frame (rv_wire env) out FRAME_SERVER_FINISH sf;
                             Some (case sent of Inl e \<Rightarrow> Inl e | Inr _ \<Rightarrow> Inr (session, stream), out, replay) }) })) }) })"

section \<open>The offer\<close>

record recv_params =
  rp_secrets :: file_secrets
  rp_ctx :: object_context
  rp_ctx_hash :: bytes
  rp_schedule :: file_key_schedule
  rp_root :: bytes
  rp_expected_digest :: bytes
  rp_commitment :: bytes
  rp_chunk_ciphertext_size :: u64

text \<open>The envelope addressed to this device, opened and checked to join the two devices of the session.\<close>

definition open_offer_envelope ::
  "prims \<Rightarrow> u64 \<Rightarrow> device_identity \<Rightarrow> session_keys \<Rightarrow> transfer_offer \<Rightarrow> ('s, file_secrets) act" where
  "open_offer_envelope C now identity session offer =
    bd (lift_res id (ok_or (Crypto ''no key envelope for this device'') (envelope_for offer (id_device_id identity)))) (\<lambda>entry.
    bd (lift_res (\<lambda>_. Crypto ''envelope'')
         (open_envelope_at C \<lparr>se_nonce = ke_nonce entry, se_ciphertext = ke_ciphertext entry\<rparr> (sk_transfer_wrap_key session) now)) (\<lambda>opened.
    bd (fail_if (oe_sender_device_id opened \<noteq> dp_device_id (sk_peer session) \<or> oe_recipient_device_id opened \<noteq> id_device_id identity)
         (Crypto ''envelope binding'')) (\<lambda>_.
    ret (oe_secrets opened))))"

text \<open>The object described by both manifests. Indexing the private list is a panic when it is empty.\<close>

definition match_manifests ::
  "prims \<Rightarrow> device_identity \<Rightarrow> session_keys \<Rightarrow> transfer_offer \<Rightarrow> public_manifest \<Rightarrow> file_secrets \<Rightarrow>
    ('s, object_public \<times> private_manifest) act" where
  "match_manifests C identity session offer public secrets =
    bd (fail_if (pm_transfer_id public \<noteq> fs_transfer_id secrets) (Crypto ''manifest/envelope transfer id mismatch'')) (\<lambda>_.
    bd (lift_res id (ok_or (Protocol ''no primary object'') (pm_primary public))) (\<lambda>object_public.
    bd (fail_if (op_object_id object_public \<noteq> fs_object_id secrets) (Crypto ''manifest/envelope object id mismatch'')) (\<lambda>_.
    bd (lift_both (\<lambda>_. Crypto ''private manifest'')
         (open_private_manifest C (of_sealed_manifest offer) (ks_manifest_key (key_schedule C secrets)) (fs_transfer_id secrets)
            (fs_object_id secrets) (dp_device_id (sk_peer session)) (rs_device (id_device_id identity)))) (\<lambda>private.
    bd (fail_if (length (pv_objects private) \<noteq> length (pm_objects public)) (Protocol ''manifest object mismatch'')) (\<lambda>_.
    bd (lift_opt (case pv_objects private of [] \<Rightarrow> None | first # _ \<Rightarrow> Some first)) (\<lambda>first.
    bd (fail_if (ov_object_id first \<noteq> op_object_id object_public \<or> ov_object_role first \<noteq> op_object_role object_public)
         (Protocol ''manifest object mismatch'')) (\<lambda>_.
    ret (object_public, private))))))))"

definition object_of_offer :: "prims \<Rightarrow> file_secrets \<Rightarrow> object_public \<Rightarrow> private_manifest \<Rightarrow> ('s, object_context) act" where
  "object_of_offer C secrets object_public private =
    bd (lift_res (\<lambda>_. Protocol ''bad chunk size'')
         (chunk_plaintext_size_from_ciphertext (op_chunk_ciphertext_size object_public))) (\<lambda>chunk_size.
    bd (lift_res (\<lambda>_. Protocol ''bad object parameters'')
         (for_file (fs_transfer_id secrets) (fs_object_id secrets) (pv_logical_plaintext_size private) chunk_size)) (\<lambda>ctx.
    bd (fail_if (oc_chunk_count ctx \<noteq> op_chunk_count object_public \<or> padding_policy ctx \<noteq> op_padding_policy object_public \<or>
         object_role ctx \<noteq> op_object_role object_public) (Protocol ''manifest inconsistent with object'')) (\<lambda>_.
    ret ctx)))"

definition accept_offer ::
  "prims \<Rightarrow> pk_prims \<Rightarrow> u64 \<Rightarrow> device_identity \<Rightarrow> session_keys \<Rightarrow> bytes \<Rightarrow> ('s, recv_params) act" where
  "accept_offer C K now identity session offer_frame =
    bd (lift_res (\<lambda>_. Protocol ''bad transfer offer'') (offer_decode offer_frame)) (\<lambda>offer.
    bd (fail_if (dp_device_id (of_sender_device offer) \<noteq> dp_device_id (sk_peer session))
         (Crypto ''offer signer is not the session peer'')) (\<lambda>_.
    bd (lift_both (\<lambda>_. Crypto ''transfer offer'') (offer_verify C K offer (rs_device (id_device_id identity)) now)) (\<lambda>public.
    bd (open_offer_envelope C now identity session offer) (\<lambda>secrets.
    bd (match_manifests C identity session offer public secrets) (\<lambda>(object_public, private).
    bd (object_of_offer C secrets object_public private) (\<lambda>ctx.
    bd (lift_opt (context_hash C ctx)) (\<lambda>ctx_hash.
    bd (lift_both (\<lambda>_. Crypto ''commitment'') (offer_manifest_commitment C offer)) (\<lambda>commitment.
    ret \<lparr>rp_secrets = secrets, rp_ctx = ctx, rp_ctx_hash = ctx_hash, rp_schedule = key_schedule C secrets,
         rp_root = op_ciphertext_root object_public, rp_expected_digest = pv_plaintext_digest private, rp_commitment = commitment,
         rp_chunk_ciphertext_size = op_chunk_ciphertext_size object_public\<rparr>))))))))"

section \<open>The destination and the resume record\<close>

text \<open>
  The session together with the destination file, the resume record and the counters of the loop. The running hash is the bytes
  fed to it; fields the code has not assigned yet hold placeholders.
\<close>

record recv_state = sess +
  v_file :: "bytes option"
  v_have :: chunk_bitmap
  v_db :: "resume_db option"
  v_disk :: disk
  v_streaming :: "(bytes \<times> u64) option"
  v_verified_bytes :: u64
  v_received :: u64

definition resume_fail :: "resume_error \<Rightarrow> transfer_error" where
  "resume_fail e = Io (case e of ResumeIo \<Rightarrow> ''resume io'' | Corrupt \<Rightarrow> ''resume record is corrupt''
     | VersionMismatch \<Rightarrow> ''resume record version mismatch'' | ObjectMismatch \<Rightarrow> ''resume record is for a different object'')"

definition identity_of :: "recv_params \<Rightarrow> object_identity" where
  "identity_of p = \<lparr>oi_transfer_id = fs_transfer_id (rp_secrets p), oi_object_id = fs_object_id (rp_secrets p),
     oi_manifest_commitment = rp_commitment p, oi_ciphertext_root = rp_root p, oi_chunk_count = oc_chunk_count (rp_ctx p),
     oi_chunk_ciphertext_size = rp_chunk_ciphertext_size p, oi_logical_plaintext_size = logical_plaintext_size (rp_ctx p)\<rparr>"

definition set_len :: "nat \<Rightarrow> bytes \<Rightarrow> bytes" where
  "set_len n file = take n file @ replicate (n - length file) 0"

definition write_at :: "nat \<Rightarrow> bytes \<Rightarrow> bytes \<Rightarrow> bytes" where
  "write_at pos data file = take pos file @ replicate (pos - length file) 0 @ data @ drop (pos + length data) file"

definition content :: "recv_state \<Rightarrow> bytes" where
  "content s = (case v_file s of None \<Rightarrow> [] | Some bs \<Rightarrow> bs)"

definition open_record :: "prims \<Rightarrow> recv_env \<Rightarrow> recv_params \<Rightarrow> (recv_state, unit) act" where
  "open_record C env p =
    (if rv_resume env
     then bd (lift_res resume_fail (db_open C (rv_stored env) (identity_of p) (rv_dest env))) (\<lambda>(db, _). upd (\<lambda>s. s\<lparr>v_db := Some db\<rparr>))
     else upd (\<lambda>s. s\<lparr>v_db := None\<rparr>))"

definition first_have :: "recv_params \<Rightarrow> (recv_state, chunk_bitmap) act" where
  "first_have p =
    bd get_st (\<lambda>s.
    case v_db s of
      Some db \<Rightarrow> ret (re_durable (db_record db))
    | None \<Rightarrow> lift_res (\<lambda>_. Protocol ''bad chunk count'') (bm_new (oc_chunk_count (rp_ctx p))))"

definition open_object :: "prims \<Rightarrow> recv_env \<Rightarrow> recv_params \<Rightarrow> (recv_state, unit) act" where
  "open_object C env p =
    bd (open_record C env p) (\<lambda>_.
    bd (fail_if (\<not> rv_open env) (Io ''open'')) (\<lambda>_.
    bd (upd (\<lambda>s. s\<lparr>v_file := Some (content s)\<rparr>)) (\<lambda>_.
    bd (fail_if (\<not> rv_set_len env) (Io ''set_len'')) (\<lambda>_.
    bd (upd (\<lambda>s. s\<lparr>v_file := Some (set_len (unat (logical_plaintext_size (rp_ctx p))) (content s))\<rparr>)) (\<lambda>_.
    bd (first_have p) (\<lambda>have_bm.
    upd (\<lambda>s. s\<lparr>v_have := have_bm\<rparr>)))))))"

definition ask_missing :: "prims \<Rightarrow> recv_env \<Rightarrow> recv_params \<Rightarrow> (recv_state, unit) act" where
  "ask_missing C env p =
    bd get_st (\<lambda>s.
    bd (lift_opt (rr_encode (full_request (sc_new (fs_transfer_id (rp_secrets p)) (fs_object_id (rp_secrets p))
         (oc_chunk_count (rp_ctx p)) (rp_chunk_ciphertext_size p)) (v_have s)))) (\<lambda>request.
    a_send C (rv_wire env) FRAME_RANGE_REQUEST request))"

definition bytes_held :: "object_context \<Rightarrow> chunk_bitmap \<Rightarrow> u64" where
  "bytes_held ctx bm = sum_list (map (\<lambda>i. case chunk_len ctx i of Inl _ \<Rightarrow> 0 | Inr l \<Rightarrow> ucast l)
     (filter (\<lambda>i. bm_get bm i = Inr True) (map of_nat [0..<unat (oc_chunk_count ctx)])))"

definition begin_receive :: "recv_params \<Rightarrow> (recv_state, unit) act" where
  "begin_receive p =
    bd (upd (\<lambda>s. s\<lparr>v_streaming := Some ([], 0), v_verified_bytes := bytes_held (rp_ctx p) (v_have s), v_received := 0\<rparr>)) (\<lambda>_.
    a_event (TransferStarted (fs_transfer_id (rp_secrets p)) 1 (encoded_plaintext_size (rp_ctx p))))"

section \<open>One chunk record\<close>

definition write_chunk :: "recv_env \<Rightarrow> recv_params \<Rightarrow> nat \<Rightarrow> u64 \<Rightarrow> bytes \<Rightarrow> (recv_state, unit) act" where
  "write_chunk env p k index plaintext =
    (let pos = unat (index * ucast (chunk_plaintext_size (rp_ctx p))) in
     case rv_write env k of
       Some n \<Rightarrow> bd (upd (\<lambda>s. s\<lparr>v_file := Some (write_at pos (take n plaintext) (content s))\<rparr>)) (\<lambda>_. lift_res id (Inl (Io ''write'')))
     | None \<Rightarrow> upd (\<lambda>s. s\<lparr>v_file := Some (write_at pos plaintext (content s)),
                        v_disk := (v_disk s)\<lparr>dk_written := insert index (dk_written (v_disk s))\<rparr>\<rparr>))"

definition note_verified :: "u64 \<Rightarrow> (recv_state, unit) act" where
  "note_verified index s =
    (case v_db s of
       None \<Rightarrow> Some (Inr (), s)
     | Some db \<Rightarrow>
         (case mark_verified db index of
            (Inl e, db) \<Rightarrow> Some (Inl (resume_fail e), s\<lparr>v_db := Some db\<rparr>)
          | (Inr _, db) \<Rightarrow> Some (Inr (), s\<lparr>v_db := Some db\<rparr>)))"

definition note_have :: "u64 \<Rightarrow> (recv_state, unit) act" where
  "note_have index s =
    (case bm_set (v_have s) index of
       Inl _ \<Rightarrow> Some (Inl (Protocol ''bitmap''), s)
     | Inr (_, bm) \<Rightarrow> Some (Inr (), s\<lparr>v_have := bm, v_received := v_received s + 1\<rparr>))"

definition hash_in_order :: "u64 \<Rightarrow> bytes \<Rightarrow> (bytes \<times> u64) option \<Rightarrow> (bytes \<times> u64) option" where
  "hash_in_order index plaintext streaming =
    (case streaming of
       None \<Rightarrow> None
     | Some (hashed, next) \<Rightarrow> if index = next then Some (hashed @ plaintext, next + 1) else None)"

definition note_written :: "prims \<Rightarrow> recv_env \<Rightarrow> nat \<Rightarrow> u64 \<Rightarrow> (recv_state, unit) act" where
  "note_written C env k index s =
    (case v_db s of
       None \<Rightarrow> Some (Inr (), s)
     | Some db \<Rightarrow> do {
         (r, db, dk) \<leftarrow> chunk_written C db index (rv_sync env k) (rv_commit env k) (v_disk s);
         Some (case r of Inl e \<Rightarrow> Inl (resume_fail e) | Inr _ \<Rightarrow> Inr (), s\<lparr>v_db := Some db, v_disk := dk\<rparr>) })"

definition store_chunk :: "prims \<Rightarrow> recv_env \<Rightarrow> recv_params \<Rightarrow> u64 \<Rightarrow> bytes \<Rightarrow> (recv_state, unit) act" where
  "store_chunk C env p index plaintext =
    bd get_st (\<lambda>s. let k = unat (v_received s) in
    bd (write_chunk env p k index plaintext) (\<lambda>_.
    bd (note_verified index) (\<lambda>_.
    bd (note_have index) (\<lambda>_.
    bd (a_poll (fs_transfer_id (rp_secrets p)) (rv_poll env k)) (\<lambda>_.
    bd (upd (\<lambda>s. s\<lparr>v_streaming := hash_in_order index plaintext (v_streaming s),
                    v_verified_bytes := v_verified_bytes s + of_nat (length plaintext)\<rparr>)) (\<lambda>_.
    bd get_st (\<lambda>s.
    bd (a_event (TransferProgress (fs_transfer_id (rp_secrets p)) Receiving (v_verified_bytes s) (encoded_plaintext_size (rp_ctx p))
         (set_count (v_have s)) (oc_chunk_count (rp_ctx p)))) (\<lambda>_.
    note_written C env k index))))))))"

definition chunk_step :: "prims \<Rightarrow> recv_env \<Rightarrow> recv_params \<Rightarrow> bytes \<Rightarrow> (recv_state, unit) act" where
  "chunk_step C env p payload =
    (let ctx = rp_ctx p; n = oc_chunk_count ctx; H = blake3 C in
     bd (lift_res id (decode_chunk_record payload)) (\<lambda>(index, siblings, ciphertext).
     bd (fail_if (index \<ge> n) (Protocol ''chunk index out of range'')) (\<lambda>_.
     bd get_st (\<lambda>s.
     if bm_get (v_have s) index = Inr True then ret ()
     else
       bd (lift_res (\<lambda>_. Protocol ''chunk index out of range'') (chunk_ciphertext_len ctx index)) (\<lambda>expected_len.
       bd (fail_if (length ciphertext \<noteq> expected_len) (Protocol ''chunk length mismatch'')) (\<lambda>_.
       bd (lift_both (\<lambda>_. Crypto ''merkle proof'') (verify_proof H (leaf_hash H index ciphertext) index n siblings (rp_root p))) (\<lambda>_.
       bd (lift_res (\<lambda>_. Crypto ''chunk aead'') (decrypt_chunk C (rp_schedule p) ctx (rp_ctx_hash p) index ciphertext)) (\<lambda>plaintext.
       store_chunk C env p index plaintext))))))))"

section \<open>The loop\<close>

text \<open>Every frame read shortens the input and storing a chunk leaves it alone, so the loop ends.\<close>

lemma recv_frame_shorter: "recv_frame C ch in_time bs = (Inr (m, rest), ch') \<Longrightarrow> length rest < length bs"
  by (auto simp: recv_frame_def recv_raw_frame_def read_meta_def read_exact_def FRAME_HEADER_LEN_def res_iff
      split: sum.splits prod.splits if_splits)

lemma a_recv_shorter: "a_recv C in_time s = Some (Inr m, s') \<Longrightarrow> length (s_in s') < length (s_in s)"
  using recv_frame_shorter by (fastforce simp: a_recv_def split: sum.splits prod.splits)

lemma note_verified_in: "note_verified i s = Some (r, s') \<Longrightarrow> s_in s' = s_in s"
  by (auto simp: note_verified_def split: option.splits sum.splits prod.splits)

lemma note_have_in: "note_have i s = Some (r, s') \<Longrightarrow> s_in s' = s_in s"
  by (auto simp: note_have_def split: option.splits sum.splits prod.splits)

lemma note_written_in: "note_written C env k i s = Some (r, s') \<Longrightarrow> s_in s' = s_in s"
  by (auto simp: note_written_def split: option.splits bind_splits)

lemma a_poll_in: "a_poll t o' s = Some (r, s') \<Longrightarrow> s_in s' = s_in s"
  by (auto simp: a_poll_def split: prod.splits)

lemma write_chunk_in: "write_chunk env p k i pt s = Some (Inr (), s') \<Longrightarrow> s_in s' = s_in s"
  by (auto simp: write_chunk_def Let_def act_iff split: option.splits)

lemma store_chunk_in: "store_chunk C env p i pt s = Some (Inr (), s') \<Longrightarrow> s_in s' = s_in s"
  by (auto simp: store_chunk_def Let_def act_iff a_event_def
      dest!: note_verified_in note_have_in note_written_in a_poll_in write_chunk_in)

lemma chunk_step_in: "chunk_step C env p payload s = Some (Inr (), s') \<Longrightarrow> s_in s' = s_in s"
  by (auto simp: chunk_step_def Let_def act_iff store_chunk_in split: if_splits)

function recv_loop :: "prims \<Rightarrow> recv_env \<Rightarrow> recv_params \<Rightarrow> (recv_state, unit) act" where
  "recv_loop C env p s =
    (case a_recv C (rv_in_time env) s of
       None \<Rightarrow> None
     | Some (Inl e, s) \<Rightarrow> Some (Inl e, s)
     | Some (Inr (frame_type, payload), s) \<Rightarrow>
         if frame_type = FRAME_CHUNK
         then (case chunk_step C env p payload s of
                 None \<Rightarrow> None
               | Some (Inl e, s) \<Rightarrow> Some (Inl e, s)
               | Some (Inr _, s) \<Rightarrow> recv_loop C env p s)
         else if frame_type = FRAME_STREAM_END then Some (Inr (), s)
         else Some (Inl (Protocol ''unexpected frame type''), s))"
  by pat_completeness auto
termination
  by (relation "measure (\<lambda>(C, env, p, s). length (s_in s))") (auto dest!: a_recv_shorter chunk_step_in)

declare recv_loop.simps [simp del]

section \<open>The end of the object\<close>

text \<open>\<open>flush\<close> and \<open>sync_all\<close>.\<close>

definition sync_file :: "recv_env \<Rightarrow> (recv_state, unit) act" where
  "sync_file env s =
    (case sync_data (rv_final_sync env) (v_disk s) of
       (Inl _, dk) \<Rightarrow> Some (Inl (Io ''sync''), s\<lparr>v_disk := dk\<rparr>)
     | (Inr _, dk) \<Rightarrow> Some (Inr (), s\<lparr>v_disk := dk\<rparr>))"

definition commit_record :: "prims \<Rightarrow> recv_env \<Rightarrow> (recv_state, unit) act" where
  "commit_record C env s =
    (case v_db s of
       None \<Rightarrow> Some (Inr (), s)
     | Some db \<Rightarrow> do {
         (r, db, dk) \<leftarrow> checkpoint C db (rv_final_commit env) (v_disk s);
         Some (case r of Inl e \<Rightarrow> Inl (resume_fail e) | Inr _ \<Rightarrow> Inr (), s\<lparr>v_db := Some db, v_disk := dk\<rparr>) })"

definition check_complete :: "prims \<Rightarrow> recv_env \<Rightarrow> (recv_state, unit) act" where
  "check_complete C env =
    bd get_st (\<lambda>s.
    if \<not> is_complete (v_have s)
    then bd (if v_db s = None then ret () else bd (sync_file env) (\<lambda>_. commit_record C env)) (\<lambda>_.
         lift_res id (Inl (Protocol ''transfer incomplete'')))
    else sync_file env)"

definition object_digest :: "prims \<Rightarrow> recv_env \<Rightarrow> recv_params \<Rightarrow> (recv_state, bytes) act" where
  "object_digest C env p =
    bd get_st (\<lambda>s.
    case v_streaming s of
      Some (hashed, next) \<Rightarrow>
        if next = oc_chunk_count (rp_ctx p) then ret (blake3 C hashed)
        else bd (fail_if (\<not> rv_readback env) (Io ''read'')) (\<lambda>_. ret (blake3 C (content s)))
    | None \<Rightarrow> bd (fail_if (\<not> rv_readback env) (Io ''read'')) (\<lambda>_. ret (blake3 C (content s))))"

text \<open>The record is removed when there is one, and the database is gone either way.\<close>

definition drop_record :: "recv_env \<Rightarrow> (recv_state, unit) act" where
  "drop_record env s =
    (case v_db s of
       None \<Rightarrow> Some (Inr (), s)
     | Some db \<Rightarrow>
         (case db_remove (rv_remove_record env) (v_disk s) of
            (Inl e, dk) \<Rightarrow> Some (Inl (resume_fail e), s\<lparr>v_db := None, v_disk := dk\<rparr>)
          | (Inr _, dk) \<Rightarrow> Some (Inr (), s\<lparr>v_db := None, v_disk := dk\<rparr>)))"

text \<open>\<open>let _ = ..\<close>: go on whatever the step answers.\<close>

definition ignore_err :: "('s, 'a) act \<Rightarrow> ('s, unit) act" where
  "ignore_err m s = (case m s of None \<Rightarrow> None | Some (_, s) \<Rightarrow> Some (Inr (), s))"

definition check_digest :: "recv_env \<Rightarrow> recv_params \<Rightarrow> bytes \<Rightarrow> (recv_state, unit) act" where
  "check_digest env p digest =
    (if \<not> ct_eq digest (rp_expected_digest p)
     then bd (upd (\<lambda>s. if rv_remove_file env then s\<lparr>v_file := None, v_disk := (v_disk s)\<lparr>dk_written := {}, dk_synced := {}\<rparr>\<rparr> else s)) (\<lambda>_.
          bd (ignore_err (drop_record env)) (\<lambda>_.
          lift_res id (Inl (Crypto ''plaintext digest mismatch''))))
     else drop_record env)"

definition finish_receive :: "prims \<Rightarrow> recv_env \<Rightarrow> recv_params \<Rightarrow> bytes \<Rightarrow> (recv_state, unit) act" where
  "finish_receive C env p digest =
    bd (a_event (ObjectCompleted (fs_transfer_id (rp_secrets p)) (fs_object_id (rp_secrets p)) digest)) (\<lambda>_.
    bd (a_event (TransferCompleted (fs_transfer_id (rp_secrets p)) 1)) (\<lambda>_.
    bd (lift_opt (encode_ack 0 digest)) (\<lambda>ack.
    a_send C (rv_wire env) FRAME_COMPLETE ack)))"

section \<open>The whole receive\<close>

definition receive_body :: "prims \<Rightarrow> recv_env \<Rightarrow> recv_params \<Rightarrow> (recv_state, bytes) act" where
  "receive_body C env p =
    bd (open_object C env p) (\<lambda>_.
    bd (ask_missing C env p) (\<lambda>_.
    bd (begin_receive p) (\<lambda>_.
    bd (recv_loop C env p) (\<lambda>_.
    bd (check_complete C env) (\<lambda>_.
    bd (object_digest C env p) (\<lambda>digest.
    bd (check_digest env p digest) (\<lambda>_.
    bd (finish_receive C env p digest) (\<lambda>_.
    ret digest))))))))"

definition receive_object ::
  "prims \<Rightarrow> pk_prims \<Rightarrow> recv_env \<Rightarrow> device_identity \<Rightarrow> session_keys \<Rightarrow> (recv_state, transfer_report) act" where
  "receive_object C K env identity session =
    bd (a_expect C (rv_in_time env) FRAME_OFFER) (\<lambda>offer_frame.
    bd (accept_offer C K (rv_now env) identity session offer_frame) (\<lambda>p.
    bd (receive_body C env p) (\<lambda>digest.
    bd get_st (\<lambda>s.
    ret \<lparr>tr_transfer_id = fs_transfer_id (rp_secrets p), tr_object_id = fs_object_id (rp_secrets p),
         tr_manifest_commitment = rp_commitment p, tr_ciphertext_root = rp_root p, tr_plaintext_digest = digest,
         tr_bytes = logical_plaintext_size (rp_ctx p), tr_chunks = oc_chunk_count (rp_ctx p), tr_chunks_transferred = v_received s,
         tr_peer_device_id = dp_device_id (sk_peer session), tr_peer_endpoint_id = sk_peer_endpoint_id session,
         tr_route = rw_last (s_watch s)\<rparr>))))"

text \<open>What a receive leaves behind besides its result: bytes written, events, the replay cache, the destination and the disk.\<close>

record received =
  rx_out :: bytes
  rx_events :: "event_queue option"
  rx_replay :: replay_cache
  rx_file :: "bytes option"
  rx_disk :: disk

definition recv_start :: "prims \<Rightarrow> recv_env \<Rightarrow> session_keys \<Rightarrow> route \<Rightarrow> route_admission \<Rightarrow> bytes \<Rightarrow> received \<Rightarrow> recv_state" where
  "recv_start C env session r admission stream rx =
    \<lparr>s_in = stream, s_out = rx_out rx, s_reads = 2,
     s_control = cc_new C (sk_handshake_prk session) (sk_th2 session) ServerToClient,
     s_watch = rw_new r admission (rv_watch_start env), s_events = rx_events rx,
     v_file = rx_file rx, v_have = \<lparr>chunk_count = 0, bits = [], set_count = 0\<rparr>, v_db = None, v_disk = rx_disk rx,
     v_streaming = None, v_verified_bytes = 0, v_received = 0\<rparr>"

definition receive_file ::
  "prims \<Rightarrow> pk_prims \<Rightarrow> recv_env \<Rightarrow> device_identity \<Rightarrow> bytes \<Rightarrow> route_admission \<Rightarrow> bytes \<Rightarrow> received \<Rightarrow>
    ((transfer_error + transfer_report) \<times> received) option" where
  "receive_file C K env identity local_endpoint_id admission stream rx =
    (case rv_accept env of
       AcceptTimeout \<Rightarrow> Some (Inl Timeout, rx)
     | EndpointClosed \<Rightarrow> Some (Inl (Io ''endpoint closed''), rx)
     | AcceptFailed \<Rightarrow> Some (Inl (Io ''accept''), rx)
     | AcceptNever \<Rightarrow> None
     | Accepted observed_peer \<Rightarrow> do {
         (admitted, events) \<leftarrow> admit_route (rv_route env) (replicate 32 0) admission (rx_events rx) (rv_clock env) (rv_observe env);
         let rx = rx\<lparr>rx_events := events\<rparr>;
         (case admitted of
            Inl e \<Rightarrow> Some (Inl e, rx)
          | Inr r \<Rightarrow> (case rv_stream env of
              Never \<Rightarrow> None
            | Failed \<Rightarrow> Some (Inl (Io ''accept_bi''), rx)
            | Ready _ \<Rightarrow> do {
                (shaken, out, replay) \<leftarrow> recv_handshake C K env identity local_endpoint_id observed_peer (rx_replay rx) stream;
                let rx = rx\<lparr>rx_out := out, rx_replay := replay\<rparr>;
                (case shaken of
                   Inl e \<Rightarrow> Some (Inl e, rx)
                 | Inr (session, stream) \<Rightarrow> do {
                     (res, s) \<leftarrow> receive_object C K env identity session (recv_start C env session r admission stream rx);
                     Some (res, rx\<lparr>rx_out := s_out s, rx_events := s_events s, rx_file := v_file s, rx_disk := v_disk s\<rparr>) }) })) })"

section \<open>The file and its running hash\<close>

definition recv_inv :: "recv_params \<Rightarrow> recv_state \<Rightarrow> bool" where
  "recv_inv p s \<longleftrightarrow> oc_ok (rp_ctx p) \<and> v_file s \<noteq> None \<and> length (content s) = unat (encoded_plaintext_size (rp_ctx p)) \<and>
    bm_ok (v_have s) \<and> chunk_count (v_have s) = oc_chunk_count (rp_ctx p) \<and>
    (case v_streaming s of
       None \<Rightarrow> True
     | Some (hashed, next) \<Rightarrow> next \<le> oc_chunk_count (rp_ctx p) \<and> hashed = take (upto_chunk (rp_ctx p) (unat next)) (content s))"

lemma length_write_at: "length (write_at pos d file) = max (length file) (pos + length d)"
  by (simp add: write_at_def)

lemma take_write_at: "pos \<le> length file \<Longrightarrow> take (pos + length d) (write_at pos d file) = take pos file @ d"
  by (simp add: write_at_def)

lemma length_set_len [simp]: "length (set_len n file) = n"
  by (simp add: set_len_def)

lemma decrypt_chunk_len: "decrypt_chunk C ks ctx h i ct = Inr pt \<Longrightarrow> i < oc_chunk_count ctx \<Longrightarrow> oc_ok ctx \<Longrightarrow> length pt = clen ctx (unat i)"
  by (auto simp: decrypt_chunk_def clen_def res_iff split: if_splits)

text \<open>What a stored chunk changes.\<close>

lemma note_verified_eff: "note_verified i s = Some (Inr x, s') \<Longrightarrow> \<exists>d. s' = s\<lparr>v_db := d\<rparr>"
  by (cases s) (auto simp: note_verified_def split: option.splits sum.splits prod.splits)

lemma note_written_eff: "note_written C env k i s = Some (Inr x, s') \<Longrightarrow> \<exists>d dk. s' = s\<lparr>v_db := d, v_disk := dk\<rparr>"
  by (cases s) (auto simp: note_written_def split: option.splits bind_splits sum.splits)

lemma note_have_eff:
  "note_have i s = Some (Inr x, s') \<Longrightarrow>
    \<exists>changed bm. bm_set (v_have s) i = Inr (changed, bm) \<and> s' = s\<lparr>v_have := bm, v_received := v_received s + 1\<rparr>"
  by (auto simp: note_have_def split: sum.splits)

lemma a_poll_eff: "a_poll tid seen s = Some (Inr x, s') \<Longrightarrow> \<exists>w q. s' = s\<lparr>s_watch := w, s_events := q\<rparr>"
  by (auto simp: a_poll_def split: prod.splits)

lemma write_chunk_eff:
  "write_chunk env p k i pt s = Some (Inr x, s') \<Longrightarrow> \<exists>dk.
    s' = s\<lparr>v_file := Some (write_at (unat (i * ucast (chunk_plaintext_size (rp_ctx p)))) pt (content s)), v_disk := dk\<rparr>"
  by (auto simp: write_chunk_def Let_def act_iff split: option.splits)

lemma content_simps [simp]:
  "content (s\<lparr>v_file := Some f\<rparr>) = f" "content (s\<lparr>v_disk := dk\<rparr>) = content s" "content (s\<lparr>v_db := d\<rparr>) = content s"
  "content (s\<lparr>v_have := b\<rparr>) = content s" "content (s\<lparr>v_received := r\<rparr>) = content s" "content (s\<lparr>s_events := q\<rparr>) = content s"
  "content (s\<lparr>v_streaming := st\<rparr>) = content s" "content (s\<lparr>v_verified_bytes := vb\<rparr>) = content s" "content (s\<lparr>s_watch := w\<rparr>) = content s"
  "content (s\<lparr>s_control := ch\<rparr>) = content s" "content (s\<lparr>s_reads := k\<rparr>) = content s" "content (s\<lparr>s_in := i\<rparr>) = content s"
  "content (s\<lparr>s_out := i\<rparr>) = content s"
  by (simp_all add: content_def)

lemma store_chunk_eff:
  assumes "store_chunk C env p i pt s = Some (Inr (), s')"
  shows "\<exists>changed. v_file s' = Some (write_at (unat (i * ucast (chunk_plaintext_size (rp_ctx p)))) pt (content s)) \<and>
    bm_set (v_have s) i = Inr (changed, v_have s') \<and> v_received s' = v_received s + 1 \<and>
    v_streaming s' = hash_in_order i pt (v_streaming s) \<and> v_verified_bytes s' = v_verified_bytes s + of_nat (length pt)"
  using assms
  by (auto simp: store_chunk_def Let_def act_iff a_event_def
      dest!: note_verified_eff note_have_eff note_written_eff a_poll_eff write_chunk_eff)

lemma store_chunk_inv:
  assumes run: "store_chunk C env p i pt s = Some (Inr (), s')" and inv: "recv_inv p s"
    and i: "i < oc_chunk_count (rp_ctx p)" and pt: "length pt = clen (rp_ctx p) (unat i)"
  shows "recv_inv p s'"
proof -
  let ?c = "rp_ctx p" and ?size = "unat (encoded_plaintext_size (rp_ctx p))"
  obtain changed where eff: "v_file s' = Some (write_at (unat (i * ucast (chunk_plaintext_size ?c))) pt (content s))"
    "bm_set (v_have s) i = Inr (changed, v_have s')" "v_streaming s' = hash_in_order i pt (v_streaming s)"
    using store_chunk_eff [OF run] by blast
  have ok: "oc_ok ?c" and bm: "bm_ok (v_have s)" "chunk_count (v_have s) = oc_chunk_count ?c" and len: "length (content s) = ?size"
    using inv by (simp_all add: recv_inv_def)
  note pos = chunk_pos [OF ok i]
  have le: "upto_chunk ?c (Suc (unat i)) \<le> ?size" by (simp add: upto_chunk_def)
  have c': "content s' = write_at (upto_chunk ?c (unat i)) pt (content s)" using eff(1) pos(1,2) by (simp add: content_def)
  have tk: "take (upto_chunk ?c (Suc (unat i))) (content s') = take (upto_chunk ?c (unat i)) (content s) @ pt"
    using take_write_at [of "upto_chunk ?c (unat i)" "content s" pt] len pt pos(3) le by (simp add: c')
  have "next + 1 \<le> oc_chunk_count ?c \<and> h @ pt = take (upto_chunk ?c (unat (next + 1))) (content s')"
    if "v_streaming s = Some (h, next)" "next = i" for h "next"
  proof -
    have u: "unat i + 1 < 2 ^ 64" using i unat_u64_less [of "oc_chunk_count ?c"] by (simp add: word_less_nat_alt)
    then have "unat (i + 1) = Suc (unat i)" by (simp add: unat_add)
    with that inv tk i show ?thesis by (auto simp: recv_inv_def word_le_nat_alt word_less_nat_alt)
  qed
  then have "case v_streaming s' of None \<Rightarrow> True
      | Some (h, next) \<Rightarrow> next \<le> oc_chunk_count ?c \<and> h = take (upto_chunk ?c (unat next)) (content s')"
    by (auto simp: eff(3) hash_in_order_def split: option.splits)
  moreover have "length (content s') = ?size"
    using len pt pos(3) le by (simp add: c' length_write_at)
  ultimately show ?thesis
    using ok held_set [OF bm(1) eff(2)] bm(2) eff(1) by (simp add: recv_inv_def)
qed

lemma chunk_step_cases:
  assumes "chunk_step C env p payload s = Some (Inr (), s')"
  obtains (dup) "s' = s"
  | (store) i siblings ct pt where "decode_chunk_record payload = Inr (i, siblings, ct)" "i < oc_chunk_count (rp_ctx p)"
      "i \<notin> held (v_have s)"
      "verify_proof (blake3 C) (leaf_hash (blake3 C) i ct) i (oc_chunk_count (rp_ctx p)) siblings (rp_root p) = Some (Inr ())"
      "decrypt_chunk C (rp_schedule p) (rp_ctx p) (rp_ctx_hash p) i ct = Inr pt" "store_chunk C env p i pt s = Some (Inr (), s')"
proof -
  obtain i siblings ct where d: "decode_chunk_record payload = Inr (i, siblings, ct)"
    using assms by (auto simp: chunk_step_def Let_def act_iff)
  show thesis
  proof (cases "bm_get (v_have s) i = Inr True")
    case True
    with assms d have "s' = s" by (auto simp: chunk_step_def Let_def act_iff)
    then show thesis by (rule dup)
  next
    case False
    with assms d obtain pt where "i < oc_chunk_count (rp_ctx p)"
      "verify_proof (blake3 C) (leaf_hash (blake3 C) i ct) i (oc_chunk_count (rp_ctx p)) siblings (rp_root p) = Some (Inr ())"
      "decrypt_chunk C (rp_schedule p) (rp_ctx p) (rp_ctx_hash p) i ct = Inr pt" "store_chunk C env p i pt s = Some (Inr (), s')"
      by (auto simp: chunk_step_def Let_def act_iff not_le)
    with d False show thesis by (intro store) (simp_all add: held_def)
  qed
qed

lemma chunk_step_inv:
  assumes "chunk_step C env p payload s = Some (Inr (), s')" and "recv_inv p s"
  shows "recv_inv p s'"
  using assms(1)
proof (cases rule: chunk_step_cases)
  case (store i siblings ct pt)
  have "length pt = clen (rp_ctx p) (unat i)"
    using decrypt_chunk_len store assms(2) by (auto simp: recv_inv_def)
  with store_chunk_inv store assms(2) show ?thesis by blast
qed (use assms(2) in simp)

text \<open>An invariant of every stored chunk holds at the end of the loop.\<close>

lemma recv_loop_induct:
  assumes "recv_loop C env p s = Some (Inr (), s')" and "P s"
    and recv: "\<And>s ch k rest. P s \<Longrightarrow> P (s\<lparr>s_control := ch, s_reads := k, s_in := rest\<rparr>)"
    and step: "\<And>payload s s'. P s \<Longrightarrow> chunk_step C env p payload s = Some (Inr (), s') \<Longrightarrow> P s'"
  shows "P s'"
  using assms(1,2) step
proof (induction C env p s rule: recv_loop.induct)
  case (1 C env p s)
  obtain t payload s1 where r: "a_recv C (rv_in_time env) s = Some (Inr (t, payload), s1)"
    using 1(2) by (auto simp: recv_loop.simps [of C env p s] split: option.splits sum.splits)
  then obtain ch k rest where "s1 = s\<lparr>s_control := ch, s_reads := k, s_in := rest\<rparr>"
    by (auto simp: a_recv_def split: sum.splits prod.splits)
  with 1(3) recv have p1: "P s1" by simp
  show ?case
  proof (cases "t = FRAME_CHUNK")
    case True
    then obtain s2 where c: "chunk_step C env p payload s1 = Some (Inr (), s2)"
      using 1(2) r by (auto simp: recv_loop.simps [of C env p s] split: option.splits sum.splits)
    then have "recv_loop C env p s2 = Some (Inr (), s')" using 1(2) r True by (simp add: recv_loop.simps [of C env p s])
    then show ?thesis using 1(1) [OF r refl refl refl True c] 1(4) [OF p1 c] 1(4) by simp
  next
    case False
    then have "s' = s1" using 1(2) r by (simp add: recv_loop.simps [of C env p s] split: if_splits)
    with p1 show ?thesis by simp
  qed
qed

section \<open>What an accepted offer says\<close>

lemma open_offer_envelope_iff:
  "open_offer_envelope C now identity session offer s = Some (Inr secrets, s') \<longleftrightarrow> s' = s \<and>
    (\<exists>entry opened. envelope_for offer (id_device_id identity) = Some entry \<and>
      open_envelope_at C \<lparr>se_nonce = ke_nonce entry, se_ciphertext = ke_ciphertext entry\<rparr> (sk_transfer_wrap_key session) now = Inr opened \<and>
      oe_sender_device_id opened = dp_device_id (sk_peer session) \<and> oe_recipient_device_id opened = id_device_id identity \<and>
      secrets = oe_secrets opened)"
  by (auto simp: open_offer_envelope_def act_iff res_iff)

lemma match_manifests_iff:
  "match_manifests C identity session offer public secrets s = Some (Inr (object_public, private), s') \<longleftrightarrow> s' = s \<and>
    pm_transfer_id public = fs_transfer_id secrets \<and> pm_primary public = Some object_public \<and>
    op_object_id object_public = fs_object_id secrets \<and>
    open_private_manifest C (of_sealed_manifest offer) (ks_manifest_key (key_schedule C secrets)) (fs_transfer_id secrets)
      (fs_object_id secrets) (dp_device_id (sk_peer session)) (rs_device (id_device_id identity)) = Some (Inr private) \<and>
    length (pv_objects private) = length (pm_objects public) \<and>
    (\<exists>first rest. pv_objects private = first # rest \<and>
      ov_object_id first = op_object_id object_public \<and> ov_object_role first = op_object_role object_public)"
  by (cases "pv_objects private") (auto simp: match_manifests_def act_iff res_iff)

lemma object_of_offer_iff:
  "object_of_offer C secrets object_public private s = Some (Inr ctx, s') \<longleftrightarrow> s' = s \<and>
    (\<exists>chunk_size. chunk_plaintext_size_from_ciphertext (op_chunk_ciphertext_size object_public) = Inr chunk_size \<and>
      for_file (fs_transfer_id secrets) (fs_object_id secrets) (pv_logical_plaintext_size private) chunk_size = Inr ctx) \<and>
    oc_chunk_count ctx = op_chunk_count object_public \<and> padding_policy ctx = op_padding_policy object_public \<and>
    object_role ctx = op_object_role object_public"
  by (auto simp: object_of_offer_def act_iff)

lemmas offer_iff = open_offer_envelope_iff match_manifests_iff object_of_offer_iff

lemma accept_offer_iff:
  "accept_offer C K now identity session frame s = Some (Inr p, s') \<longleftrightarrow> s' = s \<and>
    (\<exists>offer public object_public private. offer_decode frame = Inr offer \<and>
      dp_device_id (of_sender_device offer) = dp_device_id (sk_peer session) \<and>
      offer_verify C K offer (rs_device (id_device_id identity)) now = Some (Inr public) \<and>
      open_offer_envelope C now identity session offer s = Some (Inr (rp_secrets p), s) \<and>
      match_manifests C identity session offer public (rp_secrets p) s = Some (Inr (object_public, private), s) \<and>
      object_of_offer C (rp_secrets p) object_public private s = Some (Inr (rp_ctx p), s) \<and>
      context_hash C (rp_ctx p) = Some (rp_ctx_hash p) \<and> offer_manifest_commitment C offer = Some (Inr (rp_commitment p)) \<and>
      rp_schedule p = key_schedule C (rp_secrets p) \<and>
      rp_root p = op_ciphertext_root object_public \<and> rp_expected_digest p = pv_plaintext_digest private \<and>
      rp_chunk_ciphertext_size p = op_chunk_ciphertext_size object_public)"
  (is "?l \<longleftrightarrow> ?r")
proof
  assume ?l
  then obtain offer public secrets object_public "private" ctx ctx_hash commitment s1 s2 s3 where
    "offer_decode frame = Inr offer" "dp_device_id (of_sender_device offer) = dp_device_id (sk_peer session)"
    "offer_verify C K offer (rs_device (id_device_id identity)) now = Some (Inr public)"
    and st: "open_offer_envelope C now identity session offer s = Some (Inr secrets, s1)"
    "match_manifests C identity session offer public secrets s1 = Some (Inr (object_public, private), s2)"
    "object_of_offer C secrets object_public private s2 = Some (Inr ctx, s3)"
    and "context_hash C ctx = Some ctx_hash" "offer_manifest_commitment C offer = Some (Inr commitment)" "s' = s3"
    and p: "p = \<lparr>rp_secrets = secrets, rp_ctx = ctx, rp_ctx_hash = ctx_hash, rp_schedule = key_schedule C secrets,
         rp_root = op_ciphertext_root object_public, rp_expected_digest = pv_plaintext_digest private, rp_commitment = commitment,
         rp_chunk_ciphertext_size = op_chunk_ciphertext_size object_public\<rparr>"
    by (auto simp: accept_offer_def act_iff)
  moreover from st have "s1 = s" "s2 = s" "s3 = s" by (auto simp: offer_iff)
  ultimately show ?r by (intro conjI exI [of _ offer] exI [of _ public] exI [of _ object_public] exI [of _ "private"]) simp_all
next
  assume ?r
  then show ?l by (cases p) (fastforce simp: accept_offer_def act_iff)
qed

lemma accept_offer_object:
  assumes "accept_offer C K now identity session frame s = Some (Inr p, s')"
  shows "s' = s" and "oc_ok (rp_ctx p)"
  using assms for_file_ok by (auto simp: accept_offer_iff object_of_offer_iff)

section \<open>The end of a receive\<close>

lemma db_open_bitmaps:
  assumes "db_open C stored identity path = Inr (db, resumed)"
  shows "bm_ok (re_durable (db_record db)) \<and> chunk_count (re_durable (db_record db)) = oi_chunk_count identity"
proof -
  have fresh: "bm_ok (re_durable r) \<and> chunk_count (re_durable r) = oi_chunk_count identity" if "re_new identity path = Inr r" for r
    using that held_new by (auto simp: re_new_def res_iff)
  have read: "bm_ok (re_durable r) \<and> chunk_count (re_durable r) = oi_chunk_count (re_identity r)" if "re_decode C bs = Inr r" for r bs
    using that decode_rle_ok by (auto simp: re_decode_def re_decode_body_def Let_def res_iff split: if_splits)
  show ?thesis
    using assms fresh read by (auto simp: db_open_def res_iff oi_matches_def split: option.splits sum.splits if_splits)
qed

lemma open_object_inv:
  assumes "open_object C env p s = Some (Inr (), s1)" and "oc_ok (rp_ctx p)"
  shows "recv_inv p (s1\<lparr>v_streaming := Some ([], 0)\<rparr>)"
proof -
  obtain d "file" bm where s1: "s1 = s\<lparr>v_db := d, v_file := Some (set_len (unat (logical_plaintext_size (rp_ctx p))) file), v_have := bm\<rparr>"
    and bm: "case d of Some db \<Rightarrow> bm = re_durable (db_record db) | None \<Rightarrow> bm_new (oc_chunk_count (rp_ctx p)) = Inr bm"
    and d: "d = None \<or> (\<exists>db r. d = Some db \<and> db_open C (rv_stored env) (identity_of p) (rv_dest env) = Inr (db, r))"
    using assms(1) by (auto simp: open_object_def open_record_def first_have_def act_iff split: if_splits option.splits)
  have "bm_ok bm \<and> chunk_count bm = oc_chunk_count (rp_ctx p)"
    using bm d db_open_bitmaps [of C "rv_stored env" "identity_of p" "rv_dest env"] held_new
    by (auto simp: identity_of_def split: option.splits)
  then show ?thesis using assms(2) by (simp add: recv_inv_def s1 oc_ok_def content_def)
qed

lemma begin_receive_eff:
  "begin_receive p s = Some (Inr (), s') \<Longrightarrow>
    \<exists>q vb r. s' = s\<lparr>v_streaming := Some ([], 0), v_verified_bytes := vb, v_received := r, s_events := q\<rparr>"
  by (auto simp: begin_receive_def a_event_def act_iff)

lemma a_send_eff: "a_send C tx t m s = Some (Inr (), s') \<Longrightarrow> \<exists>ch out. s' = s\<lparr>s_control := ch, s_out := out\<rparr>"
  by (auto simp: a_send_def split: sum.splits prod.splits bind_splits)

lemma recv_inv_simps [simp]:
  "recv_inv p (s\<lparr>s_control := ch\<rparr>) = recv_inv p s" "recv_inv p (s\<lparr>s_reads := k\<rparr>) = recv_inv p s"
  "recv_inv p (s\<lparr>s_in := i\<rparr>) = recv_inv p s" "recv_inv p (s\<lparr>s_out := i\<rparr>) = recv_inv p s"
  "recv_inv p (s\<lparr>s_events := q\<rparr>) = recv_inv p s" "recv_inv p (s\<lparr>v_verified_bytes := vb\<rparr>) = recv_inv p s"
  "recv_inv p (s\<lparr>v_received := r\<rparr>) = recv_inv p s" "recv_inv p (s\<lparr>v_disk := dk\<rparr>) = recv_inv p s"
  "recv_inv p (s\<lparr>v_db := d\<rparr>) = recv_inv p s"
  by (simp_all add: recv_inv_def split: option.splits)

lemma check_complete_eff:
  "check_complete C env s = Some (Inr (), s') \<Longrightarrow> is_complete (v_have s) \<and> (\<exists>dk. s' = s\<lparr>v_disk := dk\<rparr>)"
  by (auto simp: check_complete_def act_iff sync_file_def split: if_splits sum.splits prod.splits)

lemma object_digest_eq:
  assumes "object_digest C env p s = Some (Inr d, s')" and "recv_inv p s"
  shows "s' = s \<and> d = blake3 C (content s)"
  using assms upto_chunk_all [of "rp_ctx p"]
  by (auto simp: object_digest_def act_iff recv_inv_def split: option.splits if_splits)

lemma check_digest_eff:
  "check_digest env p d s = Some (Inr (), s') \<Longrightarrow> d = rp_expected_digest p \<and> (\<exists>db dk. s' = s\<lparr>v_db := db, v_disk := dk\<rparr>)"
  by (cases s) (auto simp: check_digest_def drop_record_def act_iff split: if_splits option.splits sum.splits prod.splits)

lemma finish_receive_eff:
  "finish_receive C env p d s = Some (Inr (), s') \<Longrightarrow> \<exists>q ch out. s' = s\<lparr>s_events := q, s_control := ch, s_out := out\<rparr>"
  by (auto simp: finish_receive_def act_iff a_event_def dest!: a_send_eff)

lemma receive_body_sound:
  assumes "receive_body C env p s = Some (Inr digest, s')" and ok: "oc_ok (rp_ctx p)"
  shows "\<exists>file. v_file s' = Some file \<and> length file = unat (encoded_plaintext_size (rp_ctx p)) \<and> digest = blake3 C file \<and>
    digest = rp_expected_digest p"
proof -
  obtain s1 s2 s3 s4 s5 s6 s7 where op: "open_object C env p s = Some (Inr (), s1)" and ask: "ask_missing C env p s1 = Some (Inr (), s2)"
    and bg: "begin_receive p s2 = Some (Inr (), s3)" and lp: "recv_loop C env p s3 = Some (Inr (), s4)"
    and cc: "check_complete C env s4 = Some (Inr (), s5)" and od: "object_digest C env p s5 = Some (Inr digest, s6)"
    and cd: "check_digest env p digest s6 = Some (Inr (), s7)" and fin: "finish_receive C env p digest s7 = Some (Inr (), s')"
    using assms(1) by (auto simp: receive_body_def act_iff)
  have "recv_inv p s3"
    using open_object_inv [OF op ok] ask bg by (auto simp: ask_missing_def act_iff recv_inv_def content_def dest!: begin_receive_eff a_send_eff)
  then have "recv_inv p s4"
    by (rule recv_loop_induct [OF lp]) (auto intro: chunk_step_inv)
  then have s5: "recv_inv p s5" using check_complete_eff [OF cc] by auto
  note d = object_digest_eq [OF od s5]
  have "v_file s' = v_file s5" "digest = rp_expected_digest p"
    using d check_digest_eff [OF cd] finish_receive_eff [OF fin] by auto
  with s5 d show ?thesis by (auto simp: recv_inv_def content_def)
qed

end
