(* ===== verification/Rtp_Delivery.thy ===== *)
theory Rtp_Delivery
  imports Rtp_Receiver Rtp_Sender
begin

text \<open>
  A receive that meets no failure: the sender's records are taken one by one, the destination ends up with the file, and the object is
  acknowledged. Also how it starts, from nothing or from a resume record.
\<close>


lemma bd_run: "m s = Some (Inr x, s1) \<Longrightarrow> bd m f s = f x s1"
  by (simp add: bd_def)

section \<open>A receive that meets no failure\<close>

definition commit_ok :: "commit_io \<Rightarrow> bool" where
  "commit_ok io \<longleftrightarrow> io_create io \<and> io_write io \<and> io_sync io \<and> io_rename io"

definition calm_recv :: "route_policy \<Rightarrow> recv_env \<Rightarrow> bool" where
  "calm_recv pol env \<longleftrightarrow> rv_stream env = Ready () \<and> (\<forall>n. rv_wire env n = Taken) \<and> rv_open env \<and> rv_set_len env \<and> (\<forall>k. rv_in_time env k) \<and> (\<forall>k. rv_write env k = None) \<and>
    (\<forall>k. rv_sync env k) \<and> (\<forall>k. commit_ok (rv_commit env k)) \<and> (\<forall>k. admits pol (snd (rv_poll env k))) \<and> rv_final_sync env \<and>
    rv_readback env \<and> rv_remove_record env \<noteq> RemoveFailed"

definition db_good :: "u64 \<Rightarrow> resume_db \<Rightarrow> bool" where
  "db_good n db \<longleftrightarrow> bm_ok (re_verified (db_record db)) \<and> chunk_count (re_verified (db_record db)) = n \<and>
    bm_ok (re_durable (db_record db)) \<and> chunk_count (re_durable (db_record db)) = n"

text \<open>Every chunk held is the file's.\<close>

definition recv_good :: "recv_params \<Rightarrow> bytes \<Rightarrow> route_policy \<Rightarrow> recv_state \<Rightarrow> bool" where
  "recv_good p file pol s \<longleftrightarrow> recv_inv p s \<and>
    (\<forall>i \<in> held (v_have s). slice (rp_ctx p) (content s) (unat i) = slice (rp_ctx p) file (unat i)) \<and>
    (case v_db s of None \<Rightarrow> True | Some db \<Rightarrow> db_good (oc_chunk_count (rp_ctx p)) db) \<and> ra_policy (rw_admission (s_watch s)) = pol"

lemma re_encode_total: "\<exists>bs. re_encode C r = Some bs"
proof -
  have rle: "\<exists>e. encode_rle bm = Some e" for bm using encode_loop_total by (auto simp: encode_rle_def)
  obtain v d where "encode_rle (re_verified r) = Some v" "encode_rle (re_durable r) = Some d" using rle by blast
  then show ?thesis by (simp add: re_encode_def re_body_def mw_simps)
qed

lemma bm_set_in_range: "bm_ok bm \<Longrightarrow> i < chunk_count bm \<Longrightarrow> \<exists>ch bm'. bm_set bm i = Inr (ch, bm')"
  by (cases "bm_set bm i") (auto dest: set_refused)

lemma checkpoint_ok:
  assumes "commit_ok io"
  shows "\<exists>dk'. checkpoint C db io dk = Some (Inr (), db\<lparr>db_pending := 0\<rparr>, dk')"
  using assms re_encode_total [of C "db_record db"] by (auto simp: checkpoint_def commit_ok_def)

lemma chunk_written_ok:
  assumes "db_good n db" and "i < n" and "commit_ok io"
  shows "\<exists>db' dk'. chunk_written C db i True io dk = Some (Inr (), db', dk') \<and> db_good n db'"
proof -
  obtain ch bm where s: "bm_set (re_durable (db_record db)) i = Inr (ch, bm)"
    using assms(1,2) bm_set_in_range [of "re_durable (db_record db)" i] by (auto simp: db_good_def)
  have bm: "bm_ok bm \<and> chunk_count bm = n" using held_set [OF _ s] assms(1) by (auto simp: db_good_def)
  define db1 where "db1 = (let db = db\<lparr>db_record := (db_record db)\<lparr>re_durable := bm\<rparr>\<rparr>
      in if ch then db\<lparr>db_pending := db_pending db + 1\<rparr> else db)"
  have g: "db_good n db1" "db_good n (db1\<lparr>db_pending := 0\<rparr>)"
    using assms(1) bm by (simp_all add: db1_def db_good_def Let_def)
  obtain dk1 where dk1: "sync_data True dk = (Inr (), dk1)" by (simp add: sync_data_def)
  obtain dk' where cp: "checkpoint C db1 io dk1 = Some (Inr (), db1\<lparr>db_pending := 0\<rparr>, dk')" using checkpoint_ok [OF assms(3)] by blast
  have "chunk_written C db i True io dk = (if db_pending db1 < db_checkpoint_interval db1 then Some (Inr (), db1, dk)
      else checkpoint C db1 io dk1)"
    unfolding chunk_written_def s by (simp add: db1_def Let_def dk1)
  with cp g show ?thesis by simp
qed

lemma mark_verified_ok: "db_good n db \<Longrightarrow> i < n \<Longrightarrow> \<exists>db'. mark_verified db i = (Inr (), db') \<and> db_good n db'"
proof -
  assume g: "db_good n db" and i: "i < n"
  obtain ch bm where s: "bm_set (re_verified (db_record db)) i = Inr (ch, bm)"
    using g i bm_set_in_range [of "re_verified (db_record db)" i] by (auto simp: db_good_def)
  have "bm_ok bm \<and> chunk_count bm = n" using held_set [OF _ s] g by (auto simp: db_good_def)
  with g show ?thesis by (simp add: mark_verified_def s db_good_def)
qed

lemma slice_write:
  assumes ok: "oc_ok c" and i: "i < unat (oc_chunk_count c)" and j: "j < unat (oc_chunk_count c)"
    and len: "length f = unat (encoded_plaintext_size c)" and pt: "length pt = clen c i"
  shows "slice c (write_at (upto_chunk c i) pt f) j = (if j = i then pt else slice c f j)"
proof -
  note pi = chunk_posn [OF ok i] and pj = chunk_posn [OF ok j]
  have le: "upto_chunk c (Suc i) \<le> length f" "upto_chunk c (Suc j) \<le> length f" by (simp_all add: upto_chunk_def len)
  have w: "write_at (upto_chunk c i) pt f = take (upto_chunk c i) f @ pt @ drop (upto_chunk c (Suc i)) f"
    using pi le pt by (simp add: write_at_def)
  consider "j = i" | "Suc j \<le> i" | "Suc i \<le> j" by linarith
  then show ?thesis
  proof cases
    case 1
    then show ?thesis using pi le pt by (simp add: slice_def w)
  next
    case 2
    then have "upto_chunk c (Suc j) \<le> upto_chunk c i" by (rule upto_chunk_mono)
    with 2 pj pi le show ?thesis by (simp add: slice_def w drop_take)
  next
    case 3
    then have "upto_chunk c (Suc i) \<le> upto_chunk c j" by (rule upto_chunk_mono)
    with 3 pi pj le pt show ?thesis by (simp add: slice_def w)
  qed
qed

lemma note_verified_ok:
  assumes "case v_db s of None \<Rightarrow> True | Some db \<Rightarrow> db_good n db" and "i < n"
  shows "\<exists>d. note_verified i s = Some (Inr (), s\<lparr>v_db := d\<rparr>) \<and> (case d of None \<Rightarrow> True | Some db \<Rightarrow> db_good n db)"
proof (cases "v_db s")
  case None
  then show ?thesis by (intro exI [of _ None]) (cases s, simp add: note_verified_def)
next
  case (Some db)
  then obtain db' where "mark_verified db i = (Inr (), db')" "db_good n db'" using assms mark_verified_ok by fastforce
  with Some show ?thesis by (intro exI [of _ "Some db'"]) (simp add: note_verified_def)
qed

lemma note_written_ok:
  assumes "case v_db s of None \<Rightarrow> True | Some db \<Rightarrow> db_good n db" and "i < n" and "calm_recv pol env"
  shows "\<exists>d dk. note_written C env k i s = Some (Inr (), s\<lparr>v_db := d, v_disk := dk\<rparr>) \<and> (case d of None \<Rightarrow> True | Some db \<Rightarrow> db_good n db)"
proof (cases "v_db s")
  case None
  then show ?thesis by (intro exI [of _ None] exI [of _ "v_disk s"]) (cases s, simp add: note_written_def)
next
  case (Some db)
  have "rv_sync env k" "commit_ok (rv_commit env k)" using assms(3) by (simp_all add: calm_recv_def)
  then obtain db' dk' where "chunk_written C db i (rv_sync env k) (rv_commit env k) (v_disk s) = Some (Inr (), db', dk')" "db_good n db'"
    using assms(1,2) Some chunk_written_ok [of n db i "rv_commit env k" C "v_disk s"] by auto
  with Some show ?thesis by (intro exI [of _ "Some db'"] exI [of _ dk']) (simp add: note_written_def)
qed

lemma store_chunk_ok:
  assumes calm: "calm_recv pol env" and good: "recv_good p file pol s" and i: "i < oc_chunk_count (rp_ctx p)"
    and len: "length file = unat (encoded_plaintext_size (rp_ctx p))"
  defines "pt \<equiv> slice (rp_ctx p) file (unat i)"
  shows "\<exists>s'. store_chunk C env p i pt s = Some (Inr (), s') \<and> recv_good p file pol s' \<and>
    held (v_have s') = insert i (held (v_have s)) \<and> s_in s' = s_in s \<and> s_control s' = s_control s \<and> s_out s' = s_out s"
proof -
  let ?c = "rp_ctx p" and ?k = "unat (v_received s)"
  have inv: "recv_inv p s" and ok: "oc_ok ?c" and bm: "bm_ok (v_have s)" "chunk_count (v_have s) = oc_chunk_count ?c"
    and len_s: "length (content s) = unat (encoded_plaintext_size ?c)"
    and db: "case v_db s of None \<Rightarrow> True | Some db \<Rightarrow> db_good (oc_chunk_count ?c) db" and pol: "ra_policy (rw_admission (s_watch s)) = pol"
    using good by (simp_all add: recv_good_def recv_inv_def)
  have ni: "unat i < unat (oc_chunk_count ?c)" using i by (simp add: word_less_nat_alt)
  have plen: "length pt = clen ?c (unat i)" unfolding pt_def by (rule length_slice [OF ok ni len])
  obtain dk1 where w: "write_chunk env p ?k i pt s = Some (Inr (), s\<lparr>v_file := Some (write_at (upto_chunk ?c (unat i)) pt (content s)), v_disk := dk1\<rparr>)"
    using calm chunk_pos [OF ok i] by (simp add: write_chunk_def calm_recv_def upd_def)
  define s1 where "s1 = s\<lparr>v_file := Some (write_at (upto_chunk ?c (unat i)) pt (content s)), v_disk := dk1\<rparr>"
  obtain d1 where v: "note_verified i s1 = Some (Inr (), s1\<lparr>v_db := d1\<rparr>)" "case d1 of None \<Rightarrow> True | Some db \<Rightarrow> db_good (oc_chunk_count ?c) db"
    using note_verified_ok [where s = s1, OF _ i] db by (auto simp: s1_def)
  define s2 where "s2 = s1\<lparr>v_db := d1\<rparr>"
  obtain ch b where b: "bm_set (v_have s) i = Inr (ch, b)" using bm_set_in_range [OF bm(1), of i] i bm(2) by auto
  define s3 where "s3 = s2\<lparr>v_have := b, v_received := v_received s2 + 1\<rparr>"
  have h: "note_have i s2 = Some (Inr (), s3)" using b by (simp add: note_have_def s2_def s1_def s3_def)
  obtain w4 q4 where p4: "a_poll (fs_transfer_id (rp_secrets p)) (rv_poll env ?k) s3 = Some (Inr (), s3\<lparr>s_watch := w4, s_events := q4\<rparr>)"
    "rw_admission w4 = rw_admission (s_watch s)"
    using a_poll_ok [of s3 "rv_poll env ?k" "fs_transfer_id (rp_secrets p)"] calm pol by (auto simp: s3_def s2_def s1_def calm_recv_def)
  define s4 where "s4 = s3\<lparr>s_watch := w4, s_events := q4\<rparr>"
  define s5 where "s5 = s4\<lparr>v_streaming := hash_in_order i pt (v_streaming s4), v_verified_bytes := v_verified_bytes s4 + of_nat (length pt)\<rparr>"
  define e where "e = TransferProgress (fs_transfer_id (rp_secrets p)) Receiving (v_verified_bytes s5) (encoded_plaintext_size ?c)
    (set_count (v_have s5)) (oc_chunk_count ?c)"
  define s6 where "s6 = s5\<lparr>s_events := push_opt e (s_events s5)\<rparr>"
  obtain d7 dk7 where n7: "note_written C env ?k i s6 = Some (Inr (), s6\<lparr>v_db := d7, v_disk := dk7\<rparr>)"
    "case d7 of None \<Rightarrow> True | Some db \<Rightarrow> db_good (oc_chunk_count ?c) db"
  proof -
    have "v_db s6 = d1" by (simp add: s6_def s5_def s4_def s3_def s2_def)
    with note_written_ok [where s = s6 and C = C and k = ?k, OF _ i calm] v(2) that show thesis by auto
  qed
  have u: "upd (\<lambda>s. s\<lparr>v_streaming := hash_in_order i pt (v_streaming s), v_verified_bytes := v_verified_bytes s + of_nat (length pt)\<rparr>) s4 =
      Some (Inr (), s5)" by (simp add: upd_def s5_def)
  have ev: "a_event e s5 = Some (Inr (), s6)" by (simp add: a_event_eq s6_def)
  define s' where "s' = s6\<lparr>v_db := d7, v_disk := dk7\<rparr>"
  note run = w [folded s1_def] v(1) [folded s2_def] h p4(1) [folded s4_def] u ev n7(1) [folded s'_def]
  have "store_chunk C env p i pt s = Some (Inr (), s')"
    by (simp add: store_chunk_def Let_def bd_def get_st_def run e_def [symmetric])
  moreover have "content s' = write_at (upto_chunk ?c (unat i)) pt (content s)" "v_have s' = b" "v_db s' = d7" "s_watch s' = w4"
    "s_in s' = s_in s" "s_control s' = s_control s" "s_out s' = s_out s"
    by (simp_all add: s'_def s6_def s5_def s4_def s3_def s2_def s1_def)
  moreover have "held b = insert i (held (v_have s))" by (rule held_set(1) [OF bm(1) b])
  moreover have "slice ?c (content s') (unat j) = slice ?c file (unat j)" if "j \<in> insert i (held (v_have s))" for j
  proof -
    have nj: "unat j < unat (oc_chunk_count ?c)"
      using that ni bm by (auto simp: held_eq word_less_nat_alt)
    show ?thesis
      using slice_write [OF ok ni nj len_s plen] that good calculation(2) by (auto simp: recv_good_def pt_def)
  qed
  ultimately show ?thesis
    using store_chunk_inv [of C env p i pt s s'] inv i plen n7(2) p4(2) pol by (auto simp: recv_good_def)
qed

section \<open>The sender's records at the receiver\<close>

definition describes :: "recv_params \<Rightarrow> pending_transfer \<Rightarrow> bool" where
  "describes p pt \<longleftrightarrow> rp_ctx p = pt_ctx pt \<and> rp_ctx_hash p = pt_ctx_hash pt \<and> rp_schedule p = pt_schedule pt \<and> rp_root p = pt_ciphertext_root pt"

lemma encrypt_decrypt:
  assumes C: "aead_ok C" "kdf_lens C" and e: "encrypt_chunk C ks c h i pt = Inr ct"
  shows "decrypt_chunk C ks c h i ct = Inr pt"
proof -
  obtain l where l: "chunk_len c i = Inr l" "length pt = unat l" using e by (auto simp: encrypt_chunk_def res_iff split: if_splits)
  let ?k = "chunk_key C ks i" and ?n = "chunk_nonce C ks i"
    and ?a = "chunk_aad c h i (i * ucast (chunk_plaintext_size c)) l 0"
  have "length ?k = 32" "length ?n = 24" using C(2) by (simp_all add: chunk_key_def chunk_nonce_def Let_def kdf_lensD)
  from aead_okD [OF C(1) this, of ?a pt] obtain ct' where "aead_encrypt C ?k ?n ?a pt = Some ct'" "length ct' = length pt + 16"
    "aead_decrypt C ?k ?n ?a ct' = Some pt" by metis
  with e l show ?thesis by (auto simp: encrypt_chunk_def decrypt_chunk_def Let_def AEAD_TAG_LEN_def)
qed

lemma record_of_decodes:
  assumes C: "aead_ok C" "kdf_lens C" and pt: "prepared C file pt" and p: "describes p pt" and i: "i < oc_chunk_count (pt_ctx pt)"
    and small: "unat (oc_chunk_count (pt_ctx pt)) \<le> 2 ^ 14"
  defines "ct \<equiv> cipher C (pt_schedule pt) (pt_ctx pt) (pt_ctx_hash pt) file (unat i)"
    and "sibs \<equiv> proof_of (blake3 C) (pt_leaves pt) (unat i)"
  shows "decode_chunk_record (record_of C file pt i) = Inr (i, sibs, ct)"
    and "verify_proof (blake3 C) (leaf_hash (blake3 C) i ct) i (oc_chunk_count (rp_ctx p)) sibs (rp_root p) = Some (Inr ())"
    and "decrypt_chunk C (rp_schedule p) (rp_ctx p) (rp_ctx_hash p) i ct = Inr (slice (rp_ctx p) file (unat i))"
    and "chunk_ciphertext_len (rp_ctx p) i = Inr (length ct)"
    and "fits (FRAME_CHUNK, record_of C file pt i)"
proof -
  let ?c = "pt_ctx pt" and ?n = "unat (oc_chunk_count (pt_ctx pt))"
  have ok: "oc_ok ?c" using pt by (rule prepared_ok)
  note len = preparedD(2) [OF pt] and leaves = preparedD(5) [OF pt]
  have n: "unat i < ?n" using i by (simp add: word_less_nat_alt)
  have nl: "length (pt_leaves pt) = ?n" by (simp add: leaves)
  have H: "\<And>x. length (blake3 C x) = 32" using C(2) by (simp add: kdf_lensD)
  have sl: "length sibs \<le> 14"
    using length_proof_of [of "unat i" "pt_leaves pt" "blake3 C"] n nl length_dirs_of [of ?n 14 "unat i"] small by (simp add: sibs_def)
  have so: "list_all step_ok sibs" unfolding sibs_def leaves by (intro proof_of_ok chunk_leaves_ok H)
  have ctl: "length ct = clen ?c (unat i) + 16" unfolding ct_def by (rule encrypt_slice(2) [OF C ok n len])
  have "clen ?c (unat i) \<le> unat (chunk_plaintext_size ?c)" using clen_eq [OF ok n] by simp
  also have "\<dots> \<le> 4194304" using allowed_sizes ok by (auto simp: oc_ok_def)
  finally have cl: "clen ?c (unat i) \<le> 4194304" .
  show "decode_chunk_record (record_of C file pt i) = Inr (i, sibs, ct)"
    using sl so ctl cl by (simp add: decode_chunk_record_iff record_of_def ct_def sibs_def)
  have leaf: "leaf_hash (blake3 C) i ct = pt_leaves pt ! unat i"
    using n by (simp add: leaves nth_chunk_leaves ct_def ciphers_def)
  show "verify_proof (blake3 C) (leaf_hash (blake3 C) i ct) i (oc_chunk_count (rp_ctx p)) sibs (rp_root p) = Some (Inr ())"
    using i n nl p preparedD(6) [OF pt] by (simp add: verify_proof_iff describes_def leaf sibs_def climb_proof_of dirs_proof_of)
  show "decrypt_chunk C (rp_schedule p) (rp_ctx p) (rp_ctx_hash p) i ct = Inr (slice (rp_ctx p) file (unat i))"
    using encrypt_decrypt [OF C encrypt_slice(1) [OF C ok n len]] p by (simp add: describes_def ct_def)
  show "chunk_ciphertext_len (rp_ctx p) i = Inr (length ct)"
    using chunk_len_eq [OF ok i] p ctl by (auto simp: chunk_ciphertext_len_def describes_def clen_def AEAD_TAG_LEN_def)
  have st: "length (step_bytes s) \<le> 59" if "step_ok s" for s
    unfolding step_bytes_def by (rule order_trans, (rule len_app length_enc)+) (use that in \<open>simp add: step_ok_def\<close>)
  have "length (concat (map step_bytes sibs)) \<le> length sibs * 59"
    using so by (intro length_concat_le st) (simp add: list_all_iff)
  then have cat: "length (concat (map step_bytes sibs)) \<le> 826" using sl by simp
  have "length (record_bytes i sibs ct) \<le> 4195400"
    unfolding record_bytes_def by (rule order_trans, (rule len_app length_enc cat)+) (use ctl cl in simp)
  then show "fits (FRAME_CHUNK, record_of C file pt i)"
    by (simp add: fits_def body_limit_def MAX_DATA_BODY_def record_of_def ct_def sibs_def)
qed

lemma chunk_step_ok:
  assumes C: "aead_ok C" "kdf_lens C" and pt: "prepared C file pt" and p: "describes p pt" and i: "i < oc_chunk_count (pt_ctx pt)"
    and small: "unat (oc_chunk_count (pt_ctx pt)) \<le> 2 ^ 14" and calm: "calm_recv pol env" and good: "recv_good p file pol s"
  shows "\<exists>s'. chunk_step C env p (record_of C file pt i) s = Some (Inr (), s') \<and> recv_good p file pol s' \<and>
    held (v_have s') = insert i (held (v_have s)) \<and> s_in s' = s_in s \<and> s_control s' = s_control s \<and> s_out s' = s_out s"
proof (cases "i \<in> held (v_have s)")
  case True
  then have "bm_get (v_have s) i = Inr True" by (simp add: held_def)
  then have "chunk_step C env p (record_of C file pt i) s = Some (Inr (), s)"
    using i p record_of_decodes(1) [OF C pt p i small]
    by (simp add: chunk_step_def Let_def bd_def lift_res_def fail_if_def get_st_def ret_def describes_def not_le)
  with good True show ?thesis by auto
next
  case False
  note r = record_of_decodes [OF C pt p i small]
  have "length file = unat (encoded_plaintext_size (rp_ctx p))" using preparedD(2) [OF pt] p by (simp add: describes_def)
  with store_chunk_ok [OF calm good, of i C] i p obtain s' where s': "store_chunk C env p i (slice (rp_ctx p) file (unat i)) s = Some (Inr (), s')"
    "recv_good p file pol s'" "held (v_have s') = insert i (held (v_have s))" "s_in s' = s_in s" "s_control s' = s_control s" "s_out s' = s_out s"
    by (auto simp: describes_def)
  have "chunk_step C env p (record_of C file pt i) s = Some (Inr (), s')"
    using i p False r s'(1)
    by (simp add: chunk_step_def Let_def bd_def lift_res_def lift_both_def lift_opt_def fail_if_def get_st_def describes_def not_le held_def)
  with s' show ?thesis by blast
qed

lemma recv_loop_ok:
  assumes C: "aead_ok C" "kdf_lens C" and pt: "prepared C file pt" and p: "describes p pt"
    and small: "unat (oc_chunk_count (pt_ctx pt)) \<le> 2 ^ 14" and calm: "calm_recv pol env"
  shows "list_all (\<lambda>i. i < oc_chunk_count (pt_ctx pt)) is \<Longrightarrow> recv_good p file pol s \<Longrightarrow>
    recv_frames C (s_control s) (Suc (length is)) (s_in s) =
      Some (map (\<lambda>i. (FRAME_CHUNK, record_of C file pt i)) is @ [(FRAME_STREAM_END, [])], rest, ch) \<Longrightarrow>
    \<exists>s'. recv_loop C env p s = Some (Inr (), s') \<and> recv_good p file pol s' \<and> held (v_have s') = set is \<union> held (v_have s) \<and>
      s_in s' = rest \<and> s_control s' = ch \<and> s_out s' = s_out s"
proof (induction "is" arbitrary: s)
  case Nil
  have t: "rv_in_time env (s_reads s)" using calm by (simp add: calm_recv_def)
  from Nil have "recv_frame C (s_control s) True (s_in s) = (Inr ((FRAME_STREAM_END, []), rest), ch)"
    by (auto split: prod.splits sum.splits)
  from a_recv_eq [OF this, of "rv_in_time env", OF t] Nil(2) show ?case
    by (simp add: recv_loop.simps [of C env p s] FRAME_STREAM_END_def FRAME_CHUNK_def recv_good_def)
next
  case (Cons i "is")
  obtain ch1 rest1 where f: "recv_frame C (s_control s) True (s_in s) = (Inr ((FRAME_CHUNK, record_of C file pt i), rest1), ch1)"
    and fs: "recv_frames C ch1 (Suc (length is)) rest1 =
      Some (map (\<lambda>i. (FRAME_CHUNK, record_of C file pt i)) is @ [(FRAME_STREAM_END, [])], rest, ch)"
    using Cons.prems(3) by (auto simp del: recv_frames.simps simp: recv_frames.simps(2) [of C "s_control s" "Suc (length is)"] split: prod.splits sum.splits)
  have t: "rv_in_time env (s_reads s)" using calm by (simp add: calm_recv_def)
  define s1 where "s1 = s\<lparr>s_control := ch1, s_reads := Suc (s_reads s), s_in := rest1\<rparr>"
  note rc = a_recv_eq [OF f, of "rv_in_time env", OF t, folded s1_def]
  have "recv_good p file pol s1" using Cons.prems(2) by (simp add: recv_good_def s1_def)
  with chunk_step_ok [OF C pt p _ small calm, of i s1] Cons.prems(1) obtain s2 where c: "chunk_step C env p (record_of C file pt i) s1 = Some (Inr (), s2)"
    "recv_good p file pol s2" "held (v_have s2) = insert i (held (v_have s1))" "s_in s2 = s_in s1" "s_control s2 = s_control s1" "s_out s2 = s_out s1"
    by auto
  have "\<exists>s'. recv_loop C env p s2 = Some (Inr (), s') \<and> recv_good p file pol s' \<and> held (v_have s') = set is \<union> held (v_have s2) \<and>
      s_in s' = rest \<and> s_control s' = ch \<and> s_out s' = s_out s2"
    using Cons.prems(1) c fs by (intro Cons.IH) (simp_all add: s1_def)
  moreover have "recv_loop C env p s = recv_loop C env p s2" by (simp add: recv_loop.simps [of C env p s] rc c(1))
  ultimately show ?case using c(3,6) by (auto simp: s1_def)
qed

section \<open>Starting, fresh or from a record\<close>

lemma gaps_empty:
  assumes "\<And>i. i < chunk_count bm \<Longrightarrow> \<not> present bm i"
  shows "length (gaps bm k index) \<le> 1"
proof (cases k)
  case (Suc m)
  define s0 where "s0 = advance (present bm) (chunk_count bm) index"
  define e0 where "e0 = advance (\<lambda>i. \<not> present bm i) (chunk_count bm) s0"
  have "\<not> e0 < chunk_count bm" if "index < chunk_count bm" "s0 < chunk_count bm"
    using gap_step(7) [OF that(1) s0_def that(2) e0_def] assms by blast
  then show ?thesis
    by (cases m) (auto simp: Suc Let_def simp flip: s0_def e0_def)
qed simp

text \<open>
  A record found for an object of this many chunks names only chunks the destination holds, and leaves no more gaps than one request
  may ask for. Nothing is asked for when there is no record, or one of another object.
\<close>

definition resume_holds :: "prims \<Rightarrow> recv_env \<Rightarrow> object_context \<Rightarrow> bytes \<Rightarrow> bytes \<Rightarrow> bool" where
  "resume_holds C env c file existing \<longleftrightarrow>
    (\<forall>bs r. rv_resume env \<and> rv_stored env = Some bs \<and> re_decode C bs = Inr r \<and> oi_chunk_count (re_identity r) = oc_chunk_count c \<longrightarrow>
      (\<forall>i \<in> held (re_durable r). slice c (set_len (length file) existing) (unat i) = slice c file (unat i)) \<and>
      card (gap_starts (re_durable r)) \<le> MAX_RANGES_PER_REQUEST)"

lemma fresh_gaps:
  assumes "bm_new n = Inr bm"
  shows "card (gap_starts bm) \<le> MAX_RANGES_PER_REQUEST"
proof -
  have h: "bm_ok bm" "held bm = {}" using held_new [OF assms] by simp_all
  then have "\<not> present bm i" if "i < chunk_count bm" for i
    using that by (auto simp: held_eq present_eq)
  then have "gap_starts bm \<subseteq> {0}" using h by (auto simp: gap_starts_def present_def bm_get_eq split: if_splits)
  then have "card (gap_starts bm) \<le> 1" using card_mono [of "{0}" "gap_starts bm"] by simp
  then show ?thesis by (simp add: MAX_RANGES_PER_REQUEST_def)
qed

lemma re_decode_bitmaps:
  "re_decode C bs = Inr r \<Longrightarrow> bm_ok (re_verified r) \<and> chunk_count (re_verified r) = oi_chunk_count (re_identity r) \<and>
    bm_ok (re_durable r) \<and> chunk_count (re_durable r) = oi_chunk_count (re_identity r)"
  using decode_rle_ok by (auto simp: re_decode_def re_decode_body_def Let_def res_iff split: if_splits)

lemma db_open_ok:
  assumes n: "unat (oi_chunk_count identity) \<le> 2 ^ 32"
  shows "\<exists>db r. db_open C stored identity path = Inr (db, r) \<and> db_good (oi_chunk_count identity) db \<and>
    ((\<exists>bm. bm_new (oi_chunk_count identity) = Inr bm \<and> re_durable (db_record db) = bm) \<or>
     (\<exists>bs. stored = Some bs \<and> re_decode C bs = Inr (db_record db) \<and> oi_chunk_count (re_identity (db_record db)) = oi_chunk_count identity))"
proof -
  have "unat MAX_CHUNK_COUNT = 2 ^ 32" by (simp add: MAX_CHUNK_COUNT_def)
  then have "\<not> MAX_CHUNK_COUNT < oi_chunk_count identity" using n by (simp add: word_less_nat_alt)
  then obtain bm where bm: "bm_new (oi_chunk_count identity) = Inr bm" by (simp add: bm_new_def)
  then obtain r0 where r0: "re_new identity path = Inr r0" "re_verified r0 = bm" "re_durable r0 = bm" by (simp add: re_new_def)
  have g0: "db_good (oi_chunk_count identity) \<lparr>db_record = r0, db_pending = 0, db_checkpoint_interval = DEFAULT_CHECKPOINT_CHUNKS\<rparr>"
    using held_new [OF bm] r0 by (simp add: db_good_def)
  show ?thesis
  proof (cases "\<exists>bs r. stored = Some bs \<and> re_decode C bs = Inr r \<and> oi_matches (re_identity r) identity")
    case True
    then obtain bs r where r: "stored = Some bs" "re_decode C bs = Inr r" "oi_matches (re_identity r) identity" by blast
    then have "db_good (oi_chunk_count identity) \<lparr>db_record = r, db_pending = 0, db_checkpoint_interval = DEFAULT_CHECKPOINT_CHUNKS\<rparr>"
      using re_decode_bitmaps [OF r(2)] by (simp add: db_good_def oi_matches_def)
    with r show ?thesis by (simp add: db_open_def oi_matches_def)
  next
    case False
    then have "db_open C stored identity path = Inr (\<lparr>db_record = r0, db_pending = 0, db_checkpoint_interval = DEFAULT_CHECKPOINT_CHUNKS\<rparr>, False)"
      using r0(1) by (auto simp: db_open_def split: option.splits sum.splits)
    with g0 bm r0 show ?thesis by auto
  qed
qed

lemma open_record_ok:
  assumes "unat (oc_chunk_count (rp_ctx p)) \<le> 2 ^ 32" and "resume_holds C env (rp_ctx p) file existing"
  shows "\<exists>d. (\<forall>s. open_record C env p s = Some (Inr (), s\<lparr>v_db := d\<rparr>)) \<and> (case d of None \<Rightarrow> True | Some db \<Rightarrow> db_good (oc_chunk_count (rp_ctx p)) db \<and>
    (bm_new (oc_chunk_count (rp_ctx p)) = Inr (re_durable (db_record db)) \<or>
     (\<forall>i \<in> held (re_durable (db_record db)). slice (rp_ctx p) (set_len (length file) existing) (unat i) = slice (rp_ctx p) file (unat i)) \<and>
       card (gap_starts (re_durable (db_record db))) \<le> MAX_RANGES_PER_REQUEST))"
proof (cases "rv_resume env")
  case True
  have "unat (oi_chunk_count (identity_of p)) \<le> 2 ^ 32" using assms(1) by (simp add: identity_of_def)
  from db_open_ok [OF this, of C "rv_stored env" "rv_dest env"] obtain db r where
    db: "db_open C (rv_stored env) (identity_of p) (rv_dest env) = Inr (db, r)" "db_good (oc_chunk_count (rp_ctx p)) db"
    "bm_new (oc_chunk_count (rp_ctx p)) = Inr (re_durable (db_record db)) \<or>
     (\<exists>bs. rv_stored env = Some bs \<and> re_decode C bs = Inr (db_record db) \<and> oi_chunk_count (re_identity (db_record db)) = oc_chunk_count (rp_ctx p))"
    by (auto simp: identity_of_def)
  have "\<forall>s. open_record C env p s = Some (Inr (), s\<lparr>v_db := Some db\<rparr>)"
    using True db(1) by (simp add: open_record_def bd_def lift_res_def upd_def)
  with db(2,3) True assms(2) show ?thesis by (intro exI [of _ "Some db"]) (auto simp: resume_holds_def)
next
  case False
  then show ?thesis by (intro exI [of _ None]) (simp add: open_record_def upd_def)
qed

lemma open_object_ok:
  assumes calm: "calm_recv pol env" and ok: "oc_ok (rp_ctx p)" and len: "length file = unat (encoded_plaintext_size (rp_ctx p))"
    and res: "resume_holds C env (rp_ctx p) file existing"
  obtains d bm where "bm_ok bm" "chunk_count bm = oc_chunk_count (rp_ctx p)"
    "card (gap_starts bm) \<le> MAX_RANGES_PER_REQUEST"
    "\<forall>s. content s = existing \<longrightarrow> open_object C env p s = Some (Inr (), s\<lparr>v_db := d, v_file := Some (set_len (length file) existing), v_have := bm\<rparr>)"
    "\<forall>s. ra_policy (rw_admission (s_watch s)) = pol \<longrightarrow> recv_good p file pol (s\<lparr>v_db := d, v_file := Some (set_len (length file) existing), v_have := bm,
      v_streaming := Some ([], 0)\<rparr>)"
proof -
  let ?c = "rp_ctx p" and ?f = "set_len (length file) existing"
  have n: "unat (oc_chunk_count ?c) \<le> 2 ^ 32" using ok by (simp add: oc_ok_def)
  have size: "unat (logical_plaintext_size ?c) = length file" using ok len by (simp add: oc_ok_def)
  obtain d where d: "\<forall>s. open_record C env p s = Some (Inr (), s\<lparr>v_db := d\<rparr>)"
    and good: "case d of None \<Rightarrow> True | Some db \<Rightarrow> db_good (oc_chunk_count ?c) db \<and>
      (bm_new (oc_chunk_count ?c) = Inr (re_durable (db_record db)) \<or>
       (\<forall>i \<in> held (re_durable (db_record db)). slice ?c ?f (unat i) = slice ?c file (unat i)) \<and>
         card (gap_starts (re_durable (db_record db))) \<le> MAX_RANGES_PER_REQUEST)"
    using open_record_ok [OF n res] by blast
  obtain b0 where b0: "bm_new (oc_chunk_count ?c) = Inr b0"
    using n by (auto simp: bm_new_def MAX_CHUNK_COUNT_def word_less_nat_alt)
  define bm where "bm = (case d of None \<Rightarrow> b0 | Some db \<Rightarrow> re_durable (db_record db))"
  have fh: "first_have p s = Some (Inr bm, s)" if "v_db s = d" for s
    using b0 that by (auto simp: first_have_def bd_def get_st_def ret_def lift_res_def bm_def split: option.splits)
  have "bm_new (oc_chunk_count ?c) = Inr bm \<or> bm_ok bm \<and> chunk_count bm = oc_chunk_count ?c \<and>
      (\<forall>i \<in> held bm. slice ?c ?f (unat i) = slice ?c file (unat i)) \<and> card (gap_starts bm) \<le> MAX_RANGES_PER_REQUEST"
    using good b0 by (auto simp: bm_def db_good_def split: option.splits)
  then have bm: "bm_ok bm" "chunk_count bm = oc_chunk_count ?c" "\<forall>i \<in> held bm. slice ?c ?f (unat i) = slice ?c file (unat i)"
      "card (gap_starts bm) \<le> MAX_RANGES_PER_REQUEST"
    using held_new [of "oc_chunk_count ?c" bm] fresh_gaps [of "oc_chunk_count ?c" bm] by auto
  have "open_object C env p s = Some (Inr (), s\<lparr>v_db := d, v_file := Some ?f, v_have := bm\<rparr>)" if "content s = existing" for s
    using calm d fh that by (simp add: open_object_def calm_recv_def bd_def fail_if_def upd_def size)
  moreover have "recv_good p file pol (s\<lparr>v_db := d, v_file := Some ?f, v_have := bm, v_streaming := Some ([], 0)\<rparr>)"
    if "ra_policy (rw_admission (s_watch s)) = pol" for s
    using ok len bm good that by (auto simp: recv_good_def recv_inv_def content_def split: option.splits)
  ultimately show thesis using that bm by blast
qed


section \<open>The receiver's side of a whole object\<close>

definition request_of :: "recv_params \<Rightarrow> chunk_bitmap \<Rightarrow> range_request" where
  "request_of p bm = full_request (sc_new (fs_transfer_id (rp_secrets p)) (fs_object_id (rp_secrets p))
     (oc_chunk_count (rp_ctx p)) (rp_chunk_ciphertext_size p)) bm"

lemma set_range_list: "set (range_list a b) = {i. a \<le> i \<and> i < b}"
proof -
  have "i \<in> of_nat ` {unat a..<unat b}" if "a \<le> i" "i < b" for i :: u64
    using that by (intro image_eqI [of _ _ "unat i"]) (simp_all add: word_le_nat_alt word_less_nat_alt)
  moreover have "a \<le> of_nat k \<and> of_nat k < b" if "unat a \<le> k" "k < unat b" for k
    using that unat_u64_less [of b] by (simp add: word_le_nat_alt word_less_nat_alt)
  ultimately show ?thesis by (auto simp: range_list_def)
qed

lemma set_requested: "set (requested_indices q) = {i. in_ranges (rr_ranges q) i}"
  by (auto simp: requested_indices_def set_range_list in_ranges_def)

lemma length_requested:
  assumes "rr_validate q n = Inr ()"
  shows "length (requested_indices q) \<le> 1024 * unat n"
proof -
  have wf: "length (rr_ranges q) \<le> 1024" "\<forall>(s, e) \<in> set (rr_ranges q). s < e \<and> e \<le> n"
    using assms by (auto simp: rr_validate_iff ranges_wf_def MAX_RANGES_PER_REQUEST_def)
  then have "length (range_list a b) \<le> unat n" if "(a, b) \<in> set (rr_ranges q)" for a b
    using that by (auto simp: range_list_def word_le_nat_alt)
  then have "length (requested_indices q) \<le> length (rr_ranges q) * unat n"
    unfolding requested_indices_def by (intro length_concat_le) auto
  with wf(1) show ?thesis by (meson le_trans mult_le_mono1)
qed

lemma request_props:
  assumes "bm_ok bm" and "chunk_count bm = oc_chunk_count (rp_ctx p)" and "fs_ok (rp_secrets p)"
    and "card (gap_starts bm) \<le> MAX_RANGES_PER_REQUEST"
  defines "q \<equiv> request_of p bm"
  shows "rr_decode (rr_bytes q) (oc_chunk_count (rp_ctx p)) = Inr q" and "fits (FRAME_RANGE_REQUEST, rr_bytes q)"
    and "set (requested_indices q) \<union> held bm = {i. i < oc_chunk_count (rp_ctx p)}"
    and "rr_transfer_id q = fs_transfer_id (rp_secrets p)" and "rr_object_id q = fs_object_id (rp_secrets p)"
    and "length (requested_indices q) \<le> 1024 * unat (oc_chunk_count (rp_ctx p))"
proof -
  note fr = full_request_props [OF assms(1) refl, where s = "sc_new (fs_transfer_id (rp_secrets p)) (fs_object_id (rp_secrets p))
     (oc_chunk_count (rp_ctx p)) (rp_chunk_ciphertext_size p)", folded request_of_def, folded q_def, unfolded assms(2)]
  have ids: "rr_transfer_id q = fs_transfer_id (rp_secrets p)" "rr_object_id q = fs_object_id (rp_secrets p)"
    and rs: "rr_ranges q = missing_ranges bm MAX_RANGES_PER_REQUEST"
    by (simp_all add: q_def request_of_def full_request_def Let_def sc_new_def)
  then have ok: "rr_ok q" using assms(3) by (simp add: rr_ok_def fs_ok_def)
  show "rr_decode (rr_bytes q) (oc_chunk_count (rp_ctx p)) = Inr q" using fr ok by (simp add: rr_decode_iff rr_encode_eq)
  show "rr_transfer_id q = fs_transfer_id (rp_secrets p)" "rr_object_id q = fs_object_id (rp_secrets p)" by (fact ids)+
  have "length (rr_bytes q) \<le> 60000" using fr ok by (intro length_rr_bytes_le) (simp_all add: rr_validate_iff)
  then show "fits (FRAME_RANGE_REQUEST, rr_bytes q)"
    by (simp add: fits_def body_limit_def FRAME_RANGE_REQUEST_def FRAME_CHUNK_def MAX_CONTROL_BODY_def)
  have "in_ranges (rr_ranges q) i \<longleftrightarrow> bm_get bm i = Inr False" for i using fr(2) fr(3) assms(4) by blast
  then show "set (requested_indices q) \<union> held bm = {i. i < oc_chunk_count (rp_ctx p)}"
    using assms(1,2) by (auto simp: set_requested held_def bm_get_eq split: if_splits)
  show "length (requested_indices q) \<le> 1024 * unat (oc_chunk_count (rp_ctx p))" using fr by (intro length_requested) simp
qed

lemma content_complete:
  assumes "recv_good p file pol s" and "held (v_have s) = {i. i < oc_chunk_count (rp_ctx p)}"
    and "length file = unat (encoded_plaintext_size (rp_ctx p))"
  shows "content s = file"
proof -
  let ?c = "rp_ctx p"
  have ok: "oc_ok ?c" and len: "length (content s) = unat (encoded_plaintext_size ?c)"
    using assms(1) by (simp_all add: recv_good_def recv_inv_def)
  have "slice ?c (content s) i = slice ?c file i" if "i < unat (oc_chunk_count ?c)" for i
  proof -
    have "i < 2 ^ 64" using that unat_u64_less [of "oc_chunk_count ?c"] by simp
    then have "unat (of_nat i :: u64) = i" by simp
    moreover from this that have "of_nat i \<in> held (v_have s)" using assms(2) by (simp add: word_less_nat_alt)
    ultimately show ?thesis using assms(1) by (metis recv_good_def)
  qed
  then have "concat (map (slice ?c (content s)) [0..<unat (oc_chunk_count ?c)]) = concat (map (slice ?c file) [0..<unat (oc_chunk_count ?c)])"
    by (intro arg_cong [where f = concat] map_cong) simp_all
  with concat_slices [OF ok le_refl] upto_chunk_all [OF ok] len assms(3) show ?thesis by simp
qed

lemma object_digest_ok:
  assumes "calm_recv pol env" and "recv_inv p s"
  shows "object_digest C env p s = Some (Inr (blake3 C (content s)), s)"
  using assms upto_chunk_all [of "rp_ctx p"]
  by (auto simp: object_digest_def bd_def get_st_def ret_def fail_if_def calm_recv_def recv_inv_def split: option.splits)

lemma drop_record_ok:
  assumes "calm_recv pol env"
  shows "\<exists>d dk. drop_record env s = Some (Inr (), s\<lparr>v_db := d, v_disk := dk\<rparr>)"
proof (cases "v_db s")
  case None
  then show ?thesis by (intro exI [of _ None] exI [of _ "v_disk s"]) (cases s, simp add: drop_record_def)
next
  case (Some db)
  obtain dk where "db_remove (rv_remove_record env) (v_disk s) = (Inr (), dk)"
    using assms by (cases "rv_remove_record env") (simp_all add: db_remove_def calm_recv_def)
  with Some show ?thesis by (auto simp: drop_record_def)
qed

lemma receive_end:
  assumes calm: "calm_recv pol env" and good: "recv_good p file pol s" and all: "held (v_have s) = {i. i < oc_chunk_count (rp_ctx p)}"
    and len: "length file = unat (encoded_plaintext_size (rp_ctx p))" and dig: "rp_expected_digest p = blake3 C file"
    and ack: "encode_ack 0 (blake3 C file) = Some ack" "send_frame C (s_control s) FRAME_COMPLETE ack = (Inr g, ch)"
  shows "\<exists>s'. bd (check_complete C env) (\<lambda>_. bd (object_digest C env p) (\<lambda>digest. bd (check_digest env p digest) (\<lambda>_.
      bd (finish_receive C env p digest) (\<lambda>_. ret digest)))) s = Some (Inr (blake3 C file), s') \<and>
    v_file s' = Some file \<and> s_out s' = s_out s @ g"
proof -
  have inv: "recv_inv p s" using good by (simp add: recv_good_def)
  have "is_complete (v_have s)" using all inv by (simp add: recv_inv_def held_complete)
  then obtain dk where cc: "check_complete C env s = Some (Inr (), s\<lparr>v_disk := dk\<rparr>)"
    using calm by (simp add: check_complete_def bd_def get_st_def sync_file_def sync_data_def calm_recv_def)
  define s1 where "s1 = s\<lparr>v_disk := dk\<rparr>"
  have s1: "recv_inv p s1" "content s1 = file" using inv content_complete [OF good all len] by (simp_all add: s1_def)
  obtain d dk2 where dr: "drop_record env s1 = Some (Inr (), s1\<lparr>v_db := d, v_disk := dk2\<rparr>)" using drop_record_ok [OF calm] by blast
  define s2 where "s2 = s1\<lparr>v_db := d, v_disk := dk2\<rparr>"
  have cd: "check_digest env p (blake3 C file) s1 = Some (Inr (), s2)" using dr dig by (simp add: check_digest_def s2_def)
  have s2: "s_control s2 = s_control s" "s_out s2 = s_out s" "v_file s2 = v_file s" by (simp_all add: s2_def s1_def)
  have fin: "\<exists>q. finish_receive C env p (blake3 C file) s2 = Some (Inr (), s2\<lparr>s_events := q, s_control := ch, s_out := s_out s2 @ g\<rparr>)"
    using ack s2(1) calm by (simp add: finish_receive_def bd_def a_event_eq lift_opt_def a_send_def write_all_simps calm_recv_def) (rule exI, rule refl)
  have "v_file s = Some file"
    using inv content_complete [OF good all len] by (auto simp: recv_inv_def content_def)
  with cc cd fin s1 s2 object_digest_ok [OF calm s1(1)] show ?thesis by (auto simp: bd_def ret_def s1_def [symmetric])
qed

lemma receive_body_ok:
  assumes C: "aead_ok C" "kdf_lens C" and pt: "prepared C file pt" and p: "describes p pt"
    and small: "unat (oc_chunk_count (pt_ctx pt)) \<le> 2 ^ 14" and calm: "calm_recv pol env" and dig: "rp_expected_digest p = blake3 C file"
    and op: "open_object C env p s = Some (Inr (), s1)" "recv_good p file pol (s1\<lparr>v_streaming := Some ([], 0)\<rparr>)"
    and q: "q = request_of p (v_have s1)" "set (requested_indices q) \<union> held (v_have s1) = {i. i < oc_chunk_count (rp_ctx p)}"
    and f1: "send_frame C (s_control s1) FRAME_RANGE_REQUEST (rr_bytes q) = (Inr g1, c1)"
    and f2: "recv_frames C c1 (Suc (length (requested_indices q))) (s_in s1) =
      Some (map (\<lambda>i. (FRAME_CHUNK, record_of C file pt i)) (requested_indices q) @ [(FRAME_STREAM_END, [])], rest, c2)"
    and f3: "encode_ack 0 (blake3 C file) = Some ack" "send_frame C c2 FRAME_COMPLETE ack = (Inr g2, c3)"
  shows "\<exists>s'. receive_body C env p s = Some (Inr (blake3 C file), s') \<and> v_file s' = Some file \<and> s_out s' = s_out s1 @ g1 @ g2"
proof -
  define s2 where "s2 = s1\<lparr>s_control := c1, s_out := s_out s1 @ g1\<rparr>"
  have ask: "ask_missing C env p s1 = Some (Inr (), s2)"
    using f1 calm by (simp add: ask_missing_def bd_def get_st_def lift_opt_def rr_encode_eq q(1) request_of_def a_send_def s2_def write_all_simps calm_recv_def)
  obtain q3 vb where bg: "begin_receive p s2 = Some (Inr (), s2\<lparr>v_streaming := Some ([], 0), v_verified_bytes := vb, v_received := 0, s_events := q3\<rparr>)"
    by (simp add: begin_receive_def bd_def upd_def a_event_eq)
  define s3 where "s3 = s2\<lparr>v_streaming := Some ([], 0), v_verified_bytes := vb, v_received := 0, s_events := q3\<rparr>"
  have g3: "recv_good p file pol s3" using op(2) by (simp add: recv_good_def recv_inv_def s3_def s2_def)
  have "list_all (\<lambda>i. i < oc_chunk_count (pt_ctx pt)) (requested_indices q)"
    using q(2) p by (auto simp: list_all_iff describes_def)
  then obtain s4 where lp: "recv_loop C env p s3 = Some (Inr (), s4)" "recv_good p file pol s4"
    "held (v_have s4) = set (requested_indices q) \<union> held (v_have s3)" "s_control s4 = c2" "s_out s4 = s_out s3"
    using recv_loop_ok [OF C pt p small calm _ g3, of "requested_indices q" rest c2] f2 by (auto simp: s3_def s2_def)
  have len: "length file = unat (encoded_plaintext_size (rp_ctx p))" using preparedD(2) [OF pt] p by (simp add: describes_def)
  have "held (v_have s4) = {i. i < oc_chunk_count (rp_ctx p)}" using lp(3) q(2) by (simp add: s3_def s2_def)
  from receive_end [OF calm lp(2) this len dig f3(1)] f3(2) lp(4) obtain s' where "bd (check_complete C env) (\<lambda>_. bd (object_digest C env p) (\<lambda>digest.
      bd (check_digest env p digest) (\<lambda>_. bd (finish_receive C env p digest) (\<lambda>_. ret digest)))) s4 = Some (Inr (blake3 C file), s')"
    "v_file s' = Some file" "s_out s' = s_out s4 @ g2" by blast
  then show ?thesis
    using op(1) ask bg lp by (simp add: receive_body_def bd_run [of "open_object C env p", OF op(1)] bd_run [of "ask_missing C env p", OF ask]
        bd_run [of "begin_receive p", OF bg] bd_run [of "recv_loop C env p", OF lp(1)] s3_def [symmetric]) (simp add: s3_def s2_def)
qed

end
