(* ===== verification/Rtp_Transfer.thy ===== *)
theory Rtp_Transfer
  imports Rtp_Delivery
begin

text \<open>
  The two ends of \<open>rtp2-core/src/transfer.rs\<close> together: the offer one makes and the other accepts, the four flights of protected
  frames, the handshake over the stream, and a whole transfer.
\<close>


section \<open>The offer between the two ends\<close>

definition offer_params :: "prims \<Rightarrow> pending_transfer \<Rightarrow> public_manifest \<Rightarrow> recv_params" where
  "offer_params C pt public =
    \<lparr>rp_secrets = pt_secrets pt, rp_ctx = pt_ctx pt, rp_ctx_hash = pt_ctx_hash pt, rp_schedule = pt_schedule pt,
     rp_root = pt_ciphertext_root pt, rp_expected_digest = pt_plaintext_digest pt, rp_commitment = blake3 C (manifest_image public),
     rp_chunk_ciphertext_size = chunk_ciphertext_size (pt_ctx pt)\<rparr>"

lemma envelope_sealed:
  assumes C: "aead_ok C" "kdf_lens C" and ok: "oe_ok e" and nonce: "length nonce = 24"
  shows "\<exists>env. seal_envelope C nonce (oe_secrets e) wrap (oe_created_at e) (oe_expires_at e) (oe_sender_device_id e) (oe_recipient_device_id e) =
      Some (Inr env) \<and> se_nonce env = nonce \<and> length (se_ciphertext env) \<le> 4096 \<and>
    (\<forall>now. now < oe_expires_at e \<and> oe_created_at e \<le> sat_add now 300 \<longrightarrow> open_envelope_at C env wrap now = Inr e)"
proof -
  let ?k = "envelope_key C wrap"
  have "length ?k = 32" using C(2) by (simp add: envelope_key_def Let_def kdf_lensD)
  from aead_okD [OF C(1) this nonce, of ENVELOPE_AAD "env_bytes e"] obtain ct where
    ct: "aead_encrypt C ?k nonce ENVELOPE_AAD (env_bytes e) = Some ct" "length ct = length (env_bytes e) + 16"
    "aead_decrypt C ?k nonce ENVELOPE_AAD ct = Some (env_bytes e)" by metis
  have "length (env_bytes e) \<le> 1000"
    unfolding env_bytes_def by (rule order_trans, (rule len_rules)+) (use ok in \<open>simp add: oe_ok_def fs_ok_def\<close>)
  moreover have "open_envelope_at C \<lparr>se_nonce = nonce, se_ciphertext = ct\<rparr> wrap now = Inr e"
    if "now < oe_expires_at e \<and> oe_created_at e \<le> sat_add now 300" for now
    using that ct(3) ok open_body_iff [of "env_bytes e" e] by (simp add: open_envelope_at_def open_envelope_def Let_def not_le not_less)
  moreover have "seal_envelope C nonce (oe_secrets e) wrap (oe_created_at e) (oe_expires_at e) (oe_sender_device_id e) (oe_recipient_device_id e) =
      Some (Inr \<lparr>se_nonce = nonce, se_ciphertext = ct\<rparr>)"
    using ok ct(1) by (cases e) (simp add: seal_envelope_def seal_envelope_with_suite_def env_body_eq Let_def oe_ok_def)
  ultimately show ?thesis using ct(2) by (intro exI [of _ "\<lparr>se_nonce = nonce, se_ciphertext = ct\<rparr>"]) simp
qed

lemma private_sealed:
  assumes C: "aead_ok C" "kdf_lens C" and ok: "pv_ok p" "pv_validate p = Inr ()" "pv_encode p = Some (Inr e)" and l: "length key = 32" "length nonce = 24"
  shows "\<exists>sealed. seal_private_manifest C nonce p key tid oid = Some (Inr sealed) \<and> sm_nonce sealed = nonce \<and> length (sm_ciphertext sealed) \<le> 250000 \<and>
    open_private_manifest C sealed key tid oid (pv_sender_device_id p) (pv_recipient_scope p) = Some (Inr p)"
proof -
  obtain aad where aad: "manifest_aad C tid oid (pv_sender_device_id p) (pv_recipient_scope p) = Some aad"
    by (simp add: manifest_aad_def rs_hash_def scope_encode_eq)
  from aead_okD [OF C(1) l, of aad e] obtain ct where ct: "aead_encrypt C key nonce aad e = Some ct" "length ct = length e + 16"
    "aead_decrypt C key nonce aad ct = Some e" by metis
  have "length e \<le> 200000"
    using ok(1,3) length_pv_bytes_le [OF ok(1)] by (auto simp: pv_encode_def pv_map_eq split: if_splits option.splits)
  with aad ct ok pv_encode_decode [OF ok] show ?thesis
    by (intro exI [of _ "\<lparr>sm_nonce = nonce, sm_ciphertext = ct\<rparr>"]) (simp add: seal_private_manifest_def open_private_manifest_def)
qed

lemma offer_create_fields:
  "offer_create C K r i public sealed envs provs scope = Some (Inr ofr) \<Longrightarrow>
    of_sealed_manifest ofr = sealed \<and> of_key_envelopes ofr = envs \<and> of_sender_device ofr = identity_public K i \<and>
    pm_encode public = Some (of_public_manifest_bytes ofr)"
  by (auto simp: offer_create_def Let_def split: sum.splits if_splits bind_splits)

lemma public_of_ok:
  assumes C: "kdf_lens C" and ok: "oc_ok (pt_ctx pt)" and ids: "fs_ok (pt_secrets pt)" and root: "length (pt_ciphertext_root pt) = 32"
    and now: "unat now + 3600 < 2 ^ 64"
  shows "pm_ok (public_of C pt sealed now)" and "pm_validate (public_of C pt sealed now) = Inr ()"
    and "pm_primary (public_of C pt sealed now) = Some (hd (pm_objects (public_of C pt sealed now)))"
proof -
  let ?c = "pt_ctx pt" and ?p = "public_of C pt sealed now"
  have role: "padding_policy ?c = PADDING_NONE" using ok by (simp add: oc_ok_def)
  show "pm_ok ?p"
    using ids root C by (simp add: pm_ok_def public_of_def op_ok_def fs_ok_def role valid_route_profile_def valid_role_def valid_padding_def
        ROUTE_BALANCED_def ROUTE_STEALTH_TRANSFER_def ROLE_PRIMARY_def ROLE_SIDECAR_def PADDING_NONE_def PADDING_FIXED_BUCKET_def
        MANIFEST_MAX_OBJECTS_def sm_ciphertext_hash_def kdf_lensD)
  have s: "65536 \<le> unat (chunk_plaintext_size ?c)" "unat (chunk_plaintext_size ?c) \<le> 4194304" "chunk_plaintext_size ?c \<in> set ALLOWED_CHUNK_SIZES"
    using ok allowed_sizes by (auto simp: oc_ok_def)
  have cs: "unat (chunk_ciphertext_size ?c) = unat (chunk_plaintext_size ?c) + 16"
    unfolding chunk_ciphertext_size_def AEAD_TAG_LEN_def using s by (subst unat_add) (simp_all add: unat_ucast_u32)
  let ?ob = "hd (pm_objects ?p)"
  have "geometry_ok ?ob"
    unfolding geometry_ok_def using s(3) cs ok unat_ciphertext_size [OF ok]
    by (intro bexI [of _ "chunk_plaintext_size ?c"] exI [of _ "unat (encoded_plaintext_size ?c)"]) (simp_all add: public_of_def oc_ok_def)
  then have "obj_valid ?ob"
    using ok cs s(2) by (subst obj_valid_iff) (simp_all add: public_of_def oc_ok_def word_le_nat_alt)
  then have v: "validate_objects {} (pm_objects ?p) = Inr ()" unfolding validate_objects_iff by (simp add: public_of_def)
  have "now < now + ENVELOPE_TTL_SECS"
    using now by (simp add: ENVELOPE_TTL_SECS_def word_less_nat_alt unat_add)
  then show "pm_validate ?p = Inr ()"
    using v by (simp add: pm_validate_def) (simp add: public_of_def not_le)
  show "pm_primary ?p = Some ?ob" by (simp add: pm_primary_def public_of_def)
qed

lemma private_of_ok:
  assumes "fs_ok (pt_secrets pt)" and "length (id_device_id identity) = 32" and "length peer = 32" and "length (pt_plaintext_digest pt) = 32"
    and "utf8_valid name" and "length name \<le> MAX_TEXT_LEN"
  shows "pv_ok (private_of pt identity peer name now)" and "pv_validate (private_of pt identity peer name now) = Inr ()"
    and "\<exists>e. pv_encode (private_of pt identity peer name now) = Some (Inr e)"
proof -
  have mime: "utf8_valid (ascii ''application/octet-stream'')" "length (ascii ''application/octet-stream'') = 24" by code_simp+
  show "pv_ok (private_of pt identity peer name now)" "pv_validate (private_of pt identity peer name now) = Inr ()"
    "\<exists>e. pv_encode (private_of pt identity peer name now) = Some (Inr e)"
    using assms mime by (simp_all add: private_of_def pv_ok_def pv_validate_def pv_encode_def pv_map_eq ov_ok_def fs_ok_def rs_device_def valid_role_def
        ROLE_PRIMARY_def ROLE_SIDECAR_def MANIFEST_MAX_OBJECTS_def MAX_TEXT_LEN_def)
qed

text \<open>A frame the receiver will take as the sender's offer of this file: what it decodes to, and what its sealed parts open to.\<close>

definition envelope_of :: "pending_transfer \<Rightarrow> device_identity \<Rightarrow> device_identity \<Rightarrow> u64 \<Rightarrow> opened_envelope" where
  "envelope_of pt ida idb t = \<lparr>oe_secrets = pt_secrets pt, oe_suite_id = SUITE_ID, oe_created_at = t, oe_expires_at = t + ENVELOPE_TTL_SECS,
    oe_sender_device_id = id_device_id ida, oe_recipient_device_id = id_device_id idb\<rparr>"

definition honest_offer ::
  "prims \<Rightarrow> pk_prims \<Rightarrow> pending_transfer \<Rightarrow> device_identity \<Rightarrow> device_identity \<Rightarrow> bytes \<Rightarrow> bytes \<Rightarrow> u64 \<Rightarrow> u64 \<Rightarrow> sealed_manifest \<Rightarrow> bytes \<Rightarrow> bool" where
  "honest_offer C K pt ida idb wrap name t now sealed bs \<longleftrightarrow> (\<exists>ofr envl. let public = public_of C pt sealed t; sec = pt_secrets pt in
    pm_ok public \<and> pm_validate public = Inr () \<and> pm_primary public = Some (hd (pm_objects public)) \<and>
    offer_decode bs = Inr ofr \<and> offer_verify C K ofr (rs_device (id_device_id idb)) now = Some (Inr public) \<and>
    of_sealed_manifest ofr = sealed \<and> of_sender_device ofr = identity_public K ida \<and> pm_encode public = Some (of_public_manifest_bytes ofr) \<and>
    of_key_envelopes ofr = [\<lparr>ke_recipient_device_id = id_device_id idb, ke_nonce = se_nonce envl, ke_ciphertext = se_ciphertext envl\<rparr>] \<and>
    open_envelope_at C envl wrap now = Inr (envelope_of pt ida idb t) \<and>
    open_private_manifest C sealed (ks_manifest_key (pt_schedule pt)) (fs_transfer_id sec) (fs_object_id sec) (id_device_id ida)
      (rs_device (id_device_id idb)) = Some (Inr (private_of pt ida (id_device_id idb) name t)))"

lemma offer_sealed:
  assumes C: "aead_ok C" "kdf_lens C" and pt: "prepared C file pt" and ids: "fs_ok (pt_secrets pt)"
    and lens: "length (id_device_id ida) = 32" "length (id_device_id idb) = 32" "length n1 = 24" "length n2 = 24"
    and name: "utf8_valid name" "length name \<le> MAX_TEXT_LEN"
    and now: "now < t + 3600" "t \<le> sat_add now 300"
  obtains envl sealed where
    "seal_envelope C n1 (pt_secrets pt) wrap t (t + ENVELOPE_TTL_SECS) (id_device_id ida) (id_device_id idb) = Some (Inr envl)"
    "se_nonce envl = n1" "length (se_ciphertext envl) \<le> 4096" "open_envelope_at C envl wrap now = Inr (envelope_of pt ida idb t)"
    "seal_private_manifest C n2 (private_of pt ida (id_device_id idb) name t) (ks_manifest_key (pt_schedule pt))
      (fs_transfer_id (pt_secrets pt)) (fs_object_id (pt_secrets pt)) = Some (Inr sealed)"
    "sm_nonce sealed = n2" "length (sm_ciphertext sealed) \<le> 250000"
    "open_private_manifest C sealed (ks_manifest_key (pt_schedule pt)) (fs_transfer_id (pt_secrets pt)) (fs_object_id (pt_secrets pt))
      (id_device_id ida) (rs_device (id_device_id idb)) = Some (Inr (private_of pt ida (id_device_id idb) name t))"
proof -
  have "oe_ok (envelope_of pt ida idb t)" using ids lens by (simp add: oe_ok_def envelope_of_def)
  from envelope_sealed [OF C this lens(3), of wrap] obtain envl where
    envl: "seal_envelope C n1 (pt_secrets pt) wrap t (t + ENVELOPE_TTL_SECS) (id_device_id ida) (id_device_id idb) = Some (Inr envl)"
    "se_nonce envl = n1" "length (se_ciphertext envl) \<le> 4096" "open_envelope_at C envl wrap now = Inr (envelope_of pt ida idb t)"
    using now by (auto simp: envelope_of_def ENVELOPE_TTL_SECS_def)
  have digest: "length (pt_plaintext_digest pt) = 32" using preparedD(7) [OF pt] C(2) by (simp add: kdf_lensD)
  note pv = private_of_ok [OF ids lens(1,2) digest name, of t]
  have mk: "length (ks_manifest_key (pt_schedule pt)) = 32"
    using preparedD(4) [OF pt] C(2) by (simp add: key_schedule_def Let_def kdf_lensD)
  obtain enc where "pv_encode (private_of pt ida (id_device_id idb) name t) = Some (Inr enc)" using pv(3) by blast
  from private_sealed [OF C pv(1,2) this mk lens(4), of "fs_transfer_id (pt_secrets pt)" "fs_object_id (pt_secrets pt)"] obtain sealed where
    "seal_private_manifest C n2 (private_of pt ida (id_device_id idb) name t) (ks_manifest_key (pt_schedule pt))
      (fs_transfer_id (pt_secrets pt)) (fs_object_id (pt_secrets pt)) = Some (Inr sealed)"
    "sm_nonce sealed = n2" "length (sm_ciphertext sealed) \<le> 250000"
    "open_private_manifest C sealed (ks_manifest_key (pt_schedule pt)) (fs_transfer_id (pt_secrets pt)) (fs_object_id (pt_secrets pt))
      (id_device_id ida) (rs_device (id_device_id idb)) = Some (Inr (private_of pt ida (id_device_id idb) name t))"
    by (auto simp: private_of_def)
  with envl show thesis using that by blast
qed

lemma prepared_root_len: "kdf_lens C \<Longrightarrow> prepared C file pt \<Longrightarrow> length (pt_ciphertext_root pt) = 32"
  by (simp add: preparedD(5,6)) (intro length_root_of chunk_leaves_ok, simp_all add: kdf_lensD)

lemma offer_fits:
  assumes "offer_decode bs = Inr ofr" and "length (of_public_manifest_bytes ofr) \<le> 250000" and "length (sm_ciphertext (of_sealed_manifest ofr)) \<le> 250000"
    and "of_key_envelopes ofr = [ke]" and "length (ke_ciphertext ke) \<le> 4096"
  shows "fits (FRAME_OFFER, bs)"
proof -
  have "offer_ok ofr" "bs = offer_bytes ofr" using offer_decode_sound [OF assms(1)] by simp_all
  with assms have "length bs \<le> 900000" using length_offer_bytes [of ofr] by simp
  then show ?thesis by (simp add: fits_def body_limit_def FRAME_OFFER_def FRAME_CHUNK_def MAX_CONTROL_BODY_def)
qed

lemma offer_built:
  assumes C: "aead_ok C" "kdf_lens C" and K: "sig_ok K" and pt: "prepared C file pt" and ids: "fs_ok (pt_secrets pt)"
    and ida: "ida = identity_from_seed C K seed_a" and idb: "idb = identity_from_seed C K seed_b" and ka: "sk_peer ka = identity_public K idb"
    and nonces: "length (sv_envelope_nonce env) = 24" "length (sv_manifest_nonce env) = 24"
    and name: "utf8_valid name" "length name \<le> MAX_TEXT_LEN" and ep: "length ep = 32"
    and now: "unat (sv_now env) + 3600 < 2 ^ 64" "now < sv_now env + 3600" "sv_now env \<le> sat_add now 300"
  obtains offer sealed bs where "\<forall>s. build_offer C K env pt ida ka ep name s = Some (Inr (offer, public_of C pt sealed (sv_now env)), s)"
    "offer_encode offer = Some bs" "fits (FRAME_OFFER, bs)"
    "honest_offer C K pt ida idb (sk_transfer_wrap_key ka) name (sv_now env) now sealed bs"
proof -
  let ?t = "sv_now env"
  have "dp_ok (identity_public K ida)" "dp_ok (identity_public K idb)" unfolding ida idb by (rule identity_public_ok [OF K C(2)])+
  then have lens: "length (id_device_id ida) = 32" "length (id_device_id idb) = 32" by (simp_all add: dp_ok_def identity_public_def)
  have peer: "dp_device_id (sk_peer ka) = id_device_id idb" using ka by (simp add: identity_public_def)
  obtain envl sealed where
    envl: "seal_envelope C (sv_envelope_nonce env) (pt_secrets pt) (sk_transfer_wrap_key ka) ?t (?t + ENVELOPE_TTL_SECS) (id_device_id ida) (id_device_id idb) = Some (Inr envl)"
    "se_nonce envl = sv_envelope_nonce env" "length (se_ciphertext envl) \<le> 4096"
    "open_envelope_at C envl (sk_transfer_wrap_key ka) now = Inr (envelope_of pt ida idb ?t)"
    and sealed: "seal_private_manifest C (sv_manifest_nonce env) (private_of pt ida (id_device_id idb) name ?t) (ks_manifest_key (pt_schedule pt))
      (fs_transfer_id (pt_secrets pt)) (fs_object_id (pt_secrets pt)) = Some (Inr sealed)"
    "sm_nonce sealed = sv_manifest_nonce env" "length (sm_ciphertext sealed) \<le> 250000"
    "open_private_manifest C sealed (ks_manifest_key (pt_schedule pt)) (fs_transfer_id (pt_secrets pt)) (fs_object_id (pt_secrets pt))
      (id_device_id ida) (rs_device (id_device_id idb)) = Some (Inr (private_of pt ida (id_device_id idb) name ?t))"
    using offer_sealed [OF C pt ids lens nonces name now(2,3)] by blast
  let ?public = "public_of C pt sealed ?t"
  note pub = public_of_ok [OF C(2) prepared_ok [OF pt] ids prepared_root_len [OF C(2) pt] now(1), of sealed]
  let ?ke = "\<lparr>ke_recipient_device_id = id_device_id idb, ke_nonce = se_nonce envl, ke_ciphertext = se_ciphertext envl\<rparr>"
    and ?pa = "\<lparr>pa_kind = KIND_SENDER_DEVICE, pa_address = ep\<rparr>"
  have "now < pm_expires_at ?public" using now(2) by (simp add: public_of_def ENVELOPE_TTL_SECS_def)
  then obtain ofr bs where ofr: "offer_create C K (sv_offer_randomness env) ida ?public sealed [?ke] [?pa] (rs_device (id_device_id idb)) = Some (Inr ofr)"
    "offer_encode ofr = Some bs" "offer_decode bs = Inr ofr" "offer_verify C K ofr (rs_device (id_device_id idb)) now = Some (Inr ?public)"
    using offer_made [OF K C(2) pub(1,2), of sealed "[?ke]" "[?pa]" "rs_device (id_device_id idb)" "sv_offer_randomness env" seed_a]
      sealed(2,3) nonces envl(2,3) lens ep
    by (auto simp: public_of_def MAX_ENVELOPES_def MAX_PROVIDERS_def MAX_PROVIDER_ADDR_LEN_def ke_ok_def pa_ok_def rs_device_def ida)
  note fields = offer_create_fields [OF ofr(1)]
  have "build_offer C K env pt ida ka ep name s = Some (Inr (ofr, ?public), s)" for s :: 'a
    using envl(1) sealed(1) pub(2) ofr(1) by (simp add: build_offer_def bd_def lift_both_def lift_opt_def lift_res_def ret_def Let_def peer)
  moreover have "fits (FRAME_OFFER, bs)"
    using fields length_pm_bytes_le [OF pub(1)] sealed(3) envl(3) by (intro offer_fits [OF ofr(3), where ke = ?ke]) (simp_all add: pm_encode_eq)
  moreover have "honest_offer C K pt ida idb (sk_transfer_wrap_key ka) name ?t now sealed bs"
    unfolding honest_offer_def Let_def using ofr(3,4) envl(4) sealed(4) fields pub by (intro exI [of _ ofr] exI [of _ envl]) simp
  ultimately show thesis using that ofr(2) by blast
qed

lemma offer_taken:
  fixes s :: 's
  assumes h: "honest_offer C K pt ida idb (sk_transfer_wrap_key kb) name t now sealed bs" and pt: "prepared C file pt"
    and kb: "sk_peer kb = identity_public K ida"
  shows "accept_offer C K now idb kb bs s = Some (Inr (offer_params C pt (public_of C pt sealed t)), s)"
proof -
  let ?public = "public_of C pt sealed t" and ?pv = "private_of pt ida (id_device_id idb) name t"
  let ?p = "offer_params C pt ?public" and ?ob = "hd (pm_objects ?public)"
  obtain ofr envl where pub: "pm_ok ?public" "pm_validate ?public = Inr ()" "pm_primary ?public = Some ?ob"
    and ofr: "offer_decode bs = Inr ofr" "offer_verify C K ofr (rs_device (id_device_id idb)) now = Some (Inr ?public)"
    and fields: "of_sealed_manifest ofr = sealed" "of_sender_device ofr = identity_public K ida" "pm_encode ?public = Some (of_public_manifest_bytes ofr)"
    "of_key_envelopes ofr = [\<lparr>ke_recipient_device_id = id_device_id idb, ke_nonce = se_nonce envl, ke_ciphertext = se_ciphertext envl\<rparr>]"
    and envl: "open_envelope_at C envl (sk_transfer_wrap_key kb) now = Inr (envelope_of pt ida idb t)"
    and priv: "open_private_manifest C sealed (ks_manifest_key (pt_schedule pt)) (fs_transfer_id (pt_secrets pt)) (fs_object_id (pt_secrets pt))
      (id_device_id ida) (rs_device (id_device_id idb)) = Some (Inr ?pv)"
    using h unfolding honest_offer_def Let_def by blast
  have ok: "oc_ok (pt_ctx pt)" by (rule prepared_ok [OF pt])
  have peer: "dp_device_id (sk_peer kb) = id_device_id ida" using kb by (simp add: identity_public_def)
  have rec: "\<lparr>se_nonce = se_nonce envl, se_ciphertext = se_ciphertext envl\<rparr> = envl" by simp
  have "open_offer_envelope C now idb kb ofr s = Some (Inr (rp_secrets ?p), s)"
    using fields envl peer by (simp add: open_offer_envelope_iff envelope_for_def offer_params_def envelope_of_def rec)
  moreover have "match_manifests C idb kb ofr ?public (rp_secrets ?p) s = Some (Inr (?ob, ?pv), s)"
    using fields priv pub(3) peer preparedD(4) [OF pt]
    by (simp add: match_manifests_iff offer_params_def) (simp add: public_of_def private_of_def)
  moreover have "object_of_offer C (rp_secrets ?p) ?ob ?pv s = Some (Inr (rp_ctx ?p), s)"
    using preparedD(1) [OF pt] chunk_size_back [OF ok] ok preparedD(2) [OF pt]
    by (simp add: object_of_offer_iff offer_params_def public_of_def private_of_def oc_ok_def)
  moreover have "offer_manifest_commitment C ofr = Some (Inr (rp_commitment ?p))"
    using fields pm_encode_decode [OF pub(1,2)] pm_commitment_eq by (auto simp: offer_manifest_commitment_def offer_params_def)
  moreover have "rp_root ?p = op_ciphertext_root ?ob" "rp_chunk_ciphertext_size ?p = op_chunk_ciphertext_size ?ob"
    "rp_expected_digest ?p = pv_plaintext_digest ?pv"
    by (simp_all add: offer_params_def public_of_def private_of_def)
  moreover have "dp_device_id (of_sender_device ofr) = dp_device_id (sk_peer kb)" using fields kb by simp
  moreover have "context_hash C (rp_ctx ?p) = Some (rp_ctx_hash ?p)" "rp_schedule ?p = key_schedule C (rp_secrets ?p)"
    using preparedD(3,4) [OF pt] by (simp_all add: offer_params_def)
  ultimately show ?thesis
    unfolding accept_offer_iff using ofr
    by (intro conjI refl exI [of _ ofr] exI [of _ ?public] exI [of _ ?ob] exI [of _ ?pv]) assumption+
qed


section \<open>The sender's side of a whole object\<close>

definition calm_send :: "route_policy \<Rightarrow> send_env \<Rightarrow> bool" where
  "calm_send pol env \<longleftrightarrow> sv_stream env = Ready () \<and> (\<forall>n. sv_wire env n = Taken) \<and> sv_open env \<and> (\<forall>k. sv_in_time env k) \<and> (\<forall>k. admits pol (snd (sv_poll env k)))"

lemma send_frames_append:
  "send_frames C ch (xs @ ys) = Some (bs, ch') \<longleftrightarrow>
    (\<exists>b1 ch1 b2. send_frames C ch xs = Some (b1, ch1) \<and> send_frames C ch1 ys = Some (b2, ch') \<and> bs = b1 @ b2)"
  by (induction xs arbitrary: ch bs) (auto split: prod.splits sum.splits; metis)+

lemma send_frames_one: "send_frames C ch [(t, m)] = Some (bs, ch') \<longleftrightarrow> send_frame C ch t m = (Inr bs, ch')"
  by (auto split: prod.splits sum.splits)

lemma serve_request_ok:
  assumes C: "aead_ok C" "kdf_lens C" and pt: "prepared C file pt" and rd: "reads_file env file" and calm: "calm_send pol env"
    and q: "rr_decode m (oc_chunk_count (pt_ctx pt)) = Inr q" "rr_transfer_id q = fs_transfer_id (pt_secrets pt)" "rr_object_id q = fs_object_id (pt_secrets pt)"
    and all: "list_all (\<lambda>i. i < oc_chunk_count (pt_ctx pt)) (requested_indices q)" and w: "ra_policy (rw_admission (s_watch s)) = pol"
    and fr: "send_frames C (s_control s) (map (\<lambda>i. (FRAME_CHUNK, record_of C file pt i)) (requested_indices q) @ [(FRAME_STREAM_END, [])]) = Some (bs, ch)"
  shows "\<exists>w e. serve_request C env pt m s = Some (Inr (chunk_total q), s\<lparr>s_control := ch, s_out := s_out s @ bs, s_watch := w, s_events := e\<rparr>)"
proof -
  define idx where "idx = requested_indices q"
  define ahead where "ahead = (case idx of [] \<Rightarrow> None | i # _ \<Rightarrow> Some (record_of C file pt i))"
  obtain b1 c1 b2 where f: "send_frames C (s_control s) (map (\<lambda>i. (FRAME_CHUNK, record_of C file pt i)) idx) = Some (b1, c1)"
    "send_frame C c1 FRAME_STREAM_END [] = (Inr b2, ch)" "bs = b1 @ b2"
    using fr unfolding send_frames_append send_frames_one idx_def by blast
  define s1 where "s1 = s\<lparr>s_events := push_opt (TransferStarted (fs_transfer_id (pt_secrets pt)) 1 (encoded_plaintext_size (pt_ctx pt))) (s_events s)\<rparr>"
  have ev: "a_event (TransferStarted (fs_transfer_id (pt_secrets pt)) 1 (encoded_plaintext_size (pt_ctx pt))) s = Some (Inr (), s1)"
    by (simp add: a_event_eq s1_def)
  have ah: "(case idx of [] \<Rightarrow> ret None | i # _ \<Rightarrow> bd (produce_chunk_record C env pt i) (\<lambda>r. ret (Some r))) s1 = Some (Inr ahead, s1)"
    using all by (cases idx) (simp_all add: idx_def produce_eq [OF C pt rd] ret_def bd_def ahead_def)
  have "\<exists>w e. send_loop C env pt (chunk_total q) 0 idx ahead 0 0 s1 = Some (Inr (), s1\<lparr>s_control := c1, s_out := s_out s1 @ b1, s_watch := w, s_events := e\<rparr>)"
    using calm all w f(1) unfolding calm_send_def idx_def [symmetric]
    by (intro send_loop_eq [OF C pt rd]) (auto simp: s1_def ahead_def split: list.splits)
  then obtain w e where lp: "send_loop C env pt (chunk_total q) 0 idx ahead 0 0 s1 =
      Some (Inr (), s1\<lparr>s_control := c1, s_out := s_out s1 @ b1, s_watch := w, s_events := e\<rparr>)" by blast
  define s2 where "s2 = s1\<lparr>s_control := c1, s_out := s_out s1 @ b1, s_watch := w, s_events := e\<rparr>"
  have snd: "a_send C (sv_wire env) FRAME_STREAM_END [] s2 = Some (Inr (), s2\<lparr>s_control := ch, s_out := s_out s2 @ b2\<rparr>)"
    using f(2) calm by (intro a_send_eq) (simp_all add: s2_def calm_send_def)
  have "serve_request C env pt m s = Some (Inr (chunk_total q), s2\<lparr>s_control := ch, s_out := s_out s2 @ b2\<rparr>)"
    using q by (simp add: serve_request_def bd_def lift_res_def fail_if_def ev ah lp snd ret_def idx_def [symmetric] s2_def [symmetric])
  then show ?thesis by (intro exI [of _ w] exI [of _ e]) (simp add: s2_def s1_def f(3))
qed

text \<open>The part of a report that describes the object, and what it is for a prepared file under its public manifest.\<close>

record object_summary =
  sm_transfer_id :: bytes
  sm_object_id :: bytes
  sm_commitment :: bytes
  sm_root :: bytes
  sm_digest :: bytes
  sm_bytes :: u64
  sm_chunks :: u64

definition summary :: "transfer_report \<Rightarrow> object_summary" where
  "summary r = \<lparr>sm_transfer_id = tr_transfer_id r, sm_object_id = tr_object_id r, sm_commitment = tr_manifest_commitment r,
    sm_root = tr_ciphertext_root r, sm_digest = tr_plaintext_digest r, sm_bytes = tr_bytes r, sm_chunks = tr_chunks r\<rparr>"

definition summary_of :: "prims \<Rightarrow> bytes \<Rightarrow> pending_transfer \<Rightarrow> public_manifest \<Rightarrow> object_summary" where
  "summary_of C file pt public = \<lparr>sm_transfer_id = fs_transfer_id (pt_secrets pt), sm_object_id = fs_object_id (pt_secrets pt),
    sm_commitment = blake3 C (manifest_image public), sm_root = pt_ciphertext_root pt, sm_digest = blake3 C file,
    sm_bytes = logical_plaintext_size (pt_ctx pt), sm_chunks = oc_chunk_count (pt_ctx pt)\<rparr>"

lemma ack_fits: "kdf_lens C \<Longrightarrow> \<exists>ack. encode_ack 0 (blake3 C file) = Some ack \<and> fits (FRAME_COMPLETE, ack)"
proof -
  assume "kdf_lens C"
  then have "length (enc_map 2 @ enc_uint 0 @ enc_uint 0 @ enc_uint 1 @ enc_bytes (blake3 C file)) \<le> 100"
    using length_enc(1) [of 0] length_enc(1) [of 1] length_enc(2) [of 2] length_enc(4) [of "blake3 C file"] by (simp add: kdf_lensD)
  then show ?thesis
    by (simp add: encode_ack_def mw_simps fits_def body_limit_def FRAME_COMPLETE_def FRAME_CHUNK_def MAX_CONTROL_BODY_def)
qed

lemma send_object_ok:
  assumes C: "aead_ok C" "kdf_lens C" and pt: "prepared C file pt" and rd: "reads_file env file" and calm: "calm_send pol env"
    and of: "build_offer C K env pt ida ka ep name s = Some (Inr (offer, public), s)" "offer_encode offer = Some ob"
    and f1: "send_frame C (s_control s) FRAME_OFFER ob = (Inr b1, a1)"
    and r1: "recv_frame C a1 True (s_in s) = (Inr ((FRAME_RANGE_REQUEST, rr_bytes q), rest1), a2)"
    and q: "rr_decode (rr_bytes q) (oc_chunk_count (pt_ctx pt)) = Inr q" "rr_transfer_id q = fs_transfer_id (pt_secrets pt)" "rr_object_id q = fs_object_id (pt_secrets pt)"
    and all: "list_all (\<lambda>i. i < oc_chunk_count (pt_ctx pt)) (requested_indices q)" and w: "ra_policy (rw_admission (s_watch s)) = pol"
    and f2: "send_frames C a2 (map (\<lambda>i. (FRAME_CHUNK, record_of C file pt i)) (requested_indices q) @ [(FRAME_STREAM_END, [])]) = Some (b2, a3)"
    and r2: "recv_frame C a3 True rest1 = (Inr ((FRAME_COMPLETE, ack), rest2), a4)" and ack: "encode_ack 0 (blake3 C file) = Some ack"
  shows "\<exists>report s'. send_object C K env pt ida ka ep name s = Some (Inr report, s') \<and> s_out s' = s_out s @ b1 @ b2 \<and>
    summary report = summary_of C file pt public"
proof -
  have t: "\<And>k. sv_in_time env k" using calm by (simp add: calm_send_def)
  define s1 where "s1 = s\<lparr>s_control := a1, s_out := s_out s @ b1\<rparr>"
  have e1: "a_send C (sv_wire env) FRAME_OFFER ob s = Some (Inr (), s1)" unfolding s1_def using f1 calm by (intro a_send_eq) (simp_all add: calm_send_def)
  define s2 where "s2 = s1\<lparr>s_control := a2, s_reads := Suc (s_reads s1), s_in := rest1\<rparr>"
  have e2: "a_expect C (sv_in_time env) FRAME_RANGE_REQUEST s1 = Some (Inr (rr_bytes q), s2)"
    using a_expect_eq [of C s1 FRAME_RANGE_REQUEST "rr_bytes q" rest1 a2 "sv_in_time env"] r1 t by (simp add: s1_def s2_def)
  obtain w3 ev3 where "serve_request C env pt (rr_bytes q) s2 = Some (Inr (chunk_total q), s2\<lparr>s_control := a3, s_out := s_out s2 @ b2, s_watch := w3, s_events := ev3\<rparr>)"
    using serve_request_ok [OF C pt rd calm q all, of s2 b2 a3] w f2 by (auto simp: s2_def s1_def)
  then obtain s3 where e3: "serve_request C env pt (rr_bytes q) s2 = Some (Inr (chunk_total q), s3)" "s_out s3 = s_out s2 @ b2" "s_control s3 = a3" "s_in s3 = rest1"
    by (simp add: s2_def)
  define s4 where "s4 = s3\<lparr>s_control := a4, s_reads := Suc (s_reads s3), s_in := rest2\<rparr>"
  have e4: "a_expect C (sv_in_time env) FRAME_COMPLETE s3 = Some (Inr ack, s4)"
    using a_expect_eq [of C s3 FRAME_COMPLETE ack rest2 a4 "sv_in_time env"] r2 t e3 by (simp add: s4_def)
  have dec: "decode_ack ack = Inr (0, blake3 C file)" using ack C(2) by (simp add: decode_ack_iff kdf_lensD)
  have dig: "pt_plaintext_digest pt = blake3 C file" by (rule preparedD(7) [OF pt])
  obtain ev5 where e5: "check_ack pt ack s4 = Some (Inr (), s4\<lparr>s_events := ev5\<rparr>)"
    by (simp add: check_ack_def bd_def lift_res_def dec fail_if_def dig a_event_eq)
  have open_ok: "sv_open env" using calm by (simp add: calm_send_def)
  show ?thesis
    by (simp add: send_object_def bd_def fail_if_def open_ok of lift_opt_def e1 e2 e3(1) e4 e5 pm_commitment_eq get_st_def ret_def)
       (simp add: s4_def e3(2) s2_def s1_def dig summary_def summary_of_def)
qed

section \<open>The two ends together\<close>

definition records_of :: "prims \<Rightarrow> bytes \<Rightarrow> pending_transfer \<Rightarrow> range_request \<Rightarrow> (u8 \<times> bytes) list" where
  "records_of C file pt q = map (\<lambda>i. (FRAME_CHUNK, record_of C file pt i)) (requested_indices q) @ [(FRAME_STREAM_END, [])]"

lemma records_fit:
  assumes "aead_ok C" "kdf_lens C" "prepared C file pt" "describes p pt" "list_all (\<lambda>i. i < oc_chunk_count (pt_ctx pt)) (requested_indices q)"
    and "unat (oc_chunk_count (pt_ctx pt)) \<le> 2 ^ 14"
  shows "list_all fits (records_of C file pt q)"
proof -
  have "fits (FRAME_STREAM_END, [])" by (simp add: fits_def body_limit_def MAX_CONTROL_BODY_def MAX_DATA_BODY_def)
  with assms(5) record_of_decodes(5) [OF assms(1-4) _ assms(6)] show ?thesis by (simp add: records_of_def list_all_iff)
qed

text \<open>The four flights of a session, from one end of a fresh pair of channels to the other.\<close>

lemma flights:
  assumes C: "aead_ok C" "kdf_lens C" and lk: "linked a b"
    and zero: "cc_send_counter a = 0" "cc_send_counter b = 0" "cc_epoch a = 0" "cc_epoch b = 0"
    and fit: "fits (FRAME_OFFER, ob)" "fits (FRAME_RANGE_REQUEST, rq)" "list_all fits ms" "length ms < 2 ^ 31" "fits (FRAME_COMPLETE, ack)"
  obtains b1 a1 g1 a2 b2 a3 g2 a4 r1 r2 r3 r4 where
    "send_frame C a FRAME_OFFER ob = (Inr b1, a1)" "\<forall>rest. recv_frame C b True (b1 @ rest) = (Inr ((FRAME_OFFER, ob), rest), r1)"
    "send_frame C r1 FRAME_RANGE_REQUEST rq = (Inr g1, r2)"
    "\<forall>rest. recv_frame C a1 True (g1 @ rest) = (Inr ((FRAME_RANGE_REQUEST, rq), rest), a2)"
    "send_frames C a2 ms = Some (b2, a3)" "\<forall>rest. recv_frames C r2 (length ms) (b2 @ rest) = Some (ms, rest, r3)"
    "send_frame C r3 FRAME_COMPLETE ack = (Inr g2, r4)" "\<forall>rest. recv_frame C a3 True (g2 @ rest) = (Inr ((FRAME_COMPLETE, ack), rest), a4)"
proof -
  have eps: "linked x y \<Longrightarrow> cc_epoch y = cc_epoch x" for x y by (simp add: linked_def cc_epoch_def)
  obtain b1 a1 r1 where 1: "send_frame C a FRAME_OFFER ob = (Inr b1, a1)"
    "\<forall>rest. recv_frame C b True (b1 @ rest) = (Inr ((FRAME_OFFER, ob), rest), r1)"
    "linked a1 r1" "cc_epoch a1 = cc_epoch a" "unat (cc_send_counter a1) = unat (cc_send_counter a) + 1" "cc_send_counter r1 = cc_send_counter b"
    using frame_delivered [OF C lk _ _ fit(1)] zero by auto
  obtain g1 r2 a2 where 2: "send_frame C r1 FRAME_RANGE_REQUEST rq = (Inr g1, r2)"
    "\<forall>rest. recv_frame C a1 True (g1 @ rest) = (Inr ((FRAME_RANGE_REQUEST, rq), rest), a2)"
    "linked r2 a2" "cc_epoch r2 = cc_epoch r1" "unat (cc_send_counter r2) = unat (cc_send_counter r1) + 1" "cc_send_counter a2 = cc_send_counter a1"
    using frame_delivered [OF C iffD1 [OF linked_sym 1(3)] _ _ fit(2)] zero 1 eps [OF 1(3)] by auto
  have e2: "cc_epoch a2 = 0" "cc_epoch r2 = 0" using eps [OF 1(3)] eps [OF 2(3)] 1 2 zero by simp_all
  obtain b2 a3 r3 where 3: "send_frames C a2 ms = Some (b2, a3)" "linked a3 r3" "cc_epoch a3 = cc_epoch a2" "cc_send_counter r3 = cc_send_counter r2"
    "\<forall>rest. recv_frames C r2 (length ms) (b2 @ rest) = Some (ms, rest, r3)"
    using frames_delivered [OF C iffD1 [OF linked_sym 2(3)], of ms] fit(3,4) e2 1 2 zero by auto
  have room: "unat (cc_send_counter r3) < 2 ^ 32" "unat (cc_epoch r3) < 2 ^ 64 - 1" using 3 2 1 e2 eps [OF 3(2)] zero by simp_all
  obtain g2 r4 a4 where 4: "send_frame C r3 FRAME_COMPLETE ack = (Inr g2, r4)"
    "\<forall>rest. recv_frame C a3 True (g2 @ rest) = (Inr ((FRAME_COMPLETE, ack), rest), a4)"
    "linked r4 a4" "cc_epoch r4 = cc_epoch r3" "unat (cc_send_counter r4) = unat (cc_send_counter r3) + 1" "cc_send_counter a4 = cc_send_counter a3"
    by (rule frame_delivered [OF C iffD1 [OF linked_sym 3(2)] room fit(5)])
  show thesis by (rule that [OF 1(1,2) 2(1,2) 3(1,5) 4(1,2)])
qed

lemma receive_object_ok:
  assumes C: "aead_ok C" "kdf_lens C" and pt: "prepared C file pt" and p: "p = offer_params C pt public"
    and small: "unat (oc_chunk_count (pt_ctx pt)) \<le> 2 ^ 14" and calm: "calm_recv pol env"
    and acc: "\<And>t :: recv_state. accept_offer C K (rv_now env) idb kb ob t = Some (Inr p, t)"
    and oo: "\<And>s. content s = content t \<Longrightarrow> open_object C env p s = Some (Inr (), s\<lparr>v_db := d, v_file := f, v_have := bm\<rparr>)"
    "\<And>s. ra_policy (rw_admission (s_watch s)) = pol \<Longrightarrow> recv_good p file pol (s\<lparr>v_db := d, v_file := f, v_have := bm, v_streaming := Some ([], 0)\<rparr>)"
    and w: "ra_policy (rw_admission (s_watch t)) = pol"
    and q: "q = request_of p bm" "set (requested_indices q) \<union> held bm = {i. i < oc_chunk_count (pt_ctx pt)}"
    and r1: "recv_frame C (s_control t) True (s_in t) = (Inr ((FRAME_OFFER, ob), rest1), r1)"
    and f2: "send_frame C r1 FRAME_RANGE_REQUEST (rr_bytes q) = (Inr g1, r2)"
    and f3: "recv_frames C r2 (length (records_of C file pt q)) rest1 = Some (records_of C file pt q, rest2, r3)"
    and f4: "encode_ack 0 (blake3 C file) = Some ack" "send_frame C r3 FRAME_COMPLETE ack = (Inr g2, r4)"
  shows "\<exists>rep t'. receive_object C K env idb kb t = Some (Inr rep, t') \<and> s_out t' = s_out t @ g1 @ g2 \<and> v_file t' = Some file \<and>
    summary rep = summary_of C file pt public"
proof -
  define t1 where "t1 = t\<lparr>s_control := r1, s_reads := Suc (s_reads t), s_in := rest1\<rparr>"
  have ex: "a_expect C (rv_in_time env) FRAME_OFFER t = Some (Inr ob, t1)"
    unfolding t1_def by (rule a_expect_eq [OF r1]) (use calm in \<open>simp add: calm_recv_def\<close>)
  define t2 where "t2 = t1\<lparr>v_db := d, v_file := f, v_have := bm\<rparr>"
  have op: "open_object C env p t1 = Some (Inr (), t2)" using oo(1) [of t1] by (simp add: t1_def t2_def content_def)
  have good: "recv_good p file pol (t2\<lparr>v_streaming := Some ([], 0)\<rparr>)" using oo(2) [of t1] w by (simp add: t1_def t2_def)
  have d: "describes p pt" "rp_expected_digest p = blake3 C file" using preparedD(7) [OF pt] by (simp_all add: p offer_params_def describes_def)
  obtain t' where bd: "receive_body C env p t1 = Some (Inr (blake3 C file), t')" "v_file t' = Some file" "s_out t' = s_out t2 @ g1 @ g2"
    using receive_body_ok [OF C pt d(1) small calm d(2) op good, of q g1 r2 rest2 r3 ack g2 r4] q f2 f3 f4
    by (auto simp: t2_def t1_def records_of_def p offer_params_def)
  show ?thesis
    using bd acc [of t1] ex by (simp add: receive_object_def bd_run [of "a_expect C (rv_in_time env) FRAME_OFFER", OF ex]
        bd_run [of "accept_offer C K (rv_now env) idb kb ob", OF acc] bd_run [of "receive_body C env p", OF bd(1)])
      (simp add: bd_def get_st_def ret_def t2_def t1_def summary_def summary_of_def p offer_params_def)
qed

lemma object_exchange:
  assumes C: "aead_ok C" "kdf_lens C" and K: "sig_ok K" and pt: "prepared C file pt" and ids: "fs_ok (pt_secrets pt)"
    and small: "unat (oc_chunk_count (pt_ctx pt)) \<le> 2 ^ 14"
    and ida: "ida = identity_from_seed C K seed_a" and idb: "idb = identity_from_seed C K seed_b"
    and ka: "sk_peer ka = identity_public K idb" and kb: "sk_peer kb = identity_public K ida" "sk_transfer_wrap_key kb = sk_transfer_wrap_key ka"
    and nonces: "length (sv_envelope_nonce env) = 24" "length (sv_manifest_nonce env) = 24"
    and name: "utf8_valid name" "length name \<le> MAX_TEXT_LEN" and ep: "length ep = 32"
    and now: "unat (sv_now env) + 3600 < 2 ^ 64" "rv_now renv < sv_now env + 3600" "sv_now env \<le> sat_add (rv_now renv) 300"
    and calm: "calm_send pol env" "calm_recv pol' renv" and rd: "reads_file env file" and res: "resume_holds C renv (pt_ctx pt) file existing"
    and lk: "linked a b" and zero: "cc_send_counter a = 0" "cc_send_counter b = 0" "cc_epoch a = 0" "cc_epoch b = 0"
  obtains A B sum where
    "\<forall>s. s_control s = a \<and> s_in s = B \<and> ra_policy (rw_admission (s_watch s)) = pol \<longrightarrow>
      (\<exists>rep s'. send_object C K env pt ida ka ep name s = Some (Inr rep, s') \<and> s_out s' = s_out s @ A \<and> summary rep = sum)"
    "\<forall>t. s_control t = b \<and> s_in t = A \<and> ra_policy (rw_admission (s_watch t)) = pol' \<and> content t = existing \<longrightarrow>
      (\<exists>rep t'. receive_object C K renv idb kb t = Some (Inr rep, t') \<and> s_out t' = s_out t @ B \<and> v_file t' = Some file \<and> summary rep = sum)"
    "sm_digest sum = blake3 C file"
proof -
  obtain offer sealed ob where bo: "\<forall>s :: sess. build_offer C K env pt ida ka ep name s = Some (Inr (offer, public_of C pt sealed (sv_now env)), s)"
    and ob: "offer_encode offer = Some ob" "fits (FRAME_OFFER, ob)"
    and ho: "honest_offer C K pt ida idb (sk_transfer_wrap_key ka) name (sv_now env) (rv_now renv) sealed ob"
    by (rule offer_built [OF C K pt ids ida idb ka nonces name ep now])
  define p where "p = offer_params C pt (public_of C pt sealed (sv_now env))"
  have p: "describes p pt" "rp_expected_digest p = blake3 C file" "rp_ctx p = pt_ctx pt" "rp_secrets p = pt_secrets pt"
    using preparedD(7) [OF pt] by (simp_all add: p_def offer_params_def describes_def)
  have ok: "oc_ok (rp_ctx p)" and len: "length file = unat (encoded_plaintext_size (rp_ctx p))"
    using prepared_ok [OF pt] preparedD(2) [OF pt] by (simp_all add: p)
  have res': "resume_holds C renv (rp_ctx p) file existing" using res by (simp add: p)
  obtain d bm where bm: "bm_ok bm" "chunk_count bm = oc_chunk_count (rp_ctx p)" "card (gap_starts bm) \<le> MAX_RANGES_PER_REQUEST"
    and oo: "\<forall>s. content s = existing \<longrightarrow> open_object C renv p s = Some (Inr (), s\<lparr>v_db := d, v_file := Some (set_len (length file) existing), v_have := bm\<rparr>)"
    "\<forall>s. ra_policy (rw_admission (s_watch s)) = pol' \<longrightarrow> recv_good p file pol' (s\<lparr>v_db := d, v_file := Some (set_len (length file) existing), v_have := bm,
      v_streaming := Some ([], 0)\<rparr>)"
    by (rule open_object_ok [OF calm(2) ok len res'])
  define q where "q = request_of p bm"
  have sec: "fs_ok (rp_secrets p)" using ids by (simp add: p)
  note q = request_props [OF bm(1,2) sec bm(3), folded q_def, unfolded p(3,4)]
  have all: "list_all (\<lambda>i. i < oc_chunk_count (pt_ctx pt)) (requested_indices q)" unfolding list_all_iff using q(3) by blast
  obtain ack where ack: "encode_ack 0 (blake3 C file) = Some ack" "fits (FRAME_COMPLETE, ack)" using ack_fits [OF C(2)] by blast
  have ms: "list_all fits (records_of C file pt q)" "length (records_of C file pt q) < 2 ^ 31"
    using records_fit [OF C pt p(1) all small] order_le_less_trans [OF q(6), of "2 ^ 31 - 1"] small by (simp, simp add: records_of_def)
  obtain b1 a1 g1 a2 b2 a3 g2 a4 r1 r2 r3 r4 where
    f1: "send_frame C a FRAME_OFFER ob = (Inr b1, a1)" "\<forall>rest. recv_frame C b True (b1 @ rest) = (Inr ((FRAME_OFFER, ob), rest), r1)"
    and f2: "send_frame C r1 FRAME_RANGE_REQUEST (rr_bytes q) = (Inr g1, r2)"
    "\<forall>rest. recv_frame C a1 True (g1 @ rest) = (Inr ((FRAME_RANGE_REQUEST, rr_bytes q), rest), a2)"
    and f3: "send_frames C a2 (records_of C file pt q) = Some (b2, a3)"
    "\<forall>rest. recv_frames C r2 (length (records_of C file pt q)) (b2 @ rest) = Some (records_of C file pt q, rest, r3)"
    and f4: "send_frame C r3 FRAME_COMPLETE ack = (Inr g2, r4)" "\<forall>rest. recv_frame C a3 True (g2 @ rest) = (Inr ((FRAME_COMPLETE, ack), rest), a4)"
    by (rule flights [OF C lk zero ob(2) q(2) ms ack(2)])
  define sum where "sum = summary_of C file pt (public_of C pt sealed (sv_now env))"
  show thesis
  proof (rule that [of "g1 @ g2" "b1 @ b2" sum]; (intro allI impI)?)
    fix s :: sess assume "s_control s = a \<and> s_in s = g1 @ g2 \<and> ra_policy (rw_admission (s_watch s)) = pol"
    then have s: "s_control s = a" "s_in s = g1 @ g2" "ra_policy (rw_admission (s_watch s)) = pol" by simp_all
    show "\<exists>rep s'. send_object C K env pt ida ka ep name s = Some (Inr rep, s') \<and> s_out s' = s_out s @ b1 @ b2 \<and> summary rep = sum"
      unfolding sum_def
      by (rule send_object_ok [OF C pt rd calm(1) _ ob(1) _ _ q(1,4,5) all s(3) _ _ ack(1)])
         (use bo f1(1) f2(2) [rule_format, of g2] f3(1) f4(2) [rule_format, of "[]"] s in \<open>simp_all add: records_of_def\<close>)
  next
    fix t :: recv_state assume "s_control t = b \<and> s_in t = b1 @ b2 \<and> ra_policy (rw_admission (s_watch t)) = pol' \<and> content t = existing"
    then have t: "s_control t = b" "s_in t = b1 @ b2" "ra_policy (rw_admission (s_watch t)) = pol'" "content t = existing" by simp_all
    show "\<exists>rep t'. receive_object C K renv idb kb t = Some (Inr rep, t') \<and> s_out t' = s_out t @ g1 @ g2 \<and> v_file t' = Some file \<and> summary rep = sum"
      unfolding sum_def
      by (rule receive_object_ok [OF C pt p_def small calm(2) _ oo(1) [rule_format, folded t(4)] oo(2) [rule_format, folded t(4)] t(3) q_def q(3)])
         (use offer_taken [OF _ pt kb(1), of idb name "sv_now env" "rv_now renv" sealed ob] ho kb(2) f1 f2 f3(2) [rule_format, of "[]"] f4 ack t in
           \<open>simp_all add: p_def\<close>)
  qed (simp add: sum_def summary_of_def)
qed

section \<open>The handshake over the stream\<close>

definition plain_frame :: "u8 \<Rightarrow> bytes \<Rightarrow> bytes" where
  "plain_frame t m = frame_bytes False (plain_raw t m) 0 0"

lemma plain_delivered:
  assumes "length m \<le> MAX_CONTROL_SIZE"
  shows "send_plain_frame t m = Inr (plain_frame t m)" and "expect_plain_frame True t (plain_frame t m @ rest) = Inr (m, rest)"
proof -
  have l: "length m \<le> unat (body_limit t)" using assms by (simp add: body_limit_def MAX_DATA_BODY_def MAX_CONTROL_BODY_def MAX_CONTROL_SIZE_def)
  then show "send_plain_frame t m = Inr (plain_frame t m)"
    using header_bytes_eq [OF l, of 0 0 0] by (simp add: send_plain_frame_def plain_frame_def frame_bytes_def plain_raw_def)
  have "recv_raw_frame True False (plain_frame t m @ rest) = Inr ((plain_raw t m, 0, 0), rest)"
    using l by (simp add: recv_raw_frame_iff plain_frame_def frame_ok_def plain_raw_def)
  then show "expect_plain_frame True t (plain_frame t m @ rest) = Inr (m, rest)"
    by (simp add: expect_plain_frame_def plain_raw_def)
qed

lemma handshake_messages_short:
  assumes "on_client_hello C K xb rb eb n sb now i ep st ch obs rc = Some (Inr sh, st', rc')" and "on_server_hello C K e s i' st1 sh = Some (Inr cf, st2)"
    and "on_client_finish C K st3 cf = Some (Inr (sf, kb), st4)" and "on_server_finish C st5 sf = (Inr ka, st6)"
  shows "length ch \<le> MAX_CONTROL_SIZE" "length sh \<le> MAX_CONTROL_SIZE" "length cf \<le> MAX_CONTROL_SIZE" "length sf \<le> MAX_CONTROL_SIZE"
proof -
  show "length ch \<le> MAX_CONTROL_SIZE" using assms(1) ch_decode_sound unfolding on_client_hello_iff by blast
  show "length sh \<le> MAX_CONTROL_SIZE" using assms(2) sh_decode_sound unfolding on_server_hello_iff by blast
  obtain c where "cf_decode cf = Inr c" using assms(3) unfolding on_client_finish_iff Let_def by blast
  then show "length cf \<le> MAX_CONTROL_SIZE" using cf_decode_sound [of cf c] length_cfinish by blast
  obtain mac where "length mac = 48" "sf = cbare_bytes mac" using assms(4) unfolding on_server_finish_iff sf_decode_iff by blast
  then show "length sf \<le> MAX_CONTROL_SIZE"
    using length_enc(2) [of 1] length_enc(1) [of 0] length_enc(4) [of mac] by (simp add: cbare_bytes_def MAX_CONTROL_SIZE_def)
qed

lemma handshake_exchange:
  assumes prims: "sig_ok K" "kem_ok K" "kdf_lens C"
    and ids: "ida = identity_from_seed C K seed_a" "idb = identity_from_seed C K seed_b"
    and lens: "length (sv_nonce env) = 32" "length (rv_nonce renv) = 32" "length ep_a = 32" "length ep_b = 32"
    and time: "abs_diff (sv_hello_time env) (rv_hello_time renv) \<le> TIMESTAMP_WINDOW_SECS"
    and fresh: "dp_device_id (identity_public K ida) @ sv_nonce env \<notin> rc_seen rc"
    and shared: "x_dh K (sv_ex_secret env) (x_public K (rv_ex_secret renv)) \<noteq> replicate 32 0"
    and in_time: "\<forall>k. sv_in_time env k" "\<forall>k. rv_in_time renv k" and taken: "\<And>n. sv_wire env n = Taken" "\<And>n. rv_wire renv n = Taken"
  obtains A B ka kb rc' where
    "\<forall>rest. send_handshake C K env ida ep_a ep_b (B @ rest) = Some (Inr (ka, rest), A)"
    "\<forall>rest. recv_handshake C K renv idb ep_b ep_a rc (A @ rest) = Some (Inr (kb, rest), B, rc')"
    "sk_peer ka = identity_public K idb" "sk_peer kb = identity_public K ida" "sk_transfer_wrap_key kb = sk_transfer_wrap_key ka"
    "linked (cc_new C (sk_handshake_prk ka) (sk_th2 ka) ClientToServer) (cc_new C (sk_handshake_prk kb) (sk_th2 kb) ServerToClient)"
proof -
  obtain i0 ch r1 rc' sh i1 cf sf ka kb where
    h: "initiator_start K (sv_ex_secret env) (sv_kem_randomness env) (sv_nonce env) (sv_hello_time env) ida ep_a ep_b = Some (i0, ch)"
    "on_client_hello C K (rv_ex_secret renv) (rv_kem_randomness renv) (rv_enc_randomness renv) (rv_nonce renv) (rv_sig_randomness renv)
      (rv_hello_time renv) idb ep_b AwaitClientHello ch ep_a rc = Some (Inr sh, r1, rc')"
    "on_server_hello C K (sv_enc_randomness env) (sv_sig_randomness env) ida i0 sh = Some (Inr cf, i1)"
    "on_client_finish C K r1 cf = Some (Inr (sf, kb), ResponderDone)" "on_server_finish C i1 sf = (Inr ka, InitiatorDone)"
    and keys: "sk_peer ka = identity_public K idb" "kb = ka\<lparr>sk_role := Responder, sk_peer := identity_public K ida, sk_peer_endpoint_id := ep_a\<rparr>"
    "linked (cc_new C (sk_handshake_prk ka) (sk_th2 ka) ClientToServer) (cc_new C (sk_handshake_prk kb) (sk_th2 kb) ServerToClient)"
    using handshake_run [OF prims ids lens time fresh shared, of "sv_kem_randomness env" "rv_kem_randomness renv" "rv_enc_randomness renv"
      "rv_sig_randomness renv" "sv_enc_randomness env" "sv_sig_randomness env"] by blast
  note short = handshake_messages_short [OF h(2-5)]
  note plain = plain_delivered [OF short(1)] plain_delivered [OF short(2)] plain_delivered [OF short(3)] plain_delivered [OF short(4)]
  let ?A = "plain_frame FRAME_CLIENT_HELLO ch @ plain_frame FRAME_CLIENT_FINISH cf"
    and ?B = "plain_frame FRAME_SERVER_HELLO sh @ plain_frame FRAME_SERVER_FINISH sf"
  have "\<forall>rest. send_handshake C K env ida ep_a ep_b (?B @ rest) = Some (Inr (ka, rest), ?A)"
    using h in_time plain by (simp add: send_handshake_def write_plain_taken [OF taken(1)])
  moreover have "\<forall>rest. recv_handshake C K renv idb ep_b ep_a rc (?A @ rest) = Some (Inr (kb, rest), ?B, rc')"
    using h in_time plain by (simp add: recv_handshake_def write_plain_taken [OF taken(2)])
  moreover have "sk_peer kb = identity_public K ida" "sk_transfer_wrap_key kb = sk_transfer_wrap_key ka" by (simp_all add: keys(2))
  ultimately show thesis by (rule that [OF _ _ keys(1) _ _ keys(3)])
qed

section \<open>A whole transfer\<close>

lemma prepare_prepared:
  assumes C: "aead_ok C" "kdf_lens C" and p: "prepare C secrets path chunk_size (Some (of_nat (length file))) (Some file) = Some (Inr pt)"
    and len: "length file < 2 ^ 64"
  shows "prepared C file pt" and "pt_secrets pt = secrets"
proof -
  obtain c where "for_file (fs_transfer_id secrets) (fs_object_id secrets) (of_nat (length file)) chunk_size = Inr c"
    using p by (auto simp: prepare_def split: sum.splits)
  from prepare_eq [OF C this len, of path] p show "prepared C file pt" "pt_secrets pt = secrets" by auto
qed

lemma admit_now: "admits (ra_policy adm) r \<Longrightarrow> admit_route r tid adm q clock observe = Some (Inr r, push_opt (route_event tid r) q)"
  by (simp add: admit_route_def poll_until_admissible_def)

lemma cc_new_fields: "cc_send_counter (cc_new C prk th2 d) = 0" "cc_epoch (cc_new C prk th2 d) = 0"
  by (simp_all add: cc_new_def cc_epoch_def derive_epoch_def Let_def)

lemma transfer_run:
  assumes C: "aead_ok C" "kdf_lens C" and K: "sig_ok K" "kem_ok K"
    and ids: "ida = identity_from_seed C K seed_a" "idb = identity_from_seed C K seed_b" "length ep_a = 32" "length ep_b = 32"
    and prep: "prepare C secrets path chunk_size (Some (of_nat (length file))) (Some file) = Some (Inr pt)"
    and fl: "fs_ok secrets" "length file < 2 ^ 64" "unat (oc_chunk_count (pt_ctx pt)) \<le> 2 ^ 14" "reads_file env file"
    and name: "utf8_valid name" "length name \<le> MAX_TEXT_LEN"
    and lens: "length (sv_nonce env) = 32" "length (rv_nonce renv) = 32" "length (sv_envelope_nonce env) = 24" "length (sv_manifest_nonce env) = 24"
    and time: "abs_diff (sv_hello_time env) (rv_hello_time renv) \<le> TIMESTAMP_WINDOW_SECS" "unat (sv_now env) + 3600 < 2 ^ 64"
      "rv_now renv < sv_now env + 3600" "sv_now env \<le> sat_add (rv_now renv) 300"
    and shared: "x_dh K (sv_ex_secret env) (x_public K (rv_ex_secret renv)) \<noteq> replicate 32 0"
    and fresh: "dp_device_id (identity_public K ida) @ sv_nonce env \<notin> rc_seen (rx_replay rx)"
    and met: "sv_remote env = Ready ep_b" "rv_accept renv = Accepted ep_a"
    and routes: "admits (ra_policy adm) (sv_route env)" "admits (ra_policy adm') (rv_route renv)"
    and calm: "calm_send (ra_policy adm) env" "calm_recv (ra_policy adm') renv"
    and resume: "resume_holds C renv (pt_ctx pt) file (case rx_file rx of None \<Rightarrow> [] | Some bs \<Rightarrow> bs)"
  shows "\<exists>A B rep rep' ev rx'.
    send_pending C K env ida ep_a ep_b pt name events adm B = Some (Inr rep, A, ev) \<and>
    receive_file C K renv idb ep_b adm' A rx = Some (Inr rep', rx') \<and> rx_out rx' = B \<and>
    rx_file rx' = Some file \<and> summary rep' = summary rep \<and> tr_plaintext_digest rep = blake3 C file"
proof -
  note pt = prepare_prepared [OF C prep fl(2)]
  have sec: "fs_ok (pt_secrets pt)" using fl(1) pt(2) by simp
  have it: "\<forall>k. sv_in_time env k" "\<forall>k. rv_in_time renv k" "\<And>n. sv_wire env n = Taken" "\<And>n. rv_wire renv n = Taken"
    using calm by (simp_all add: calm_send_def calm_recv_def)
  obtain A0 B0 ka kb rc' where sh: "\<forall>rest. send_handshake C K env ida ep_a ep_b (B0 @ rest) = Some (Inr (ka, rest), A0)"
    and rh: "\<forall>rest. recv_handshake C K renv idb ep_b ep_a (rx_replay rx) (A0 @ rest) = Some (Inr (kb, rest), B0, rc')"
    and ks: "sk_peer ka = identity_public K idb" "sk_peer kb = identity_public K ida" "sk_transfer_wrap_key kb = sk_transfer_wrap_key ka"
    and lk: "linked (cc_new C (sk_handshake_prk ka) (sk_th2 ka) ClientToServer) (cc_new C (sk_handshake_prk kb) (sk_th2 kb) ServerToClient)"
    by (rule handshake_exchange [OF K C(2) ids(1,2) lens(1,2) ids(3,4) time(1) fresh shared it])
  obtain A B sum where
    ex: "\<forall>s. s_control s = cc_new C (sk_handshake_prk ka) (sk_th2 ka) ClientToServer \<and> s_in s = B \<and> ra_policy (rw_admission (s_watch s)) = ra_policy adm \<longrightarrow>
      (\<exists>rep s'. send_object C K env pt ida ka ep_a name s = Some (Inr rep, s') \<and> s_out s' = s_out s @ A \<and> summary rep = sum)"
    "\<forall>t. s_control t = cc_new C (sk_handshake_prk kb) (sk_th2 kb) ServerToClient \<and> s_in t = A \<and> ra_policy (rw_admission (s_watch t)) = ra_policy adm' \<and>
      content t = (case rx_file rx of None \<Rightarrow> [] | Some bs \<Rightarrow> bs) \<longrightarrow>
      (\<exists>rep t'. receive_object C K renv idb kb t = Some (Inr rep, t') \<and> s_out t' = s_out t @ B \<and> v_file t' = Some file \<and> summary rep = sum)"
    "sm_digest sum = blake3 C file"
    by (rule object_exchange [OF C K(1) pt(1) sec fl(3) ids(1,2) ks lens(3,4) name ids(3) time(2-4) calm fl(4) resume lk cc_new_fields(1) cc_new_fields(1)
        cc_new_fields(2) cc_new_fields(2)])
  let ?s = "\<lparr>s_in = B, s_out = A0, s_reads = 2, s_control = cc_new C (sk_handshake_prk ka) (sk_th2 ka) ClientToServer,
    s_watch = rw_new (sv_route env) adm (sv_watch_start env), s_events = push_opt (route_event (fs_transfer_id (pt_secrets pt)) (sv_route env)) events\<rparr>"
  let ?rx = "rx\<lparr>rx_events := push_opt (route_event (replicate 32 0) (rv_route renv)) (rx_events rx), rx_out := B0, rx_replay := rc'\<rparr>"
  let ?t = "recv_start C renv kb (rv_route renv) adm' A ?rx"
  obtain rep s' where S: "send_object C K env pt ida ka ep_a name ?s = Some (Inr rep, s')" "s_out s' = A0 @ A" "summary rep = sum"
    using ex(1) [rule_format, of ?s] by (auto simp: rw_new_def)
  obtain rep' t' where T: "receive_object C K renv idb kb ?t = Some (Inr rep', t')" "s_out t' = B0 @ B" "v_file t' = Some file" "summary rep' = sum"
    using ex(2) [rule_format, of ?t] by (auto simp: recv_start_def rw_new_def content_def)
  have "send_pending C K env ida ep_a ep_b pt name events adm (B0 @ B) = Some (Inr rep, A0 @ A, s_events s')"
    using S sh calm(1) met(1) by (simp add: send_pending_def admit_now [OF routes(1)] calm_send_def)
  moreover have "\<exists>rx'. receive_file C K renv idb ep_b adm' (A0 @ A) rx = Some (Inr rep', rx') \<and> rx_out rx' = B0 @ B \<and> rx_file rx' = Some file"
    using T rh calm(2) met(2) by (simp add: receive_file_def admit_now [OF routes(2)] calm_recv_def)
  moreover have "summary rep' = summary rep" "tr_plaintext_digest rep = blake3 C file" using S(3) T(4) ex(3) by (auto simp: summary_def)
  ultimately show ?thesis by blast
qed



section \<open>A sample run\<close>

definition sample_send_env :: send_env where
  "sample_send_env = \<lparr>sv_ex_secret = [1], sv_kem_randomness = [2], sv_nonce = replicate 32 3, sv_enc_randomness = [], sv_sig_randomness = [],
    sv_envelope_nonce = replicate 24 1, sv_manifest_nonce = replicate 24 2, sv_offer_randomness = [], sv_hello_time = 1000, sv_now = 1000,
    sv_remote = Ready (replicate 32 5), sv_route = Relay, sv_clock = (\<lambda>k. 100 * k), sv_observe = (\<lambda>_. Relay), sv_stream = Ready (), sv_wire = (\<lambda>_. Taken), sv_watch_start = 0,
    sv_poll = (\<lambda>_. (0, Relay)), sv_in_time = (\<lambda>_. True), sv_open = True, sv_read = (\<lambda>pos len. Inr (take len (drop (unat pos) [7, 8, 9])))\<rparr>"

definition sample_recv_env :: recv_env where
  "sample_recv_env = \<lparr>rv_accept = Accepted (replicate 32 4), rv_route = Relay, rv_clock = (\<lambda>k. 100 * k), rv_observe = (\<lambda>_. Relay), rv_stream = Ready (), rv_wire = (\<lambda>_. Taken),
    rv_watch_start = 0, rv_in_time = (\<lambda>_. True), rv_ex_secret = [6], rv_kem_randomness = [7], rv_enc_randomness = [8], rv_nonce = replicate 32 9,
    rv_sig_randomness = [], rv_hello_time = 1100, rv_now = 1100, rv_dest = [], rv_resume = True, rv_stored = None, rv_open = True, rv_set_len = True,
    rv_write = (\<lambda>_. None), rv_sync = (\<lambda>_. True), rv_commit = (\<lambda>_. \<lparr>io_create = True, io_write = True, io_sync = True, io_rename = True\<rparr>),
    rv_poll = (\<lambda>_. (0, Relay)), rv_final_sync = True, rv_final_commit = \<lparr>io_create = True, io_write = True, io_sync = True, io_rename = True\<rparr>,
    rv_readback = True, rv_remove_file = True, rv_remove_record = Removed\<rparr>"

definition sample_rx :: received where
  "sample_rx = \<lparr>rx_out = [], rx_events = None, rx_replay = rc_default, rx_file = None,
    rx_disk = \<lparr>dk_written = {}, dk_synced = {}, dk_records = []\<rparr>\<rparr>"

lemma sample_prepare:
  obtains pt where "prepare sample_prims sample_secrets [] 65536 (Some 3) (Some [7, 8, 9]) = Some (Inr pt)"
    "oc_chunk_count (pt_ctx pt) = 1"
proof -
  obtain c where c: "for_file (fs_transfer_id sample_secrets) (fs_object_id sample_secrets) (of_nat (length [7, 8, 9 :: u8])) 65536 = Inr c" "oc_chunk_count c = 1"
    by (simp add: for_file_def ALLOWED_CHUNK_SIZES_def div_ceil_def OBJ_MAX_CHUNK_COUNT_def Let_def)
  then show thesis
    using that prepare_eq [OF sample_prims_ok(1,3) c(1), of "[]"] by auto
qed

lemma sample_calm: "calm_send AnyRoute sample_send_env" "calm_recv AnyRoute sample_recv_env" "reads_file sample_send_env [7, 8, 9]"
  by (simp_all add: calm_send_def calm_recv_def commit_ok_def reads_file_def sample_send_env_def sample_recv_env_def)

lemma sample_transfer:
  "\<exists>pt A B rep rep' ev rx'. prepare sample_prims sample_secrets [] 65536 (Some 3) (Some [7, 8, 9]) = Some (Inr pt) \<and>
    send_pending sample_prims sample_pk sample_send_env sample_initiator (replicate 32 4) (replicate 32 5) pt (ascii ''f'') None ra_default B =
      Some (Inr rep, A, ev) \<and>
    receive_file sample_prims sample_pk sample_recv_env sample_responder (replicate 32 5) ra_default A sample_rx = Some (Inr rep', rx') \<and>
    rx_file rx' = Some [7, 8, 9] \<and> summary rep' = summary rep"
proof -
  obtain pt where pt: "prepare sample_prims sample_secrets [] 65536 (Some (of_nat (length [7, 8, 9 :: u8]))) (Some [7, 8, 9]) = Some (Inr pt)"
    "oc_chunk_count (pt_ctx pt) = 1" using sample_prepare by auto
  then have small: "unat (oc_chunk_count (pt_ctx pt)) \<le> 2 ^ 14" by simp
  have n: "utf8_valid (ascii ''f'')" "length (ascii ''f'') \<le> MAX_TEXT_LEN" by code_simp+
  have "\<exists>A B rep rep' ev rx'.
    send_pending sample_prims sample_pk sample_send_env sample_initiator (replicate 32 4) (replicate 32 5) pt (ascii ''f'') None ra_default B =
      Some (Inr rep, A, ev) \<and>
    receive_file sample_prims sample_pk sample_recv_env sample_responder (replicate 32 5) ra_default A sample_rx = Some (Inr rep', rx') \<and> rx_out rx' = B \<and>
    rx_file rx' = Some [7, 8, 9] \<and> summary rep' = summary rep \<and> tr_plaintext_digest rep = blake3 sample_prims [7, 8, 9]"
    by (rule transfer_run [OF sample_prims_ok(1,3) sample_pk_ok sample_initiator_def sample_responder_def _ _ pt(1) _ _ small sample_calm(3) n])
      (use sample_run sample_calm in \<open>simp_all add: sample_send_env_def sample_recv_env_def sample_rx_def fs_ok_def sample_secrets_def
        ra_default_def resume_holds_def sat_add_def word_less_nat_alt\<close>)
  moreover have "prepare sample_prims sample_secrets [] 65536 (Some 3) (Some [7, 8, 9]) = Some (Inr pt)" using pt(1) by simp
  ultimately show ?thesis by blast
qed

section \<open>What a successful receive went through\<close>

lemma receive_file_steps:
  assumes "receive_file C K env identity ep adm stream rx = Some (Inr report, rx')"
  obtains peer session rest out replay frame rest' ch t p t1 t2 digest where "rv_accept env = Accepted peer"
    "recv_handshake C K env identity ep peer (rx_replay rx) stream = Some (Inr (session, rest), out, replay)"
    "expect_frame C (cc_new C (sk_handshake_prk session) (sk_th2 session) ServerToClient) (rv_in_time env 2) FRAME_OFFER rest = (Inr (frame, rest'), ch)"
    "accept_offer C K (rv_now env) identity session frame t = Some (Inr p, t1)" "receive_body C env p t1 = Some (Inr digest, t2)"
    "rx_file rx' = v_file t2" "tr_bytes report = logical_plaintext_size (rp_ctx p)" "tr_plaintext_digest report = digest"
    "tr_peer_device_id report = dp_device_id (sk_peer session)" "tr_transfer_id report = fs_transfer_id (rp_secrets p)"
    "tr_object_id report = fs_object_id (rp_secrets p)"
proof -
  obtain peer r q session rest out replay s where h: "rv_accept env = Accepted peer"
    "recv_handshake C K env identity ep peer (rx_replay rx) stream = Some (Inr (session, rest), out, replay)"
    "receive_object C K env identity session (recv_start C env session r adm rest (rx\<lparr>rx_events := q, rx_out := out, rx_replay := replay\<rparr>)) =
      Some (Inr report, s)" "rx_file rx' = v_file s"
    using assms by (auto simp: receive_file_def Let_def split: accepted.splits waited.splits bind_splits sum.splits)
  let ?s = "recv_start C env session r adm rest (rx\<lparr>rx_events := q, rx_out := out, rx_replay := replay\<rparr>)"
  obtain frame t p t1 digest where o: "a_expect C (rv_in_time env) FRAME_OFFER ?s = Some (Inr frame, t)"
    "accept_offer C K (rv_now env) identity session frame t = Some (Inr p, t1)" "receive_body C env p t1 = Some (Inr digest, s)"
    and rep: "tr_bytes report = logical_plaintext_size (rp_ctx p)" "tr_plaintext_digest report = digest"
    "tr_peer_device_id report = dp_device_id (sk_peer session)" "tr_transfer_id report = fs_transfer_id (rp_secrets p)"
    "tr_object_id report = fs_object_id (rp_secrets p)"
    using h(3) by (auto simp: receive_object_def act_iff)
  obtain rest' ch where "expect_frame C (cc_new C (sk_handshake_prk session) (sk_th2 session) ServerToClient) (rv_in_time env 2) FRAME_OFFER rest =
      (Inr (frame, rest'), ch)"
    using o(1) by (auto simp: a_expect_def recv_start_def split: sum.splits prod.splits)
  with h o rep show thesis by (intro that)
qed

text \<open>Accepting an offer looks at the device identifier of the session's peer and at nothing else of its certificate.\<close>

lemma accept_offer_peer:
  assumes "dp_device_id peer = dp_device_id (sk_peer session)"
  shows "accept_offer C K now identity (session\<lparr>sk_peer := peer\<rparr>) frame = accept_offer C K now identity session frame"
  using assms by (simp add: accept_offer_def open_offer_envelope_def match_manifests_def)

section \<open>Properties\<close>

text \<open>C1: Two devices that follow the protocol complete a transfer. Given a file the sender prepared, of at most 16384 chunks, clocks close
  enough for the handshake and the offer, a fresh nonce, a non-zero X25519 secret, paths both policies admit and system calls that
  succeed, there are the two byte streams of a session: the sender run on the receiver's output writes the sender's output, the receiver
  run on that writes the receiver's, both report success about the same object, and the destination holds the file byte for byte. It
  holds for a fresh destination as well as for one resumed, if the destination has the chunks the stored record names and the record leaves at
  most 1024 gaps, the number of ranges one request may carry (\<open>resume_holds\<close>).\<close>

theorem transfer_completes:
  assumes C: "aead_ok C" "kdf_lens C" and K: "sig_ok K" "kem_ok K"
    and ids: "ida = identity_from_seed C K seed_a" "idb = identity_from_seed C K seed_b" "length ep_a = 32" "length ep_b = 32"
    and prep: "prepare C secrets path chunk_size (Some (of_nat (length file))) (Some file) = Some (Inr pt)"
    and fl: "fs_ok secrets" "length file < 2 ^ 64" "unat (oc_chunk_count (pt_ctx pt)) \<le> 2 ^ 14" "reads_file env file"
    and name: "utf8_valid name" "length name \<le> MAX_TEXT_LEN"
    and lens: "length (sv_nonce env) = 32" "length (rv_nonce renv) = 32" "length (sv_envelope_nonce env) = 24" "length (sv_manifest_nonce env) = 24"
    and time: "abs_diff (sv_hello_time env) (rv_hello_time renv) \<le> TIMESTAMP_WINDOW_SECS" "unat (sv_now env) + 3600 < 2 ^ 64"
      "rv_now renv < sv_now env + 3600" "sv_now env \<le> sat_add (rv_now renv) 300"
    and shared: "x_dh K (sv_ex_secret env) (x_public K (rv_ex_secret renv)) \<noteq> replicate 32 0"
    and fresh: "dp_device_id (identity_public K ida) @ sv_nonce env \<notin> rc_seen (rx_replay rx)"
    and met: "sv_remote env = Ready ep_b" "rv_accept renv = Accepted ep_a"
    and routes: "admits (ra_policy adm) (sv_route env)" "admits (ra_policy adm') (rv_route renv)"
    and calm: "calm_send (ra_policy adm) env" "calm_recv (ra_policy adm') renv"
    and resume: "resume_holds C renv (pt_ctx pt) file (case rx_file rx of None \<Rightarrow> [] | Some bs \<Rightarrow> bs)"
  shows "\<exists>A B rep rep' ev rx'.
    send_pending C K env ida ep_a ep_b pt name events adm B = Some (Inr rep, A, ev) \<and>
    receive_file C K renv idb ep_b adm' A rx = Some (Inr rep', rx') \<and> rx_out rx' = B \<and>
    rx_file rx' = Some file \<and> summary rep' = summary rep \<and> tr_plaintext_digest rep = blake3 C file"
  using assms by (rule transfer_run)

theorem transfer_completes_witness:
  "\<exists>pt A B rep rep' ev rx'. prepare sample_prims sample_secrets [] 65536 (Some 3) (Some [7, 8, 9]) = Some (Inr pt) \<and>
    send_pending sample_prims sample_pk sample_send_env sample_initiator (replicate 32 4) (replicate 32 5) pt (ascii ''f'') None ra_default B =
      Some (Inr rep, A, ev) \<and>
    receive_file sample_prims sample_pk sample_recv_env sample_responder (replicate 32 5) ra_default A sample_rx = Some (Inr rep', rx') \<and>
    rx_file rx' = Some [7, 8, 9] \<and> summary rep' = summary rep"
proof -
  obtain pt where pt: "prepare sample_prims sample_secrets [] 65536 (Some (of_nat (length [7, 8, 9 :: u8]))) (Some [7, 8, 9]) = Some (Inr pt)"
    "oc_chunk_count (pt_ctx pt) = 1" using sample_prepare by auto
  then have small: "unat (oc_chunk_count (pt_ctx pt)) \<le> 2 ^ 14" by simp
  have n: "utf8_valid (ascii ''f'')" "length (ascii ''f'') \<le> MAX_TEXT_LEN" by code_simp+
  have "\<exists>A B rep rep' ev rx'.
    send_pending sample_prims sample_pk sample_send_env sample_initiator (replicate 32 4) (replicate 32 5) pt (ascii ''f'') None ra_default B =
      Some (Inr rep, A, ev) \<and>
    receive_file sample_prims sample_pk sample_recv_env sample_responder (replicate 32 5) ra_default A sample_rx = Some (Inr rep', rx') \<and> rx_out rx' = B \<and>
    rx_file rx' = Some [7, 8, 9] \<and> summary rep' = summary rep \<and> tr_plaintext_digest rep = blake3 sample_prims [7, 8, 9]"
    by (rule transfer_completes [OF sample_prims_ok(1,3) sample_pk_ok sample_initiator_def sample_responder_def _ _ pt(1) _ _ small sample_calm(3) n])
      (use sample_run sample_calm in \<open>simp_all add: sample_send_env_def sample_recv_env_def sample_rx_def fs_ok_def sample_secrets_def
        ra_default_def resume_holds_def sat_add_def word_less_nat_alt\<close>)
  moreover have "prepare sample_prims sample_secrets [] 65536 (Some 3) (Some [7, 8, 9]) = Some (Inr pt)" using pt(1) by simp
  ultimately show ?thesis by blast
qed

text \<open>C2: Whatever bytes the network delivers and however the system calls turn out, when a receive succeeds, the destination holds a file of the
  announced length whose digest is the one reported. Length and digest come from the private manifest of the offer that arrived in the
  first protected frame of the session this stream's handshake set up. The offer is addressed to this device, names the device identifier
  of the session's peer as its sender and carries a valid hybrid signature under the keys it names; its envelope for this device opened with the
  session's wrap key, joins the two devices, and delivered the secrets that opened the manifest. The keys under which the offer is signed
  are the offer's own: the check compares identifiers, and with any other keys of the same identifier in the session's certificate it comes out the same.\<close>

theorem receive_integrity:
  assumes "receive_file C K env identity local_endpoint admission stream rx = Some (Inr report, rx')"
  shows "\<exists>peer session rest out replay frame rest' ch offer public entry opened private file.
    rv_accept env = Accepted peer \<and>
    recv_handshake C K env identity local_endpoint peer (rx_replay rx) stream = Some (Inr (session, rest), out, replay) \<and>
    expect_frame C (cc_new C (sk_handshake_prk session) (sk_th2 session) ServerToClient) (rv_in_time env 2) FRAME_OFFER rest = (Inr (frame, rest'), ch) \<and>
    offer_decode frame = Inr offer \<and> offer_verify C K offer (rs_device (id_device_id identity)) (rv_now env) = Some (Inr public) \<and>
    dp_device_id (of_sender_device offer) = dp_device_id (sk_peer session) \<and> tr_peer_device_id report = dp_device_id (sk_peer session) \<and>
    envelope_for offer (id_device_id identity) = Some entry \<and>
    open_envelope_at C \<lparr>se_nonce = ke_nonce entry, se_ciphertext = ke_ciphertext entry\<rparr> (sk_transfer_wrap_key session) (rv_now env) = Inr opened \<and>
    oe_sender_device_id opened = dp_device_id (sk_peer session) \<and> oe_recipient_device_id opened = id_device_id identity \<and>
    pm_transfer_id public = tr_transfer_id report \<and> fs_transfer_id (oe_secrets opened) = tr_transfer_id report \<and>
    fs_object_id (oe_secrets opened) = tr_object_id report \<and>
    open_private_manifest C (of_sealed_manifest offer) (ks_manifest_key (key_schedule C (oe_secrets opened))) (tr_transfer_id report)
      (tr_object_id report) (tr_peer_device_id report) (rs_device (id_device_id identity)) = Some (Inr private) \<and>
    pv_plaintext_digest private = tr_plaintext_digest report \<and> pv_logical_plaintext_size private = tr_bytes report \<and>
    rx_file rx' = Some file \<and> length file = unat (tr_bytes report) \<and> blake3 C file = tr_plaintext_digest report \<and>
    (\<forall>other (t :: recv_state). dp_device_id other = dp_device_id (sk_peer session) \<longrightarrow>
      accept_offer C K (rv_now env) identity (session\<lparr>sk_peer := other\<rparr>) frame t = accept_offer C K (rv_now env) identity session frame t)"
  using assms
proof (rule receive_file_steps)
  fix peer session rest out replay frame rest' ch t p t1 t2 digest
  assume steps: "rv_accept env = Accepted peer"
    "recv_handshake C K env identity local_endpoint peer (rx_replay rx) stream = Some (Inr (session, rest), out, replay)"
    "expect_frame C (cc_new C (sk_handshake_prk session) (sk_th2 session) ServerToClient) (rv_in_time env 2) FRAME_OFFER rest = (Inr (frame, rest'), ch)"
    and acc: "accept_offer C K (rv_now env) identity session frame t = Some (Inr p, t1)" and body: "receive_body C env p t1 = Some (Inr digest, t2)"
    and rep: "rx_file rx' = v_file t2" "tr_bytes report = logical_plaintext_size (rp_ctx p)" "tr_plaintext_digest report = digest"
    "tr_peer_device_id report = dp_device_id (sk_peer session)" "tr_transfer_id report = fs_transfer_id (rp_secrets p)"
    "tr_object_id report = fs_object_id (rp_secrets p)"
  note ok = accept_offer_object(2) [OF acc]
  obtain "file" where fl: "v_file t2 = Some file" "length file = unat (encoded_plaintext_size (rp_ctx p))" "digest = blake3 C file" "digest = rp_expected_digest p"
    using receive_body_sound [OF body ok] by blast
  obtain offer public object_public "private" where o: "offer_decode frame = Inr offer" "dp_device_id (of_sender_device offer) = dp_device_id (sk_peer session)"
    "offer_verify C K offer (rs_device (id_device_id identity)) (rv_now env) = Some (Inr public)"
    "open_offer_envelope C (rv_now env) identity session offer t = Some (Inr (rp_secrets p), t)"
    "match_manifests C identity session offer public (rp_secrets p) t = Some (Inr (object_public, private), t)"
    "object_of_offer C (rp_secrets p) object_public private t = Some (Inr (rp_ctx p), t)" "rp_expected_digest p = pv_plaintext_digest private"
    using acc unfolding accept_offer_iff by blast
  have size: "pv_logical_plaintext_size private = logical_plaintext_size (rp_ctx p)" "logical_plaintext_size (rp_ctx p) = encoded_plaintext_size (rp_ctx p)"
    using o(6) for_file_ok ok by (auto simp: object_of_offer_iff oc_ok_def)
  obtain entry opened where env: "envelope_for offer (id_device_id identity) = Some entry"
    "open_envelope_at C \<lparr>se_nonce = ke_nonce entry, se_ciphertext = ke_ciphertext entry\<rparr> (sk_transfer_wrap_key session) (rv_now env) = Inr opened"
    "oe_sender_device_id opened = dp_device_id (sk_peer session)" "oe_recipient_device_id opened = id_device_id identity" "oe_secrets opened = rp_secrets p"
    using o(4) by (auto simp: open_offer_envelope_iff)
  show ?thesis
    using steps o(1-3) env fl rep size o(5,7) by (intro exI conjI allI impI) (assumption | simp add: match_manifests_iff accept_offer_peer)+
qed

theorem receive_integrity_witness:
  "\<exists>A rep rx' file. receive_file sample_prims sample_pk sample_recv_env sample_responder (replicate 32 5) ra_default A sample_rx =
      Some (Inr rep, rx') \<and> rx_file rx' = Some file \<and> blake3 sample_prims file = tr_plaintext_digest rep"
proof -
  obtain A rep rx' where r: "receive_file sample_prims sample_pk sample_recv_env sample_responder (replicate 32 5) ra_default A sample_rx =
      Some (Inr rep, rx')" using sample_transfer by blast
  with receive_integrity [OF r] show ?thesis by blast
qed

end
