(* ===== verification/Rtp_Robust.thy ===== *)
theory Rtp_Robust
  imports Rtp_Transfer
begin

text \<open>
  What holds of the two ends of a transfer whatever the peer sends and however system calls turn out: both return, the receiver's
  record and disk go through a run of the resume protocol, and the sender's cache makes no difference.
\<close>

section \<open>The record and the disk of a receive\<close>

definition on_track :: "prims \<Rightarrow> recv_env \<Rightarrow> recv_params \<Rightarrow> recv_state \<Rightarrow> bool" where
  "on_track C env p s \<longleftrightarrow> (\<exists>db. v_db s = Some db \<and> resume_run C (identity_of p) (rv_dest env) db (v_disk s))"

lemma on_track_simps [simp]:
  "on_track C env p (s\<lparr>s_events := q\<rparr>) = on_track C env p s" "on_track C env p (s\<lparr>s_watch := w\<rparr>) = on_track C env p s"
  "on_track C env p (s\<lparr>s_control := ch\<rparr>) = on_track C env p s" "on_track C env p (s\<lparr>s_out := out\<rparr>) = on_track C env p s"
  "on_track C env p (s\<lparr>s_in := i\<rparr>) = on_track C env p s" "on_track C env p (s\<lparr>s_reads := k\<rparr>) = on_track C env p s"
  "on_track C env p (s\<lparr>v_file := f\<rparr>) = on_track C env p s" "on_track C env p (s\<lparr>v_have := b\<rparr>) = on_track C env p s"
  "on_track C env p (s\<lparr>v_streaming := st\<rparr>) = on_track C env p s" "on_track C env p (s\<lparr>v_verified_bytes := vb\<rparr>) = on_track C env p s"
  "on_track C env p (s\<lparr>v_received := n\<rparr>) = on_track C env p s"
  by (simp_all add: on_track_def)

definition wrote :: "prims \<Rightarrow> recv_env \<Rightarrow> recv_params \<Rightarrow> u64 \<Rightarrow> recv_state \<Rightarrow> bool" where
  "wrote C env p i s \<longleftrightarrow> on_track C env p s \<and> i \<in> dk_written (v_disk s)"

lemma write_chunk_track: "ends (on_track C env p) (write_chunk env p k i pt) (\<lambda>_. wrote C env p i) (\<lambda>_. on_track C env p)"
  by (rule endsI; clarsimp simp: write_chunk_def Let_def bd_def upd_def lift_res_def on_track_def wrote_def split: option.splits)
     (blast intro: resume_run.data)

lemma note_verified_track: "ends (wrote C env p i) (note_verified j) (\<lambda>_. wrote C env p i) (\<lambda>_. on_track C env p)"
  by (rule endsI) (auto simp: note_verified_def on_track_def wrote_def intro: resume_run.verified split: option.splits sum.splits prod.splits)

lemma note_have_track: "ends (wrote C env p i) (note_have j) (\<lambda>_. wrote C env p i) (\<lambda>_. on_track C env p)"
  by (rule endsI) (auto simp: note_have_def wrote_def split: sum.splits)

lemma note_written_track: "ends (wrote C env p i) (note_written C env k i) (\<lambda>_. on_track C env p) (\<lambda>_. on_track C env p)"
  by (rule endsI) (auto simp: note_written_def on_track_def wrote_def intro: resume_run.written split: option.splits sum.splits bind_splits prod.splits)

lemma store_chunk_track: "keeps (on_track C env p) (store_chunk C env p i pt)"
  unfolding store_chunk_def Let_def
  by (intro ends_bd [OF ends_pure(6)] ends_bd [OF write_chunk_track] ends_bd [OF note_verified_track] ends_bd [OF note_have_track]
      ends_bd [OF ends_poll] ends_bd [OF ends_upd [where Q = "\<lambda>_. wrote C env p i"]] ends_bd [OF ends_event] note_written_track) (auto simp: wrote_def)

lemma chunk_step_track: "keeps (on_track C env p) (chunk_step C env p payload)"
  unfolding chunk_step_def Let_def
  by (intro ends_bd [OF ends_pure(2)] ends_bd [OF ends_pure(4)] ends_bd [OF ends_pure(5)] ends_bd [OF ends_pure(6)])
     (auto split: prod.splits intro!: ends_bd [OF ends_pure(2)] ends_bd [OF ends_pure(4)] ends_bd [OF ends_pure(5)] ends_bd [OF ends_pure(6)]
       ends_pure(1) store_chunk_track)

lemma recv_loop_track: "recv_loop C env p s = Some (r, s') \<Longrightarrow> on_track C env p s \<Longrightarrow> on_track C env p s'"
proof (induction C env p s rule: recv_loop.induct)
  case (1 C env p s)
  obtain q s1 where q: "a_recv C (rv_in_time env) s = Some (q, s1)" by (cases "a_recv C (rv_in_time env) s") (auto simp: a_recv_def split: sum.splits prod.splits)
  have s1: "on_track C env p s1" using q 1(3) by (auto simp: a_recv_def split: sum.splits prod.splits)
  show ?case
  proof (cases "\<exists>payload. q = Inr (FRAME_CHUNK, payload)")
    case True
    then obtain payload where p: "q = Inr (FRAME_CHUNK, payload)" by blast
    obtain x s2 where x: "chunk_step C env p payload s1 = Some (x, s2)"
      using 1(2) q p by (auto simp: recv_loop.simps [of C env p s] split: option.splits)
    have "on_track C env p s2" using endsD [OF chunk_step_track s1 x] by (simp split: sum.splits)
    with 1 q p x show ?thesis by (cases x) (auto simp: recv_loop.simps [of C env p s])
  next
    case False
    then have "s' = s1" using 1(2) q by (auto simp: recv_loop.simps [of C env p s] split: sum.splits if_splits)
    with s1 show ?thesis by simp
  qed
qed

lemma recv_loop_keeps: "keeps (on_track C env p) (recv_loop C env p)"
  by (rule endsI) (blast intro: recv_loop_track)+

lemma sync_file_track: "keeps (on_track C env p) (sync_file env)"
  by (rule endsI; clarsimp simp: sync_file_def on_track_def split: sum.splits prod.splits) (blast intro: resume_run.flush)+

lemma sync_commit_track: "keeps (on_track C env p) (bd (sync_file env) (\<lambda>_. commit_record C env))"
proof (rule endsI)
  have run: "on_track C env p s'" if "on_track C env p s" "bd (sync_file env) (\<lambda>_. commit_record C env) s = Some (r, s')" for r s s'
  proof (cases "rv_final_sync env")
    case True
    from that obtain db where db: "v_db s = Some db" "resume_run C (identity_of p) (rv_dest env) db (v_disk s)" by (auto simp: on_track_def)
    obtain dk where dk: "sync_data True (v_disk s) = (Inr (), dk)" by (simp add: sync_data_def)
    with True that(2) db(1) obtain res db' dk' where "checkpoint C db (rv_final_commit env) dk = Some (res, db', dk')" "s' = s\<lparr>v_disk := dk', v_db := Some db'\<rparr>"
      by (auto simp: bd_def sync_file_def commit_record_def split: bind_splits sum.splits)
    with resume_run.final [OF db(2) dk] show ?thesis by (simp add: on_track_def)
  next
    case False
    with that show ?thesis by (auto simp: bd_def sync_file_def sync_data_def)
  qed
  show "on_track C env p s \<Longrightarrow> bd (sync_file env) (\<lambda>_. commit_record C env) s = Some (Inl e, s') \<Longrightarrow> on_track C env p s'" for s e s' by (rule run)
  show "on_track C env p s \<Longrightarrow> bd (sync_file env) (\<lambda>_. commit_record C env) s = Some (Inr x, s') \<Longrightarrow> on_track C env p s'" for s x s' by (rule run)
qed

lemma check_complete_track: "keeps (on_track C env p) (check_complete C env)"
  unfolding check_complete_def
  by (intro ends_bd [OF ends_pure(6)]) (auto intro!: ends_bd [OF sync_commit_track] sync_file_track ends_bd [OF ends_pure(1)] ends_pure(2))

lemma object_digest_track: "keeps (on_track C env p) (object_digest C env p)"
  unfolding object_digest_def
  by (intro ends_bd [OF ends_pure(6)]) (auto split: option.splits intro!: ends_bd [OF ends_pure(5)] ends_pure(1))

text \<open>
  The ways a receive ends besides: the record was released, the destination and the record were discarded because the digest does not
  match, or the record could not be opened.
\<close>

definition released :: "prims \<Rightarrow> recv_env \<Rightarrow> recv_params \<Rightarrow> recv_state \<Rightarrow> bool" where
  "released C env p s \<longleftrightarrow> v_db s = None \<and> (\<exists>db. resume_run C (identity_of p) (rv_dest env) db (v_disk s))"

definition discarded :: "recv_env \<Rightarrow> transfer_error \<Rightarrow> recv_state \<Rightarrow> bool" where
  "discarded env e s \<longleftrightarrow> e = Crypto ''plaintext digest mismatch'' \<and> v_db s = None \<and> (rv_remove_record env = Removed \<longrightarrow> dk_records (v_disk s) = [])"

definition unopened :: "disk \<Rightarrow> recv_state \<Rightarrow> bool" where
  "unopened dk s \<longleftrightarrow> v_db s = None \<and> v_disk s = dk"

lemma released_simps [simp]:
  "released C env p (s\<lparr>s_events := q\<rparr>) = released C env p s" "released C env p (s\<lparr>s_control := ch\<rparr>) = released C env p s"
  "released C env p (s\<lparr>s_out := out\<rparr>) = released C env p s"
  by (simp_all add: released_def)

lemma drop_record_track: "ends (on_track C env p) (drop_record env) (\<lambda>_. released C env p) (\<lambda>_. released C env p)"
  by (rule endsI; clarsimp simp: drop_record_def on_track_def released_def split: option.splits sum.splits prod.splits) (blast intro: resume_run.remove)+

definition ended :: "prims \<Rightarrow> recv_env \<Rightarrow> recv_params \<Rightarrow> disk \<Rightarrow> transfer_error \<Rightarrow> recv_state \<Rightarrow> bool" where
  "ended C env p dk e s \<longleftrightarrow> on_track C env p s \<or> released C env p s \<or> discarded env e s \<or> unopened dk s"

lemma check_digest_track: "ends (on_track C env p) (check_digest env p digest) (\<lambda>_. released C env p) (ended C env p dk)"
proof (cases "ct_eq digest (rp_expected_digest p)")
  case True
  then show ?thesis
    unfolding check_digest_def by (auto intro!: ends_mono [OF drop_record_track] simp: ended_def)
next
  case False
  show ?thesis
  proof (rule endsI)
    fix s e s' assume "on_track C env p s" "check_digest env p digest s = Some (Inl e, s')"
    with False show "ended C env p dk e s'"
      by (auto simp: check_digest_def on_track_def bd_def upd_def ignore_err_def drop_record_def db_remove_def lift_res_def ended_def discarded_def
          split: remove_result.splits if_splits)
  next
    fix s x s' assume "on_track C env p s" "check_digest env p digest s = Some (Inr x, s')"
    with False show "released C env p s'"
      by (auto simp: check_digest_def act_iff)
  qed
qed

lemma finish_receive_track: "ends (released C env p) (finish_receive C env p digest) (\<lambda>_. released C env p) (ended C env p dk)"
  unfolding finish_receive_def
  by (intro ends_bd [OF ends_event] ends_bd [OF ends_pure(3)] ends_send) (auto simp: ended_def)

definition may_start :: "prims \<Rightarrow> recv_env \<Rightarrow> recv_params \<Rightarrow> disk \<Rightarrow> bool" where
  "may_start C env p dk \<longleftrightarrow> rv_stored env = None \<and> dk = \<lparr>dk_written = {}, dk_synced = {}, dk_records = []\<rparr> \<or>
    (\<exists>db0 dk0. resume_run C (identity_of p) (rv_dest env) db0 dk0 \<and> dk = dk0\<lparr>dk_written := dk_synced dk0\<rparr> \<and>
      (rv_stored env = None \<or> (\<exists>bs \<in> set (dk_records dk0). rv_stored env = Some bs)))"

lemma open_object_track:
  assumes "may_start C env p dk" and "rv_resume env"
  shows "ends (unopened dk) (open_object C env p) (\<lambda>_. on_track C env p) (ended C env p dk)"
proof -
  have "resume_run C (identity_of p) (rv_dest env) db dk" if "db_open C (rv_stored env) (identity_of p) (rv_dest env) = Inr (db, resumed)" for db resumed
    using assms(1) that unfolding may_start_def by (auto intro: resume_run.fresh resume_run.crash)
  then have rec: "ends (unopened dk) (open_record C env p) (\<lambda>_. on_track C env p) (ended C env p dk)"
    using assms(2) by (intro endsI)
      (auto simp: open_record_def bd_def lift_res_def upd_def unopened_def on_track_def ended_def split: sum.splits)
  have first: "ends (on_track C env p) (first_have p) (\<lambda>_. on_track C env p) (ended C env p dk)"
    unfolding first_have_def
    by (intro ends_bd [OF ends_pure(6)]) (auto simp: ended_def split: option.splits intro!: ends_pure(1,2))
  show ?thesis
    unfolding open_object_def
    by (intro ends_bd [OF rec] ends_bd [OF ends_pure(5)] ends_bd [OF ends_upd [where Q = "\<lambda>_. on_track C env p"]] ends_bd [OF first]
        ends_upd) (auto simp: ended_def)
qed

lemma receive_body_track:
  assumes "may_start C env p dk" and "rv_resume env"
  shows "ends (unopened dk) (receive_body C env p) (\<lambda>_. released C env p) (ended C env p dk)"
proof -
  have ask: "keeps (on_track C env p) (ask_missing C env p)"
    unfolding ask_missing_def by (intro ends_bd [OF ends_pure(6)] ends_bd [OF ends_pure(3)] ends_send) auto
  have bg: "keeps (on_track C env p) (begin_receive p)"
    unfolding begin_receive_def by (intro ends_bd [OF ends_upd [where Q = "\<lambda>_. on_track C env p"]] ends_event) auto
  show ?thesis
    unfolding receive_body_def
    by (intro ends_bd [OF open_object_track [OF assms]] ends_bd [OF ends_keeps [OF ask]] ends_bd [OF ends_keeps [OF bg]]
        ends_bd [OF ends_keeps [OF recv_loop_keeps]] ends_bd [OF ends_keeps [OF check_complete_track]] ends_bd [OF ends_keeps [OF object_digest_track]]
        ends_bd [OF check_digest_track] ends_bd [OF finish_receive_track] ends_pure(1)) (auto simp: ended_def)
qed

section \<open>Both ends return\<close>

lemma verify_proof_total: "verify_proof H leaf index n siblings root \<noteq> None"
  by (simp add: verify_proof_def expected_directions_def expected_directions_eq Let_def)






lemma checkpoint_total: "checkpoint C db io dk \<noteq> None"
  using re_encode_total [of C "db_record db"] by (auto simp: checkpoint_def)

lemma store_chunk_returns: "returns (store_chunk C env p i pt)"
proof -
  have "chunk_written C db i ok io dk \<noteq> None" for db ok io dk
    using checkpoint_total by (simp add: chunk_written_def Let_def sync_data_def split: sum.splits prod.splits)
  then have "returns (note_written C env k i)" for k
    by (auto simp: returns_def note_written_def simp del: not_None_eq split: option.splits bind_splits)
  moreover have "returns (note_verified i)" "returns (note_have i)"
    by (auto simp: returns_def note_verified_def note_have_def split: option.splits sum.splits prod.splits)
  moreover have "returns (write_chunk env p k i pt)" for k
    by (auto simp: write_chunk_def Let_def split: option.splits intro!: returns_bd)
  ultimately show ?thesis unfolding store_chunk_def Let_def by (intro returns_bd) simp_all
qed

lemma chunk_step_returns: "returns (chunk_step C env p payload)"
  unfolding chunk_step_def Let_def
  by (intro returns_bd; (simp split: prod.splits)?) (auto intro!: returns_bd store_chunk_returns simp: verify_proof_total)

lemma recv_loop_returns: "recv_loop C env p s \<noteq> None"
proof (induction C env p s rule: recv_loop.induct)
  case (1 C env p s)
  obtain q s1 where q: "a_recv C (rv_in_time env) s = Some (q, s1)"
    using returns_simps(8) [of C "rv_in_time env"] by (fastforce simp: returns_def)
  show ?case
  proof (cases "\<exists>payload. q = Inr (FRAME_CHUNK, payload)")
    case True
    then obtain payload x s2 where p: "q = Inr (FRAME_CHUNK, payload)" "chunk_step C env p payload s1 = Some (x, s2)"
      using chunk_step_returns by (fastforce simp: returns_def)
    with 1 q show ?thesis by (cases x) (auto simp: recv_loop.simps [of C env p s])
  qed (use q in \<open>auto simp: recv_loop.simps [of C env p s] split: sum.splits\<close>)
qed



lemma receive_body_returns:
  assumes "\<And>n. rv_wire env n \<noteq> Stalled"
  shows "returns (receive_body C env p)"
proof -
  have ack: "encode_ack st d \<noteq> None" for st d by (simp add: encode_ack_def mw_simps)
  have sync: "returns (sync_file env)" "returns (drop_record env)"
    by (auto simp: returns_def sync_file_def drop_record_def split: sum.splits prod.splits option.splits)
  have commit: "returns (commit_record C env)"
    using checkpoint_total by (auto simp: returns_def commit_record_def simp del: not_None_eq split: option.splits bind_splits)
  have "returns (ignore_err (drop_record env))" using sync(2) by (auto simp: returns_def ignore_err_def split: option.splits)
  then have dig: "returns (check_digest env p d)" for d
    unfolding check_digest_def using sync by (auto intro!: returns_bd)
  have op: "returns (open_object C env p)"
    unfolding open_object_def open_record_def first_have_def
    by (intro returns_bd) (auto intro!: returns_bd split: option.splits)
  have cc: "returns (check_complete C env)"
    unfolding check_complete_def by (intro returns_bd) (auto intro!: returns_bd sync commit)
  have od: "returns (object_digest C env p)"
    unfolding object_digest_def by (intro returns_bd) (auto intro!: returns_bd split: option.splits)
  have "returns (recv_loop C env p)" using recv_loop_returns by (simp add: returns_def)
  with op cc od dig ack show ?thesis
    unfolding receive_body_def ask_missing_def begin_receive_def finish_receive_def by (intro returns_bd) (simp_all add: rr_encode_eq returns_send [OF assms])
qed














section \<open>Properties\<close>

lemma produce_without_cache:
  assumes C: "aead_ok C" "kdf_lens C" and pt: "prepared C file pt" and rd: "reads_file env file" and i: "i < oc_chunk_count (pt_ctx pt)"
  shows "produce_chunk_record C env (pt\<lparr>pt_cache := cache_new n 0\<rparr>) i s = produce_chunk_record C env pt i s"
proof -
  let ?pt = "pt\<lparr>pt_cache := cache_new n 0\<rparr>"
  have "prepared C file ?pt" using pt by (auto simp: prepared_def Let_def cache_ok_def cache_get_def cache_new_def)
  from produce_eq [OF C this rd, of i s] i have "produce_chunk_record C env ?pt i s = Some (Inr (record_of C file ?pt i), s)" by simp
  then show ?thesis using produce_eq [OF C pt rd i, of s] by (simp add: record_of_def)
qed

text \<open>C11: The sender's cache of ciphertexts makes no difference: for every chunk of a prepared file that has not changed since, the record
  made with the cache filled while preparing equals the record made by reading and encrypting the chunk again.\<close>

theorem cache_transparent:
  assumes "aead_ok C" "kdf_lens C" and "prepare C secrets path chunk_size (Some (of_nat (length file))) (Some file) = Some (Inr pt)"
    and "length file < 2 ^ 64" and "reads_file env file" and "i < oc_chunk_count (pt_ctx pt)"
  shows "produce_chunk_record C env pt i s = produce_chunk_record C env (pt\<lparr>pt_cache := cache_new (oc_chunk_count (pt_ctx pt)) 0\<rparr>) i s \<and>
    (\<exists>rec. produce_chunk_record C env pt i s = Some (Inr rec, s))"
proof -
  note pt = prepare_prepared(1) [OF assms(1-4)]
  show ?thesis using produce_without_cache [OF assms(1,2) pt assms(5,6), of "oc_chunk_count (pt_ctx pt)" s] produce_eq [OF assms(1,2) pt assms(5,6), of s] by simp
qed

theorem cache_transparent_witness:
  "\<exists>pt. prepare sample_prims sample_secrets [] 65536 (Some 3) (Some [7, 8, 9]) = Some (Inr pt) \<and>
    produce_chunk_record sample_prims sample_send_env pt 0 () =
      produce_chunk_record sample_prims sample_send_env (pt\<lparr>pt_cache := cache_new (oc_chunk_count (pt_ctx pt)) 0\<rparr>) 0 ()"
proof -
  obtain pt where pt: "prepare sample_prims sample_secrets [] 65536 (Some (of_nat (length [7, 8, 9 :: u8]))) (Some [7, 8, 9]) = Some (Inr pt)"
    "oc_chunk_count (pt_ctx pt) = 1" using sample_prepare by auto
  from cache_transparent [OF sample_prims_ok(1,3) pt(1) _ sample_calm(3), of 0 "()"] pt show ?thesis by simp
qed




definition disk_safe :: "prims \<Rightarrow> disk \<Rightarrow> bool" where
  "disk_safe C dk \<longleftrightarrow> (\<forall>bs \<in> set (dk_records dk). \<forall>rec. re_decode C bs = Inr rec \<longrightarrow> held (re_durable rec) \<subseteq> dk_synced dk)"

lemma disk_safe_simps [simp]: "disk_safe C (dk\<lparr>dk_written := w\<rparr>) = disk_safe C dk" "dk_records dk = [] \<Longrightarrow> disk_safe C dk"
  by (simp_all add: disk_safe_def)

text \<open>C3: Receiving is a run of the resume protocol. A receive with a record starts from an empty disk, or after a power loss with any record
  that was ever committed for this object or none; however it ends, record and disk are then those of a run of the protocol that
  \<open>resume_run\<close> describes, and every record on the disk names only chunks whose bytes were flushed to the destination. The exception
  is the end where the digest of the complete file does not match and removing the record fails as well: the destination is gone and the
  record may stay.\<close>

theorem receive_refines_resume:
  assumes "may_start C env p (v_disk s)" and "rv_resume env" and "v_db s = None" and "receive_body C env p s = Some (r, s')"
    and ids: "oi_ok (identity_of p)" "utf8_valid (rv_dest env)" "kdf_lens C"
  shows "(\<forall>db. v_db s' = Some db \<longrightarrow> resume_run C (identity_of p) (rv_dest env) db (v_disk s')) \<and>
    (r = Inl (Crypto ''plaintext digest mismatch'') \<and> rv_remove_record env \<noteq> Removed \<or>
     disk_safe C (v_disk s'))"
proof -
  have start: "unopened (v_disk s) s" using assms(3) by (simp add: unopened_def)
  have safe: "disk_safe C dk" if "resume_run C (identity_of p) (rv_dest env) db dk" for db dk
    using resume_run_safe [OF that ids] by (simp add: disk_safe_def)
  have opened: "disk_safe C (v_disk s)"
    using assms(1) safe unfolding may_start_def by auto
  show ?thesis
  proof (cases r)
    case (Inl e)
    then have "ended C env p (v_disk s) e s'" using endsD [OF receive_body_track [OF assms(1,2)] start assms(4)] by simp
    then consider (track) "on_track C env p s'" | (released) "released C env p s'" | (discarded) "discarded env e s'" | (unopened) "unopened (v_disk s) s'"
      unfolding ended_def by blast
    then show ?thesis
    proof cases
      case track
      then show ?thesis using safe by (auto simp: on_track_def)
    next
      case released
      then show ?thesis using safe by (auto simp: released_def)
    next
      case discarded
      then show ?thesis using Inl by (auto simp: discarded_def)
    next
      case unopened
      then show ?thesis using opened by (simp add: unopened_def)
    qed
  next
    case (Inr d)
    then have "released C env p s'" using endsD [OF receive_body_track [OF assms(1,2)] start assms(4)] by simp
    then show ?thesis using safe by (auto simp: released_def)
  qed
qed

definition sample_params :: recv_params where
  "sample_params = \<lparr>rp_secrets = sample_secrets, rp_ctx = \<lparr>oc_transfer_id = replicate 32 1, oc_object_id = replicate 32 2, logical_plaintext_size = 3,
     encoded_plaintext_size = 3, chunk_plaintext_size = 65536, oc_chunk_count = 1, padding_policy = PADDING_NONE, object_role = ROLE_PRIMARY\<rparr>,
     rp_ctx_hash = [], rp_schedule = key_schedule sample_prims sample_secrets, rp_root = replicate 32 0, rp_expected_digest = [], rp_commitment = replicate 32 0,
     rp_chunk_ciphertext_size = 65552\<rparr>"

definition sample_session :: session_keys where
  "sample_session = \<lparr>sk_role = Responder, sk_handshake_prk = [], sk_th2 = [], sk_control_key_c2s = [], sk_control_key_s2c = [], sk_transfer_wrap_key = [],
     sk_session_resumption_secret = [], sk_peer = identity_public sample_pk sample_initiator, sk_peer_endpoint_id = []\<rparr>"

theorem receive_refines_resume_witness:
  "\<exists>r s'. receive_body sample_prims sample_recv_env sample_params
      (recv_start sample_prims sample_recv_env sample_session Relay ra_default [1, 2, 3] sample_rx) = Some (r, s') \<and>
    (\<forall>db. v_db s' = Some db \<longrightarrow> resume_run sample_prims (identity_of sample_params) [] db (v_disk s')) \<and>
    disk_safe sample_prims (v_disk s')"
proof -
  let ?s = "recv_start sample_prims sample_recv_env sample_session Relay ra_default [1, 2, 3] sample_rx"
  obtain r s' where run: "receive_body sample_prims sample_recv_env sample_params ?s = Some (r, s')"
    using returnsD [OF receive_body_returns [of sample_recv_env sample_prims sample_params], of ?s] by (auto simp: sample_recv_env_def)
  have env: "rv_resume sample_recv_env" "rv_dest sample_recv_env = []" "rv_remove_record sample_recv_env = Removed" "rv_stored sample_recv_env = None"
    by (simp_all add: sample_recv_env_def)
  have start: "may_start sample_prims sample_recv_env sample_params (v_disk ?s)" "v_db ?s = None"
    by (simp_all add: may_start_def env recv_start_def sample_rx_def)
  have "oi_ok (identity_of sample_params)" by (simp add: oi_ok_def identity_of_def sample_params_def sample_secrets_def)
  from receive_refines_resume [OF start(1) env(1) start(2) run this _ sample_prims_ok(3)] run env show ?thesis by auto
qed

end
