(* ===== verification/Spec2Isabelle.thy ===== *)
theory Spec2Isabelle
  imports Rtp_Prelude Rtp_Cbor Rtp_Bitmap Rtp_Merkle Rtp_Crypto Rtp_Keys Rtp_Object Rtp_Scheduler Rtp_Control Rtp_Events Rtp_Event_Go Rtp_Route Rtp_Capability Rtp_Resume Rtp_Frame Rtp_Record Rtp_Skip Rtp_Manifest Rtp_Identity Rtp_Base64 Rtp_Offer Rtp_Handshake Rtp_Session Rtp_Sender Rtp_Receiver Rtp_Delivery Rtp_Transfer Rtp_Robust
begin

text \<open>
  A verification library for the RTP/2 core, the Rust crate \<open>src/prototype/native/rtp2-core\<close> (file names below are those of its
  \<open>src\<close> directory), and for the event decoder of its Go binding, \<open>src/prototype/rtp2/event.go\<close>.

  \<^bold>\<open>The program.\<close> Two devices transfer a file over a QUIC connection. The sender prepares the file: it draws secrets, encrypts
  chunk by chunk, and commits to the ciphertexts with a Merkle root. The two run a hybrid handshake that authenticates both devices and
  gives a control channel. On it the sender makes an offer: a signed public manifest, a sealed private one, and the secrets in an
  envelope for the recipient. The recipient checks the offer, opens its resume record, asks for the missing chunks with a range
  request, verifies, decrypts and writes every chunk, checks the digest of the whole file and acknowledges. Meanwhile both watch the path against a route
  policy and publish events, which the application polls, in Go through \<open>decodeEvent\<close>.

  \<^bold>\<open>Modelling.\<close> A \<open>u8\<close> to \<open>u64\<close> is a word of that width; its operations wrap where the release build wraps, saturate or
  fail where the source asks for it. \<open>usize\<close>, lengths and positions in buffers are \<open>nat\<close>. Structs are records, enums are datatypes,
  strings are their bytes. \<open>Result\<close> is \<open>error + 'a\<close> with the error type of the module, and \<open>None\<close> around it is a panic or a call that does
  not return. Loops are recursive functions with a termination proof; the wait for an admissible path, which ends only because of the clock, is a
  \<open>partial_function\<close>. Random values, clocks, the outcome of each file operation and each transport operation, and what the peer sends, are
  arguments, so every theorem holds for all of them.

  \<^bold>\<open>Theories.\<close>
  \<^item> \<open>Rtp_Prelude\<close>: words as bytes, results, saturating and checked arithmetic, the collection \<open>res_iff\<close>.
  \<^item> \<open>Rtp_Cbor\<close> (\<open>cbor.rs\<close>): writer, map writer, reader. The locale \<open>codec\<close> states what a reader and an encoding owe each other, and
    \<open>list_codec\<close> lifts it to bounded arrays; both are interpreted by the components' own readers. C18.
  \<^item> \<open>Rtp_Bitmap\<close> (\<open>bitmap.rs\<close>): C19, C20, and the number of gaps of a bitmap. \<open>Rtp_Merkle\<close> (\<open>merkle.rs\<close>): C8, C21, C22.
  \<^item> \<open>Rtp_Crypto\<close> (\<open>crypto.rs\<close>), \<open>Rtp_Keys\<close> (\<open>keys.rs\<close>): C23. \<open>Rtp_Object\<close> (\<open>object.rs\<close>): C24, C25.
  \<^item> \<open>Rtp_Scheduler\<close> (\<open>scheduler.rs\<close>): the range request and its planning, over the locale \<open>gap_source\<close> that the bitmap provides. C26, C27.
  \<^item> \<open>Rtp_Control\<close> (\<open>control.rs\<close>): the protected channel; \<open>channel_run\<close> is its step relation. C6, C13, C17.
  \<^item> \<open>Rtp_Events\<close> (\<open>events.rs\<close>): the queue, and the mutex and condition variable around it as a monitor whose threads take turns in any
    order (\<open>monitor_run\<close>). C15, C28. \<open>Rtp_Event_Go\<close> (\<open>event.go\<close>): C29.
  \<^item> \<open>Rtp_Route\<close> (\<open>route.rs\<close>, and \<open>admit_route\<close> and \<open>RouteWatch\<close> of \<open>transfer.rs\<close>): C30, C31. \<open>Rtp_Capability\<close> (\<open>capability.rs\<close>): C10.
  \<^item> \<open>Rtp_Resume\<close> (\<open>resume.rs\<close>): the record, and the order of syncs and commits against an abstract disk that a crash may cut off
    (\<open>resume_run\<close>). C9, C32.
  \<^item> \<open>Rtp_Frame\<close>, \<open>Rtp_Record\<close> (\<open>transfer.rs\<close>): frames, C33, C34; chunk records, acknowledgement and ciphertext cache, C35.
  \<^item> \<open>Rtp_Skip\<close>, \<open>Rtp_Manifest\<close> (\<open>manifest.rs\<close>): the locale \<open>wire\<close> is for readers that accept more than one spelling. C16, C36, C37.
  \<^item> \<open>Rtp_Identity\<close> (\<open>identity.rs\<close>, \<open>pqc.rs\<close>), \<open>Rtp_Base64\<close>, \<open>Rtp_Offer\<close> (\<open>offer.rs\<close>): C7, C38, C39.
  \<^item> \<open>Rtp_Handshake\<close> (\<open>handshake.rs\<close>): messages, replay cache, key schedule, both state machines, resumption. C4, C12, C14, C40.
  \<^item> \<open>Rtp_Session\<close>, \<open>Rtp_Sender\<close>, \<open>Rtp_Receiver\<close> (\<open>transfer.rs\<close>): the state a transfer threads through its steps, and
    \<open>send_file\<close>, \<open>send_pending\<close> and \<open>receive_file\<close> with everything they call.
  \<^item> \<open>Rtp_Delivery\<close>, \<open>Rtp_Transfer\<close>: the two ends run on each other's output. C1, C2.
  \<^item> \<open>Rtp_Robust\<close>: what holds whatever the peer and the system do. C3, C5, C11.

  \<^bold>\<open>What is shown.\<close> Between honest ends: the handshake completes, frames and offers arrive, and the transfer delivers the file (C1, C13, C14, C34, C39).
  Against an adversary: integrity of a received file, agreement of the handshake, no reuse or replay on the channel, binding of
  offers and chunks, exact acceptance by the capability check, the envelope and the sealed manifest (C2, C4, C6 to C8, C10, C16, C17, C23, C25). Against failure:
  the resume record never claims more than the disk holds (C3, C9), and calls return (C5, C22, C30). Of data formats:
  each decoder accepts exactly what the encoder writes, within stated limits (C18, C20, C29, C32, C33, C36, C38).

  \<^bold>\<open>What is relied on.\<close> The third-party primitives are fields of the parameter records \<open>prims\<close> and \<open>pk_prims\<close>. Where a theorem needs
  one of their documented properties it says so: \<open>kdf_lens\<close> (output lengths), \<open>aead_ok\<close> (what is encrypted decrypts), \<open>aead_auth\<close> (only what
  was encrypted decrypts), \<open>sig_ok\<close>, \<open>kem_ok\<close>, \<open>not_forged\<close> (unforgeability of at least one of the two signature schemes for one received
  signature), \<open>no_collision\<close> (for the inputs at hand). Each has a concrete instance in the witnesses. \<open>sleeps\<close> states that
  \<open>tokio::time::sleep\<close> sleeps at least its 100 ms. The condition variable is that of \<open>parking_lot\<close>: a notification releases one waiting
  thread if there is one, and a wait may also end by its time limit.

  \<^bold>\<open>Bounds.\<close> 16384 chunks (C1, C35): the CBOR depth limit of 16 refuses proofs of more than 14 steps, a defect of the reader of chunk records. 1024 gaps (C1, C27):
  ranges in one request, and the receiver sends one request. 2^32 frames (C13, C34): frames in an epoch, within which no rekey is forced. 4096 keys (C12): the
  capacity of the replay cache. 1024 events (C15): the capacity of the queue. Less than 2^64 pushes (C15): the loss counter does not wrap.

  \<^bold>\<open>Where the code does less than it says.\<close> An offer is tied to the session's peer by an identifier only, and that identifier is not
  derived from the keys, so C2 says under which keys the offer is signed: its own. Accepting the stream and writing to it have no time limit, so C5
  assumes that they end and shows what happens otherwise. Extension bytes behind a public manifest are not signed (C7). Size checks of a
  manifest wrap beyond 2^32 chunks (C37). A record larger than 8 MiB is written but not read (C32).

  \<^bold>\<open>Not modelled.\<close> The identity store on disk (\<open>store.rs\<close>) and the platform keystore (\<open>keystore.rs\<close>) are code around file-system
  and operating-system calls; the seed they yield is an argument. The C interface (\<open>lib.rs\<close>) and the rest of the Go binding convert
  arguments and hold handles. QUIC itself is the byte stream and the outcomes of its operations. Wiping of secrets and constant-time
  behaviour are not visible in a functional model. Secrecy is not stated: the theorems are about integrity, agreement and progress.
\<close>

end
